(* ===== verification/Aptos_Prelude.thy ===== *)
theory Aptos_Prelude
  imports Main "HOL-Library.Word" "HOL-Library.Finite_Map"
begin

text \<open>
  Shared vocabulary of the development.

  \<^item> Machine integers and byte strings: \<open>u64\<close> is a 64-bit word, a hash and an account
    address are 32 bytes read big-endian (so the derived byte-wise \<open>Ord\<close> of the Rust arrays is
    the numeric order of the word), keys and signatures are byte strings.
  \<^item> \<open>('e, 'a) outcome\<close>: the result of a Rust function that returns
    \<open>Result<'a, 'e>\<close> and may panic.  The workspace is built with \<open>overflow-checks = true\<close>
    (\<open>src/Cargo.toml\<close>), so an arithmetic overflow is a panic in every profile and is the value
    \<open>Panic\<close> here.
  \<^item> \<open>BTreeMap\<close>: a finite map whose iteration order is the sorted order of its keys.
\<close>

named_theorems outcome_simps \<open>inversion of successful outcome-valued computations\<close>
named_theorems quorum_simps \<open>facts on voting power and quorums\<close>

section \<open>Machine types\<close>

type_synonym u8 = "8 word"
type_synonym u32 = "32 word"
type_synonym u64 = "64 word"
type_synonym hash_value = "256 word"
type_synonym account_address = "256 word"
type_synonym author = account_address
type_synonym round = u64
type_synonym version = u64
type_synonym public_key = "u8 list"
type_synonym private_key = "u8 list"
type_synonym signature = "u8 list"

definition u64_max :: u64 where
  "u64_max = - 1"

section \<open>Outcomes: Ok, Err, or a panic\<close>

datatype ('e, 'a) outcome = Ok 'a | Err 'e | Panic

primrec and_then :: "('e, 'a) outcome \<Rightarrow> ('a \<Rightarrow> ('e, 'b) outcome) \<Rightarrow> ('e, 'b) outcome" where
  "and_then (Ok a) f = f a"
| "and_then (Err e) f = Err e"
| "and_then Panic f = Panic"

primrec map_err :: "('e \<Rightarrow> 'f) \<Rightarrow> ('e, 'a) outcome \<Rightarrow> ('f, 'a) outcome" where
  "map_err g (Ok a) = Ok a"
| "map_err g (Err e) = Err (g e)"
| "map_err g Panic = Panic"

definition ensure :: "bool \<Rightarrow> 'e \<Rightarrow> ('e, unit) outcome" where
  "ensure b e = (if b then Ok () else Err e)"

definition assert_panic :: "bool \<Rightarrow> ('e, unit) outcome" where
  "assert_panic b = (if b then Ok () else Panic)"

definition ok_or :: "'a option \<Rightarrow> 'e \<Rightarrow> ('e, 'a) outcome" where
  "ok_or x e = (case x of None \<Rightarrow> Err e | Some a \<Rightarrow> Ok a)"

definition expect :: "'a option \<Rightarrow> ('e, 'a) outcome" where
  "expect x = (case x of None \<Rightarrow> Panic | Some a \<Rightarrow> Ok a)"

primrec is_ok :: "('e, 'a) outcome \<Rightarrow> bool" where
  "is_ok (Ok a) = True"
| "is_ok (Err e) = False"
| "is_ok Panic = False"

section \<open>Checked arithmetic\<close>

definition checked_add :: "'a::len word \<Rightarrow> 'a word \<Rightarrow> 'a word option" where
  "checked_add a b = (if unat a + unat b < 2 ^ LENGTH('a) then Some (a + b) else None)"

definition checked_sub :: "'a::len word \<Rightarrow> 'a word \<Rightarrow> 'a word option" where
  "checked_sub a b = (if b \<le> a then Some (a - b) else None)"

definition checked_mul :: "'a::len word \<Rightarrow> 'a word \<Rightarrow> 'a word option" where
  "checked_mul a b = (if unat a * unat b < 2 ^ LENGTH('a) then Some (a * b) else None)"

definition saturating_add :: "'a::len word \<Rightarrow> 'a word \<Rightarrow> 'a word" where
  "saturating_add a b = (case checked_add a b of Some c \<Rightarrow> c | None \<Rightarrow> - 1)"

text \<open>The operators \<open>+\<close>, \<open>-\<close> and \<open>*\<close> of the source: a panic on overflow.\<close>

definition add_panic :: "'a::len word \<Rightarrow> 'a word \<Rightarrow> ('e, 'a word) outcome" where
  "add_panic a b = expect (checked_add a b)"

definition sub_panic :: "'a::len word \<Rightarrow> 'a word \<Rightarrow> ('e, 'a word) outcome" where
  "sub_panic a b = expect (checked_sub a b)"

definition mul_panic :: "'a::len word \<Rightarrow> 'a word \<Rightarrow> ('e, 'a word) outcome" where
  "mul_panic a b = expect (checked_mul a b)"

section \<open>Ordered maps\<close>

type_synonym ('k, 'v) btree_map = "('k, 'v) fmap"

definition bt_keys :: "('k::linorder, 'v) btree_map \<Rightarrow> 'k list" where
  "bt_keys m = sorted_list_of_fset (fmdom m)"

definition bt_values :: "('k::linorder, 'v) btree_map \<Rightarrow> 'v list" where
  "bt_values m = map (\<lambda>k. the (fmlookup m k)) (bt_keys m)"

definition bt_iter :: "('k::linorder, 'v) btree_map \<Rightarrow> ('k \<times> 'v) list" where
  "bt_iter m = map (\<lambda>k. (k, the (fmlookup m k))) (bt_keys m)"

definition bt_len :: "('k::linorder, 'v) btree_map \<Rightarrow> nat" where
  "bt_len m = length (bt_keys m)"

text \<open>\<open>map.entry(k).or_insert(v)\<close>: an existing entry is kept.\<close>

definition bt_or_insert :: "'k \<Rightarrow> 'v \<Rightarrow> ('k::linorder, 'v) btree_map \<Rightarrow> ('k, 'v) btree_map" where
  "bt_or_insert k v m = (case fmlookup m k of None \<Rightarrow> fmupd k v m | Some _ \<Rightarrow> m)"

section \<open>Lemmas on outcomes\<close>

lemma and_then_eq_Ok [outcome_simps]:
  "and_then m f = Ok b \<longleftrightarrow> (\<exists>a. m = Ok a \<and> f a = Ok b)"
  by (cases m) auto

lemma and_then_eq_Err [outcome_simps]:
  "and_then m f = Err e \<longleftrightarrow> m = Err e \<or> (\<exists>a. m = Ok a \<and> f a = Err e)"
  by (cases m) auto

lemma and_then_eq_Panic [outcome_simps]:
  "and_then m f = Panic \<longleftrightarrow> m = Panic \<or> (\<exists>a. m = Ok a \<and> f a = Panic)"
  by (cases m) auto

lemma map_err_eq_Ok [outcome_simps, simp]: "map_err g m = Ok a \<longleftrightarrow> m = Ok a"
  by (cases m) auto

lemma map_err_eq_Panic [outcome_simps, simp]: "map_err g m = Panic \<longleftrightarrow> m = Panic"
  by (cases m) auto

lemma map_err_eq_Err [outcome_simps]: "map_err g m = Err e \<longleftrightarrow> (\<exists>e'. m = Err e' \<and> e = g e')"
  by (cases m) auto

lemma ensure_simps [simp]: "ensure True e = Ok ()" "ensure False e = Err e"
  by (simp_all add: ensure_def)

lemma ensure_eq_Ok [outcome_simps, simp]: "ensure b e = Ok u \<longleftrightarrow> b"
  by (simp add: ensure_def)

lemma ensure_eq_Err [outcome_simps, simp]: "ensure b e = Err e' \<longleftrightarrow> \<not> b \<and> e' = e"
  by (auto simp: ensure_def)

lemma ensure_neq_Panic [outcome_simps, simp]: "ensure b e \<noteq> Panic"
  by (simp add: ensure_def)

lemma assert_panic_simps [simp]: "assert_panic True = Ok ()" "assert_panic False = Panic"
  by (simp_all add: assert_panic_def)

lemma assert_panic_eq_Ok [outcome_simps, simp]: "assert_panic b = Ok u \<longleftrightarrow> b"
  by (simp add: assert_panic_def)

lemma assert_panic_neq_Err [outcome_simps, simp]: "assert_panic b \<noteq> Err e"
  by (simp add: assert_panic_def)

lemma ok_or_simps [simp]: "ok_or None e = Err e" "ok_or (Some a) e = Ok a"
  by (simp_all add: ok_or_def)

lemma ok_or_eq_Ok [outcome_simps, simp]: "ok_or x e = Ok a \<longleftrightarrow> x = Some a"
  by (cases x) auto

lemma ok_or_neq_Panic [outcome_simps, simp]: "ok_or x e \<noteq> Panic"
  by (cases x) auto

lemma expect_simps [simp]: "expect None = Panic" "expect (Some a) = Ok a"
  by (simp_all add: expect_def)

lemma expect_eq_Ok [outcome_simps, simp]: "expect x = Ok a \<longleftrightarrow> x = Some a"
  by (cases x) auto

lemma expect_neq_Err [outcome_simps, simp]: "expect x \<noteq> Err e"
  by (cases x) auto

lemma is_ok_iff: "is_ok m \<longleftrightarrow> (\<exists>a. m = Ok a)"
  by (cases m) auto

section \<open>Lemmas on checked arithmetic\<close>

lemma checked_add_Some:
  "checked_add a b = Some c \<longleftrightarrow> unat a + unat b < 2 ^ LENGTH('a) \<and> c = a + b"
  for a :: "'a::len word"
  by (auto simp: checked_add_def)

lemma checked_add_iff:
  "checked_add a b = Some c \<longleftrightarrow> unat c = unat a + unat b"
  for a :: "'a::len word"
proof
  assume *: "unat c = unat a + unat b"
  then have "unat a + unat b < 2 ^ LENGTH('a)" by (metis unsigned_less)
  moreover from this * have "c = a + b"
    by (intro word_unat_eq_iff [THEN iffD2]) (simp add: unat_word_ariths)
  ultimately show "checked_add a b = Some c" by (simp add: checked_add_def)
qed (auto simp: checked_add_def unat_word_ariths split: if_splits)

lemma checked_add_unat:
  "checked_add a b = Some c \<Longrightarrow> unat c = unat a + unat b"
  for a :: "'a::len word"
  by (auto simp: checked_add_def unat_word_ariths split: if_splits)

lemma checked_mul_unat:
  "checked_mul a b = Some c \<Longrightarrow> unat c = unat a * unat b"
  for a :: "'a::len word"
  by (auto simp: checked_mul_def unat_word_ariths split: if_splits)

lemma checked_sub_unat:
  "checked_sub a b = Some c \<Longrightarrow> unat c = unat a - unat b"
  for a :: "'a::len word"
  by (auto simp: checked_sub_def unat_sub split: if_splits)

lemma checked_sub_iff:
  "checked_sub a b = Some c \<longleftrightarrow> unat a = unat b + unat c"
  for a :: "'a::len word"
proof
  assume *: "unat a = unat b + unat c"
  then have "b \<le> a" by (simp add: word_le_nat_alt)
  moreover from this * have "c = a - b"
    by (intro word_unat_eq_iff [THEN iffD2]) (simp add: unat_sub)
  ultimately show "checked_sub a b = Some c" by (simp add: checked_sub_def)
qed (auto simp: checked_sub_def unat_sub word_le_nat_alt split: if_splits)

lemma unat_less_max: "unat (a :: 'a::len word) < 2 ^ LENGTH('a)"
  by (rule unsigned_less)

lemma checked_add_one:
  "checked_add a 1 = Some b \<longleftrightarrow> unat b = Suc (unat a)" for a b :: u64
proof -
  have "b = a + 1" if "unat b = Suc (unat a)"
  proof -
    have "unat (a + 1) = Suc (unat a)"
      using that unat_less_max [of b] by (simp add: unat_word_ariths)
    with that show ?thesis by (metis word_unat_eq_iff)
  qed
  then show ?thesis
    using unat_less_max [of b] by (auto simp: checked_add_def unat_word_ariths)
qed

lemma add_panic_eq_Ok [outcome_simps]:
  "add_panic a b = Ok c \<longleftrightarrow> checked_add a b = Some c"
  by (simp add: add_panic_def)

lemma sub_panic_eq_Ok [outcome_simps]:
  "sub_panic a b = Ok c \<longleftrightarrow> checked_sub a b = Some c"
  by (simp add: sub_panic_def)

lemma mul_panic_eq_Ok [outcome_simps]:
  "mul_panic a b = Ok c \<longleftrightarrow> checked_mul a b = Some c"
  by (simp add: mul_panic_def)

lemma panic_ops_neq_Err [outcome_simps, simp]:
  "add_panic a b \<noteq> Err e" "sub_panic a b \<noteq> Err e" "mul_panic a b \<noteq> Err e"
  by (simp_all add: add_panic_def sub_panic_def mul_panic_def)

section \<open>Lemmas on ordered maps\<close>

lemma set_bt_keys [simp]: "set (bt_keys m) = fset (fmdom m)"
  by (simp add: bt_keys_def)

lemma distinct_bt_keys [simp]: "distinct (bt_keys m)"
  by (simp add: bt_keys_def sorted_list_of_fset.rep_eq)

lemma sorted_bt_keys [simp]: "sorted (bt_keys m)"
  by (simp add: bt_keys_def sorted_list_of_fset.rep_eq)

lemma bt_keys_empty [simp]: "bt_keys fmempty = []"
  by (simp add: bt_keys_def sorted_list_of_fset.rep_eq)

lemma bt_keys_upd [simp]:
  "bt_keys (fmupd k v m) = (if k |\<in>| fmdom m then bt_keys m else insort k (bt_keys m))"
  by (auto simp: bt_keys_def sorted_list_of_fset.rep_eq sorted_list_of_set_insert_remove
      insert_absorb sorted_list_of_set.sorted_key_list_of_set_remove insort_remove1 remove1_idem)

lemma bt_len_card: "bt_len m = fcard (fmdom m)"
  by (simp add: bt_len_def bt_keys_def sorted_list_of_fset.rep_eq fcard.rep_eq)

lemma bt_keys_Nil_iff [simp]: "bt_keys m = [] \<longleftrightarrow> m = fmempty"
proof
  assume "bt_keys m = []"
  then have "fmdom m = {||}" by (metis bot_fset.rep_eq empty_set fset_inject set_bt_keys)
  then show "m = fmempty" by (intro fmap_ext) (auto dest: fmdom_notD)
qed simp

lemma fmlookup_or_insert [simp]:
  "fmlookup (bt_or_insert k v m) k' =
     (if k' = k \<and> fmlookup m k = None then Some v else fmlookup m k')"
  by (auto simp: bt_or_insert_def split: option.splits)

lemma fmdom_or_insert [simp]: "fmdom (bt_or_insert k v m) = finsert k (fmdom m)"
  by (auto simp: bt_or_insert_def fmlookup_dom_iff finsert_absorb split: option.splits)

lemma bt_or_insert_idem:
  "bt_or_insert k v' (bt_or_insert k v m) = bt_or_insert k v m"
  by (auto simp: bt_or_insert_def split: option.splits)

lemma in_bt_iter_iff: "(k, v) \<in> set (bt_iter m) \<longleftrightarrow> fmlookup m k = Some v"
  by (auto simp: bt_iter_def fmlookup_dom_iff)

section \<open>Methods that mutate their receiver\<close>

text \<open>
  A method on \<open>&mut self\<close> that returns a \<open>Result\<close> yields the result and the new receiver; an early
  return keeps the changes made before it.
\<close>

type_synonym ('s, 'e, 'a) stateful = "'s \<Rightarrow> ('e, 'a) outcome \<times> 's"

definition sbind :: "('s, 'e, 'a) stateful \<Rightarrow> ('a \<Rightarrow> ('s, 'e, 'b) stateful) \<Rightarrow> ('s, 'e, 'b) stateful" where
  "sbind m f s =
     (case m s of
        (Ok a, s') \<Rightarrow> f a s'
      | (Err e, s') \<Rightarrow> (Err e, s')
      | (Panic, s') \<Rightarrow> (Panic, s'))"

definition slift :: "('e, 'a) outcome \<Rightarrow> ('s, 'e, 'a) stateful" where
  "slift r s = (r, s)"

definition sread :: "('s \<Rightarrow> ('e, 'a) outcome) \<Rightarrow> ('s, 'e, 'a) stateful" where
  "sread f s = (f s, s)"

lemma sbind_eq_Ok [outcome_simps]:
  "sbind m f s = (Ok b, s'') \<longleftrightarrow> (\<exists>a s'. m s = (Ok a, s') \<and> f a s' = (Ok b, s''))"
  by (auto simp: sbind_def split: prod.splits outcome.splits)

lemma sbind_fst_Ok: "fst (sbind m f s) = Ok b \<longleftrightarrow> (\<exists>a s'. m s = (Ok a, s') \<and> fst (f a s') = Ok b)"
  by (auto simp: sbind_def split: prod.splits outcome.splits)

lemma slift_eq [outcome_simps]: "slift r s = (x, s') \<longleftrightarrow> r = x \<and> s' = s"
  by (auto simp: slift_def)

lemma sread_eq [outcome_simps]: "sread f s = (x, s') \<longleftrightarrow> f s = x \<and> s' = s"
  by (auto simp: sread_def)

lemma snd_slift [simp]: "snd (slift r s) = s"
  by (simp add: slift_def)

lemma snd_sread [simp]: "snd (sread f s) = s"
  by (simp add: sread_def)

text \<open>A predicate on receivers that every step of a method keeps is kept by the method.\<close>

lemma sbind_preserves:
  assumes "P s" "\<And>s. P s \<Longrightarrow> P (snd (m s))" "\<And>a s. P s \<Longrightarrow> P (snd (f a s))"
  shows "P (snd (sbind m f s))"
  using assms(2) [OF assms(1)] assms(3)
  by (auto simp: sbind_def split: prod.splits outcome.splits)

text \<open>A run of a sequence either passes its first step or stops in it.\<close>

lemma sbind_cases:
  assumes "sbind m f s = (r, s')"
  obtains (step) a s1 where "m s = (Ok a, s1)" "f a s1 = (r, s')"
  | (stop) "\<And>a. r \<noteq> Ok a" "\<And>a s1. m s \<noteq> (Ok a, s1)" "s' = snd (m s)"
  using assms by (auto simp: sbind_def split: prod.splits outcome.splits)

section \<open>Maxima of lists\<close>

lemma fold_max_ge: "(m :: 'a::linorder) \<le> fold max xs m"
  by (induction xs arbitrary: m) (auto intro: order_trans [OF max.cobounded2])

lemma fold_max_upper: "x \<in> set xs \<Longrightarrow> (x :: 'a::linorder) \<le> fold max xs m"
proof (induction xs arbitrary: m)
  case (Cons y xs)
  then show ?case using order_trans [OF max.cobounded1 fold_max_ge] by auto
qed simp

section \<open>Halving machine words\<close>

lemma unat_halve: "unat (drop_bit (Suc 0) (w :: 'a::len word)) = unat w div 2"
  by (simp only: unat_drop_bit_eq) (simp add: drop_bit_Suc)

lemma unat_halve_less: "(w :: 'a::len word) \<noteq> 0 \<Longrightarrow> unat (drop_bit (Suc 0) w) < unat w"
  by (simp only: unat_halve) (simp add: unat_gt_0)

end
