(* ===== verification/Validator_Verifier.thy ===== *)
theory Validator_Verifier
  imports Aptos_Prelude
begin

text \<open>
  The weighted validator set: \<open>src/types/src/validator_verifier.rs\<close>, the parts of
  \<open>validator_info.rs\<close>, \<open>validator_config.rs\<close> and \<open>on_chain_config/validator_set.rs\<close>
  it is built from, and the default batch verification of \<open>src/crates/aptos-crypto/src/traits.rs\<close>.

  Signature verification under one key is the parameter \<open>vsig\<close>
  (\<open>public_key.verify_struct_signature(message, signature).is_ok()\<close>; the BLS pairing check is
  the third-party crate \<open>blst\<close>).

  The theory proves that \<open>new\<close> computes the quorum threshold \<open>floor(2 T / 3) + 1\<close> exactly and when
  it panics, that \<open>check_voting_power\<close> decides exactly whether the voters reach the threshold,
  that batch verification agrees with the one-by-one reference, and that any two quorums share
  more than a third of the voting power, which is the law of the locale \<open>quorum_system\<close> the
  agreement proof builds on.
\<close>

section \<open>Data\<close>

datatype verify_error =
    UnknownAuthor
  | TooLittleVotingPower u64 u64
  | TooManySignatures nat nat
  | InvalidSignature
  | InconsistentBlockInfo

record validator_consensus_info =
  vci_public_key :: public_key
  vci_voting_power :: u64

record validator_verifier =
  address_to_validator_info :: "(account_address, validator_consensus_info) btree_map"
  quorum_voting_power :: u64
  total_voting_power :: u64

record validator_config =
  consensus_public_key :: public_key
  validator_network_addresses :: "u8 list"
  fullnode_network_addresses :: "u8 list"
  validator_index :: u64

record validator_info =
  vi_account_address :: account_address
  consensus_voting_power :: u64
  vi_config :: validator_config

datatype consensus_scheme = Ed25519

record validator_set =
  vs_scheme :: consensus_scheme
  active_validators :: "validator_info list"
  pending_inactive :: "validator_info list"
  pending_active :: "validator_info list"

section \<open>Construction\<close>

fun sum_voting_power_from ::
    "u64 \<Rightarrow> validator_consensus_info list \<Rightarrow> ('e, u64) outcome" where
  "sum_voting_power_from acc [] = Ok acc"
| "sum_voting_power_from acc (x # xs) =
     and_then (expect (checked_add acc (vci_voting_power x))) (\<lambda>s. sum_voting_power_from s xs)"

definition sum_voting_power ::
    "(account_address, validator_consensus_info) btree_map \<Rightarrow> ('e, u64) outcome" where
  "sum_voting_power m = sum_voting_power_from 0 (bt_values m)"

definition validator_verifier_new ::
    "(account_address, validator_consensus_info) btree_map \<Rightarrow> ('e, validator_verifier) outcome" where
  "validator_verifier_new m =
     and_then (sum_voting_power m) (\<lambda>total.
     and_then (if bt_len m = 0 then Ok 0
               else and_then (mul_panic total 2) (\<lambda>t2. add_panic (t2 div 3) 1)) (\<lambda>quorum.
     Ok \<lparr>address_to_validator_info = m, quorum_voting_power = quorum,
         total_voting_power = total\<rparr>))"

definition validator_verifier_new_single ::
    "account_address \<Rightarrow> public_key \<Rightarrow> ('e, validator_verifier) outcome" where
  "validator_verifier_new_single a pk =
     validator_verifier_new (fmupd a \<lparr>vci_public_key = pk, vci_voting_power = 1\<rparr> fmempty)"

definition validator_set_payload :: "validator_set \<Rightarrow> validator_info list" where
  "validator_set_payload vs = active_validators vs @ pending_inactive vs"

definition validator_verifier_from_set :: "validator_set \<Rightarrow> ('e, validator_verifier) outcome" where
  "validator_verifier_from_set vs =
     validator_verifier_new
       (fold (\<lambda>i m. fmupd (vi_account_address i)
                \<lparr>vci_public_key = consensus_public_key (vi_config i),
                 vci_voting_power = consensus_voting_power i\<rparr> m)
          (validator_set_payload vs) fmempty)"

section \<open>Queries\<close>

definition get_public_key :: "validator_verifier \<Rightarrow> account_address \<Rightarrow> public_key option" where
  "get_public_key v a = map_option vci_public_key (fmlookup (address_to_validator_info v) a)"

definition get_voting_power :: "validator_verifier \<Rightarrow> account_address \<Rightarrow> u64 option" where
  "get_voting_power v a = map_option vci_voting_power (fmlookup (address_to_validator_info v) a)"

definition get_ordered_account_addresses :: "validator_verifier \<Rightarrow> account_address list" where
  "get_ordered_account_addresses v = bt_keys (address_to_validator_info v)"

definition verifier_len :: "validator_verifier \<Rightarrow> nat" where
  "verifier_len v = bt_len (address_to_validator_info v)"

section \<open>Verification\<close>

definition verifier_verify ::
    "(public_key \<Rightarrow> 'm \<Rightarrow> signature \<Rightarrow> bool) \<Rightarrow> validator_verifier \<Rightarrow> account_address \<Rightarrow> 'm \<Rightarrow>
     signature \<Rightarrow> (verify_error, unit) outcome" where
  "verifier_verify vsig v author message sig =
     (case get_public_key v author of
        Some pk \<Rightarrow> if \<not> vsig pk message sig then Err InvalidSignature else Ok ()
      | None \<Rightarrow> Err UnknownAuthor)"

definition check_num_of_signatures ::
    "validator_verifier \<Rightarrow> (account_address, signature) btree_map \<Rightarrow> (verify_error, unit) outcome" where
  "check_num_of_signatures v sigs =
     (let num_of_signatures = bt_len sigs
      in if num_of_signatures > verifier_len v
         then Err (TooManySignatures num_of_signatures (verifier_len v)) else Ok ())"

fun aggregate_voting_power ::
    "validator_verifier \<Rightarrow> u64 \<Rightarrow> account_address list \<Rightarrow> (verify_error, u64) outcome" where
  "aggregate_voting_power v agg [] = Ok agg"
| "aggregate_voting_power v agg (a # as) =
     (case get_voting_power v a of
        Some p \<Rightarrow> and_then (add_panic agg p) (\<lambda>s. aggregate_voting_power v s as)
      | None \<Rightarrow> Err UnknownAuthor)"

definition check_voting_power ::
    "validator_verifier \<Rightarrow> account_address list \<Rightarrow> (verify_error, unit) outcome" where
  "check_voting_power v authors =
     and_then (aggregate_voting_power v 0 authors) (\<lambda>agg.
       if agg < quorum_voting_power v
       then Err (TooLittleVotingPower agg (quorum_voting_power v)) else Ok ())"

fun verify_each ::
    "(public_key \<Rightarrow> 'm \<Rightarrow> signature \<Rightarrow> bool) \<Rightarrow> validator_verifier \<Rightarrow> 'm \<Rightarrow>
     (account_address \<times> signature) list \<Rightarrow> (verify_error, unit) outcome" where
  "verify_each vsig v message [] = Ok ()"
| "verify_each vsig v message ((author, sig) # rest) =
     and_then (verifier_verify vsig v author message sig) (\<lambda>_. verify_each vsig v message rest)"

definition verify_aggregated_struct_signature ::
    "(public_key \<Rightarrow> 'm \<Rightarrow> signature \<Rightarrow> bool) \<Rightarrow> validator_verifier \<Rightarrow> 'm \<Rightarrow>
     (account_address, signature) btree_map \<Rightarrow> (verify_error, unit) outcome" where
  "verify_aggregated_struct_signature vsig v message sigs =
     and_then (check_num_of_signatures v sigs) (\<lambda>_.
     and_then (check_voting_power v (bt_keys sigs)) (\<lambda>_.
     verify_each vsig v message (bt_iter sigs)))"

text \<open>\<open>Signature::batch_verify\<close>: the default method of the trait, which BLS does not override.\<close>

fun batch_verify ::
    "(public_key \<Rightarrow> 'm \<Rightarrow> signature \<Rightarrow> bool) \<Rightarrow> 'm \<Rightarrow> (public_key \<times> signature) list \<Rightarrow> bool" where
  "batch_verify vsig message [] = True"
| "batch_verify vsig message ((key, sig) # rest) =
     (vsig key message sig \<and> batch_verify vsig message rest)"

definition keys_and_signatures ::
    "validator_verifier \<Rightarrow> (account_address, signature) btree_map \<Rightarrow> (public_key \<times> signature) list" where
  "keys_and_signatures v sigs =
     concat (map (\<lambda>(a, sig). case get_public_key v a of Some pk \<Rightarrow> [(pk, sig)] | None \<Rightarrow> [])
       (bt_iter sigs))"

definition batch_verify_aggregated_signatures ::
    "(public_key \<Rightarrow> 'm \<Rightarrow> signature \<Rightarrow> bool) \<Rightarrow> validator_verifier \<Rightarrow> 'm \<Rightarrow>
     (account_address, signature) btree_map \<Rightarrow> (verify_error, unit) outcome" where
  "batch_verify_aggregated_signatures vsig v message sigs =
     and_then (check_num_of_signatures v sigs) (\<lambda>_.
     and_then (check_voting_power v (bt_keys sigs)) (\<lambda>_.
     if \<not> batch_verify vsig message (keys_and_signatures v sigs)
     then verify_aggregated_struct_signature vsig v message sigs else Ok ()))"

section \<open>Voting power as a measure on sets of validators\<close>

definition members :: "validator_verifier \<Rightarrow> account_address set" where
  "members v = fset (fmdom (address_to_validator_info v))"

definition vpower :: "validator_verifier \<Rightarrow> account_address \<Rightarrow> nat" where
  "vpower v a = (case get_voting_power v a of None \<Rightarrow> 0 | Some p \<Rightarrow> unat p)"

definition set_power :: "validator_verifier \<Rightarrow> account_address set \<Rightarrow> nat" where
  "set_power v S = (\<Sum>a\<in>S. vpower v a)"

definition map_power :: "(account_address, validator_consensus_info) btree_map \<Rightarrow> nat" where
  "map_power m = (\<Sum>a\<in>fset (fmdom m). unat (vci_voting_power (the (fmlookup m a))))"

text \<open>The verifiers that \<open>ValidatorVerifier::new\<close> returns.\<close>

definition wf_verifier :: "validator_verifier \<Rightarrow> bool" where
  "wf_verifier v \<longleftrightarrow>
     unat (total_voting_power v) = set_power v (members v) \<and>
     unat (quorum_voting_power v) =
       (if members v = {} then 0 else set_power v (members v) * 2 div 3 + 1) \<and>
     set_power v (members v) < 2 ^ 63"

section \<open>Lemmas\<close>

lemma finite_members [simp, intro]: "finite (members v)"
  by (simp add: members_def)

lemma get_voting_power_members: "get_voting_power v a = None \<longleftrightarrow> a \<notin> members v"
  by (auto simp: get_voting_power_def members_def fmlookup_dom_iff)

lemma get_voting_power_Some: "get_voting_power v a = Some p \<Longrightarrow> a \<in> members v"
  using get_voting_power_members [of v a] by auto

lemma get_public_key_members: "get_public_key v a = None \<longleftrightarrow> a \<notin> members v"
  by (auto simp: get_public_key_def members_def fmlookup_dom_iff)

lemma set_power_mono: "finite T \<Longrightarrow> S \<subseteq> T \<Longrightarrow> set_power v S \<le> set_power v T"
  by (simp add: set_power_def sum_mono2)

lemma set_power_Un_Int:
  "finite S \<Longrightarrow> finite T \<Longrightarrow> set_power v S + set_power v T = set_power v (S \<union> T) + set_power v (S \<inter> T)"
  by (simp add: set_power_def sum.union_inter)

lemma set_power_distinct: "distinct as \<Longrightarrow> set_power v (set as) = sum_list (map (vpower v) as)"
  by (simp add: set_power_def sum_list_distinct_conv_sum_set)

lemma sum_voting_power_from_eq:
  "sum_voting_power_from acc xs =
     (let s = unat acc + sum_list (map (\<lambda>x. unat (vci_voting_power x)) xs)
      in if s < 2 ^ 64 then Ok (of_nat s) else Panic)"
proof (induction xs arbitrary: acc)
  case Nil
  show ?case using unat_less_max [of acc] by simp
next
  case (Cons x xs)
  show ?case
  proof (cases "checked_add acc (vci_voting_power x)")
    case None
    then show ?thesis by (auto simp: checked_add_def Let_def split: if_splits)
  next
    case (Some c)
    with checked_add_unat [OF Some] show ?thesis
      by (simp add: Cons.IH Let_def add.assoc)
  qed
qed

lemma map_power_values:
  "sum_list (map (\<lambda>x. unat (vci_voting_power x)) (bt_values m)) = map_power m"
  by (simp add: bt_values_def map_power_def comp_def sum_list_distinct_conv_sum_set)

lemma sum_voting_power_eq:
  "sum_voting_power m = (if map_power m < 2 ^ 64 then Ok (of_nat (map_power m)) else Panic)"
  by (simp add: sum_voting_power_def sum_voting_power_from_eq map_power_values Let_def)

lemma bt_len_0_iff [simp]: "bt_len m = 0 \<longleftrightarrow> m = fmempty"
  by (simp add: bt_len_def)

lemma unat_of_nat_u64: "n < 2 ^ 64 \<Longrightarrow> unat (of_nat n :: u64) = n"
  by (simp add: unat_of_nat)

lemma map_power_empty [simp]: "map_power fmempty = 0"
  by (simp add: map_power_def)

lemma quorum_threshold:
  assumes "n < 2 ^ 64"
  shows "and_then (mul_panic (of_nat n :: u64) 2) (\<lambda>t2. add_panic (t2 div 3) 1) =
    (if n < 2 ^ 63 then Ok (of_nat (n * 2 div 3 + 1)) else Panic)"
proof (cases "n < 2 ^ 63")
  case False
  with assms show ?thesis
    by (simp add: mul_panic_def checked_mul_def unat_of_nat_u64)
next
  case True
  let ?t = "of_nat n * 2 :: u64"
  have t: "unat ?t = n * 2"
    using True assms by (simp add: unat_word_ariths unat_of_nat_u64)
  then have d: "unat (?t div 3) = n * 2 div 3" by (simp add: unat_div)
  have "?t div 3 + 1 = of_nat (n * 2 div 3 + 1)"
    using d by (metis of_nat_1 of_nat_add of_nat_unat ucast_id)
  moreover have "unat (?t div 3) + unat (1 :: u64) < 2 ^ 64" using d True by simp
  ultimately show ?thesis
    using True assms
    by (simp add: mul_panic_def checked_mul_def unat_of_nat_u64 add_panic_def checked_add_def)
qed

lemma members_new [simp]:
  "members \<lparr>address_to_validator_info = m, quorum_voting_power = q, total_voting_power = t\<rparr> =
     fset (fmdom m)"
  by (simp add: members_def)

lemma set_power_new [simp]:
  "set_power \<lparr>address_to_validator_info = m, quorum_voting_power = q, total_voting_power = t\<rparr>
     (fset (fmdom m)) = map_power m"
  unfolding set_power_def map_power_def
  by (rule sum.cong) (auto simp: vpower_def get_voting_power_def fmlookup_dom_iff)

lemma fset_fmdom_empty_iff [simp]: "fset (fmdom m) = {} \<longleftrightarrow> m = fmempty"
  by (auto intro!: fmap_ext simp: fmdom_notD)

lemma validator_verifier_new_eq:
  "validator_verifier_new m =
     (if map_power m < 2 ^ 63
      then Ok \<lparr>address_to_validator_info = m,
               quorum_voting_power =
                 (if m = fmempty then 0 else of_nat (map_power m * 2 div 3 + 1)),
               total_voting_power = of_nat (map_power m)\<rparr>
      else Panic)"
  by (auto simp: validator_verifier_new_def sum_voting_power_eq quorum_threshold)

lemma set_power_empty [simp]: "set_power v {} = 0"
  by (simp add: set_power_def)

lemma validator_verifier_new_wf:
  assumes "validator_verifier_new m = Ok v"
  shows "wf_verifier v"
proof (cases "m = fmempty")
  case True
  with assms show ?thesis by (auto simp: validator_verifier_new_eq wf_verifier_def)
next
  case False
  from assms have small: "map_power m < 2 ^ 63"
    by (auto simp: validator_verifier_new_eq split: if_splits)
  then have "unat (of_nat (map_power m * 2 div 3 + 1) :: u64) = map_power m * 2 div 3 + 1"
    by (intro unat_of_nat_u64) simp
  with assms False small show ?thesis
    by (auto simp: validator_verifier_new_eq wf_verifier_def unat_of_nat simp del: of_nat_add)
qed

lemma aggregate_voting_power_eq:
  "aggregate_voting_power v acc as =
     (if \<exists>n. n \<le> length as \<and> set (take n as) \<subseteq> members v \<and>
            2 ^ 64 \<le> unat acc + sum_list (map (vpower v) (take n as)) then Panic
      else if \<not> set as \<subseteq> members v then Err UnknownAuthor
      else Ok (of_nat (unat acc + sum_list (map (vpower v) as))))"
  (is "?lhs acc as = (if ?over acc as then _ else _)")
proof (induction as arbitrary: acc)
  case Nil
  show ?case using unat_less_max [of acc] by (simp add: not_le)
next
  case (Cons a as)
  have over: "?over acc (a # as) \<longleftrightarrow>
      (a \<in> members v \<and> (\<exists>n. n \<le> length as \<and> set (take n as) \<subseteq> members v \<and>
         2 ^ 64 \<le> unat acc + vpower v a + sum_list (map (vpower v) (take n as))))"
    (is "_ \<longleftrightarrow> ?R")
  proof
    assume "?over acc (a # as)"
    then obtain n where n: "n \<le> Suc (length as)" "set (take n (a # as)) \<subseteq> members v"
      "2 ^ 64 \<le> unat acc + sum_list (map (vpower v) (take n (a # as)))" by auto
    have "n \<noteq> 0"
    proof
      assume "n = 0"
      with n(3) unat_less_max [of acc] show False by simp
    qed
    then obtain k where "n = Suc k" by (cases n) auto
    with n show ?R by (auto simp: add.assoc)
  next
    assume ?R
    then obtain n where "a \<in> members v" "n \<le> length as" "set (take n as) \<subseteq> members v"
      "2 ^ 64 \<le> unat acc + vpower v a + sum_list (map (vpower v) (take n as))" by auto
    then show "?over acc (a # as)" by (intro exI [of _ "Suc n"]) (auto simp: add.assoc)
  qed
  show ?case
  proof (cases "get_voting_power v a")
    case None
    then have "a \<notin> members v" by (simp add: get_voting_power_members)
    with None show ?thesis by (subst over) simp
  next
    case (Some p)
    then have a: "a \<in> members v" "vpower v a = unat p"
      using get_voting_power_members [of v a] by (auto simp: vpower_def)
    show ?thesis
    proof (cases "checked_add acc p")
      case None
      then have "2 ^ 64 \<le> unat acc + vpower v a"
        using a by (auto simp: checked_add_def split: if_splits)
      then have "?over acc (a # as)" using a by (subst over) (auto intro: exI [of _ 0])
      with Some None show ?thesis by (simp add: add_panic_def)
    next
      case (Some c)
      note c = checked_add_unat [OF Some]
      from \<open>get_voting_power v a = Some p\<close> Some have "?lhs acc (a # as) = ?lhs c as"
        by (simp add: add_panic_def)
      also have "\<dots> = (if ?over acc (a # as) then Panic
          else if \<not> set (a # as) \<subseteq> members v then Err UnknownAuthor
          else Ok (of_nat (unat acc + sum_list (map (vpower v) (a # as)))))"
        by (subst Cons.IH, subst over) (use a c in \<open>auto simp: add.assoc\<close>)
      finally show ?thesis .
    qed
  qed
qed

lemma aggregate_voting_power_distinct:
  assumes "wf_verifier v" and "distinct as"
  shows "aggregate_voting_power v 0 as =
    (if \<not> set as \<subseteq> members v then Err UnknownAuthor else Ok (of_nat (set_power v (set as))))"
proof -
  have bound: "sum_list (map (vpower v) (take n as)) < 2 ^ 63"
    if "set (take n as) \<subseteq> members v" for n
  proof -
    have "set_power v (set (take n as)) \<le> set_power v (members v)"
      using that by (intro set_power_mono) auto
    with assms show ?thesis by (simp add: wf_verifier_def set_power_distinct)
  qed
  show ?thesis
    using assms(2) by (subst aggregate_voting_power_eq) (auto simp: set_power_distinct dest: bound)
qed

lemma check_voting_power_eq:
  assumes "wf_verifier v" and "distinct as"
  shows "check_voting_power v as =
    (if \<not> set as \<subseteq> members v then Err UnknownAuthor
     else if set_power v (set as) < unat (quorum_voting_power v)
     then Err (TooLittleVotingPower (of_nat (set_power v (set as))) (quorum_voting_power v))
     else Ok ())"
proof -
  have "set_power v (set as) < 2 ^ 63" if "set as \<subseteq> members v"
    using set_power_mono [OF _ that, of v] assms by (auto simp: wf_verifier_def)
  then show ?thesis
    by (auto simp: check_voting_power_def aggregate_voting_power_distinct [OF assms]
        word_less_nat_alt unat_of_nat)
qed

lemma check_voting_power_Ok:
  assumes "wf_verifier v" and "distinct as"
  shows "check_voting_power v as = Ok u \<longleftrightarrow>
    set as \<subseteq> members v \<and> unat (quorum_voting_power v) \<le> set_power v (set as)"
  by (simp add: check_voting_power_eq [OF assms])

lemma aggregate_voting_power_members:
  "aggregate_voting_power v acc as = Ok s \<Longrightarrow> set as \<subseteq> members v"
  by (induction as arbitrary: acc)
    (auto simp: outcome_simps split: option.splits dest: get_voting_power_Some)

lemma check_voting_power_Ok_members:
  "check_voting_power v as = Ok u \<Longrightarrow> set as \<subseteq> members v"
  by (auto simp: check_voting_power_def outcome_simps dest: aggregate_voting_power_members)

section \<open>Quorum systems\<close>

text \<open>
  What a client of the verifier relies on: any two sets of voters that reach the threshold share a
  voter that is not faulty.  The client lemmas are proved once from this law.
\<close>

locale quorum_system =
  fixes is_quorum :: "'a set \<Rightarrow> bool" and faulty :: "'a set"
  assumes quorums_meet: "is_quorum Q \<Longrightarrow> is_quorum Q' \<Longrightarrow> \<exists>a\<in>Q \<inter> Q'. a \<notin> faulty"
begin

lemma quorum_has_correct: "is_quorum Q \<Longrightarrow> \<exists>a\<in>Q. a \<notin> faulty"
  using quorums_meet [of Q Q] by auto

text \<open>Two quorums of voters, each correct voter having made one choice, chose the same.\<close>

lemma quorum_choice_unique:
  assumes "is_quorum Q" and "is_quorum Q'"
    and "\<And>a. a \<in> Q \<Longrightarrow> a \<notin> faulty \<Longrightarrow> chose a x"
    and "\<And>a. a \<in> Q' \<Longrightarrow> a \<notin> faulty \<Longrightarrow> chose a y"
    and "\<And>a x y. a \<notin> faulty \<Longrightarrow> chose a x \<Longrightarrow> chose a y \<Longrightarrow> x = y"
  shows "x = y"
proof -
  from quorums_meet [OF assms(1,2)] obtain a where "a \<in> Q" "a \<in> Q'" "a \<notin> faulty" by auto
  with assms(3-5) show ?thesis by blast
qed

end

text \<open>
  The fault bound of the protocol (less than a third of the voting power is Byzantine), and the
  sets of voters that \<open>check_voting_power\<close> accepts.
\<close>

definition tolerates :: "validator_verifier \<Rightarrow> account_address set \<Rightarrow> bool" where
  "tolerates v byz \<longleftrightarrow>
     wf_verifier v \<and> 3 * set_power v (byz \<inter> members v) < set_power v (members v)"

definition voter_quorum ::
    "validator_verifier \<Rightarrow> account_address set \<Rightarrow> account_address set \<Rightarrow> bool" where
  "voter_quorum v byz Q \<longleftrightarrow>
     tolerates v byz \<and> (\<exists>as. distinct as \<and> set as = Q \<and> check_voting_power v as = Ok ())"

lemma voter_quorumI:
  "tolerates v byz \<Longrightarrow> distinct as \<Longrightarrow> check_voting_power v as = Ok u \<Longrightarrow>
   voter_quorum v byz (set as)"
  by (auto simp: voter_quorum_def)

lemma quorum_overlap_arith:
  fixes p q t i :: nat
  assumes "t * 2 div 3 + 1 \<le> p" "t * 2 div 3 + 1 \<le> q" "p + q \<le> t + i"
  shows "t < 3 * i"
  using assms div_mult_mod_eq [of "t * 2" 3] mod_less_divisor [of 3 "t * 2"] by linarith

lemma checked_quorums_overlap:
  assumes wf: "wf_verifier v" and d: "distinct as" "distinct bs" and ne: "members v \<noteq> {}"
    and ok: "check_voting_power v as = Ok ()" "check_voting_power v bs = Ok ()"
  shows "set_power v (members v) < 3 * set_power v (set as \<inter> set bs)"
proof -
  from ok d wf have sub: "set as \<subseteq> members v" "set bs \<subseteq> members v"
    and q: "unat (quorum_voting_power v) \<le> set_power v (set as)"
      "unat (quorum_voting_power v) \<le> set_power v (set bs)"
    by (auto simp: check_voting_power_Ok)
  have "set_power v (set as \<union> set bs) \<le> set_power v (members v)"
    using sub by (intro set_power_mono) auto
  with set_power_Un_Int [of "set as" "set bs" v]
  have "set_power v (set as) + set_power v (set bs) \<le>
      set_power v (members v) + set_power v (set as \<inter> set bs)" by simp
  moreover have "unat (quorum_voting_power v) = set_power v (members v) * 2 div 3 + 1"
    using wf ne by (simp add: wf_verifier_def)
  ultimately show ?thesis using q by (intro quorum_overlap_arith) auto
qed

interpretation vq: quorum_system "voter_quorum v byz" byz for v byz
proof
  fix Q Q' assume "voter_quorum v byz Q" "voter_quorum v byz Q'"
  then obtain as bs where ab: "distinct as" "set as = Q" "check_voting_power v as = Ok ()"
    "distinct bs" "set bs = Q'" "check_voting_power v bs = Ok ()" and tol: "tolerates v byz"
    by (auto simp: voter_quorum_def)
  from tol have "members v \<noteq> {}" by (auto simp: tolerates_def set_power_def)
  with ab tol have big: "set_power v (members v) < 3 * set_power v (Q \<inter> Q')"
    using checked_quorums_overlap [of v as bs] by (auto simp: tolerates_def)
  have sub: "Q \<inter> Q' \<subseteq> members v" using check_voting_power_Ok_members [OF ab(3)] ab(2) by auto
  show "\<exists>a\<in>Q \<inter> Q'. a \<notin> byz"
  proof (rule ccontr)
    assume "\<not> ?thesis"
    then have "Q \<inter> Q' \<subseteq> byz \<inter> members v" using sub by auto
    then have "set_power v (Q \<inter> Q') \<le> set_power v (byz \<inter> members v)"
      by (intro set_power_mono) auto
    with big tol show False by (simp add: tolerates_def)
  qed
qed

section \<open>Aggregated signatures\<close>

lemma verifier_verify_Ok:
  "verifier_verify vsig v a msg sig = Ok u \<longleftrightarrow>
     (\<exists>pk. get_public_key v a = Some pk \<and> vsig pk msg sig)"
  by (auto simp: verifier_verify_def split: option.splits)

lemma verifier_verify_neq_Panic [simp]: "verifier_verify vsig v a msg sig \<noteq> Panic"
  by (auto simp: verifier_verify_def split: option.splits)

lemma verify_each_Ok:
  "verify_each vsig v msg xs = Ok u \<longleftrightarrow>
     (\<forall>(a, sig)\<in>set xs. \<exists>pk. get_public_key v a = Some pk \<and> vsig pk msg sig)"
  by (induction xs) (auto simp: outcome_simps verifier_verify_Ok)

lemma verify_each_iter:
  "verify_each vsig v msg (bt_iter sigs) = Ok u \<longleftrightarrow>
     (\<forall>a sig. fmlookup sigs a = Some sig \<longrightarrow>
        (\<exists>pk. get_public_key v a = Some pk \<and> vsig pk msg sig))"
  by (auto simp: verify_each_Ok simp flip: in_bt_iter_iff)

lemma batch_verify_iff: "batch_verify vsig msg xs \<longleftrightarrow> (\<forall>(pk, sig)\<in>set xs. vsig pk msg sig)"
  by (induction xs) auto

lemma batch_verify_known_keys:
  assumes "fset (fmdom sigs) \<subseteq> members v"
  shows "batch_verify vsig msg (keys_and_signatures v sigs) \<longleftrightarrow>
    verify_each vsig v msg (bt_iter sigs) = Ok ()"
proof -
  have "\<exists>pk. get_public_key v a = Some pk" if "(a, sig) \<in> set (bt_iter sigs)" for a sig
  proof -
    from that assms have "a \<in> members v" by (auto simp: in_bt_iter_iff fmlookup_dom_iff)
    then show ?thesis using get_public_key_members [of v a] by auto
  qed
  then show ?thesis
    by (fastforce simp: batch_verify_iff verify_each_Ok keys_and_signatures_def
        split: option.splits)
qed

lemma verify_aggregated_struct_signature_Ok:
  "verify_aggregated_struct_signature vsig v msg sigs = Ok u \<longleftrightarrow>
     bt_len sigs \<le> verifier_len v \<and> check_voting_power v (bt_keys sigs) = Ok () \<and>
     (\<forall>a sig. fmlookup sigs a = Some sig \<longrightarrow>
        (\<exists>pk. get_public_key v a = Some pk \<and> vsig pk msg sig))"
  by (auto simp: verify_aggregated_struct_signature_def outcome_simps check_num_of_signatures_def
      verify_each_iter Let_def not_less split: if_splits)

lemma batch_verify_aggregated_signatures_Ok:
  "batch_verify_aggregated_signatures vsig v msg sigs = Ok u \<longleftrightarrow>
     bt_len sigs \<le> verifier_len v \<and> check_voting_power v (bt_keys sigs) = Ok () \<and>
     (\<forall>a sig. fmlookup sigs a = Some sig \<longrightarrow>
        (\<exists>pk. get_public_key v a = Some pk \<and> vsig pk msg sig))"
  using check_voting_power_Ok_members [of v "bt_keys sigs"]
  by (auto simp: batch_verify_aggregated_signatures_def outcome_simps check_num_of_signatures_def
      verify_aggregated_struct_signature_Ok batch_verify_known_keys verify_each_iter
      Let_def not_less split: if_splits)

section \<open>A concrete verifier\<close>

text \<open>Four validators of voting power 1, for the concrete instances.\<close>

definition four_validators :: "(account_address, validator_consensus_info) btree_map" where
  "four_validators =
     fmupd 1 \<lparr>vci_public_key = [1], vci_voting_power = 1\<rparr> (
     fmupd 2 \<lparr>vci_public_key = [2], vci_voting_power = 1\<rparr> (
     fmupd 3 \<lparr>vci_public_key = [3], vci_voting_power = 1\<rparr> (
     fmupd 4 \<lparr>vci_public_key = [4], vci_voting_power = 1\<rparr> fmempty)))"

definition four_verifier :: validator_verifier where
  "four_verifier =
     \<lparr>address_to_validator_info = four_validators, quorum_voting_power = 3, total_voting_power = 4\<rparr>"

lemma four_verifier_new: "validator_verifier_new four_validators = Ok four_verifier"
  by (simp add: validator_verifier_new_def four_verifier_def four_validators_def sum_voting_power_def
      bt_values_def bt_len_def checked_add_def expect_def mul_panic_def checked_mul_def add_panic_def)

lemma four_verifier_voting_power:
  "get_voting_power four_verifier a = (if a \<in> {1, 2, 3, 4} then Some 1 else None)"
  by (simp add: get_voting_power_def four_verifier_def four_validators_def)

lemma four_verifier_public_key:
  "get_public_key four_verifier a =
     (if a = 1 then Some [1] else if a = 2 then Some [2] else if a = 3 then Some [3]
      else if a = 4 then Some [4] else None)"
  by (simp add: get_public_key_def four_verifier_def four_validators_def)

lemma four_verifier_simps:
  "quorum_voting_power four_verifier = 3" "total_voting_power four_verifier = 4"
  "members four_verifier = {1, 2, 3, 4}" "verifier_len four_verifier = 4"
  by (simp_all add: four_verifier_def four_validators_def members_def verifier_len_def bt_len_def)

lemma four_verifier_wf: "wf_verifier four_verifier"
  using four_verifier_new by (rule validator_verifier_new_wf)

lemma check_voting_power_four:
  "check_voting_power four_verifier [1, 2, 3] = Ok ()"
  "check_voting_power four_verifier [2, 3, 4] = Ok ()"
  by (simp_all add: check_voting_power_def four_verifier_voting_power four_verifier_simps
      add_panic_def checked_add_def expect_def)

section \<open>Properties\<close>

text \<open>C22: \<open>batch_verify_aggregated_signatures\<close>, the optimised check used for every certificate,
  returns exactly what the one-by-one reference \<open>verify_aggregated_struct_signature\<close> returns, for
  every message, verifier and signature map, errors and panics included.\<close>

theorem batch_verification_equals_reference:
  "batch_verify_aggregated_signatures vsig v msg sigs =
     verify_aggregated_struct_signature vsig v msg sigs"
proof (cases "check_voting_power v (bt_keys sigs)")
  case (Ok u)
  then have "fset (fmdom sigs) \<subseteq> members v"
    using check_voting_power_Ok_members by fastforce
  with Ok show ?thesis
    by (auto simp: batch_verify_aggregated_signatures_def verify_aggregated_struct_signature_def
        batch_verify_known_keys check_num_of_signatures_def Let_def)
qed (auto simp: batch_verify_aggregated_signatures_def verify_aggregated_struct_signature_def
    check_num_of_signatures_def Let_def)

text \<open>C23: In a verifier built by \<open>new\<close> from a non-empty validator map, any two lists of distinct
  authors that \<open>check_voting_power\<close> accepts have common authors holding more than a third of
  the total voting power.\<close>

theorem accepted_quorums_share_a_third:
  assumes "validator_verifier_new m = (Ok v :: (verify_error, _) outcome)" and "m \<noteq> fmempty"
    and "distinct as" and "distinct bs"
    and "check_voting_power v as = Ok ()" and "check_voting_power v bs = Ok ()"
  shows "map_power m < 3 * set_power v (set as \<inter> set bs)"
proof -
  have v: "members v = fset (fmdom m)" "set_power v (members v) = map_power m"
    using assms(1) by (auto simp: validator_verifier_new_eq split: if_splits)
  moreover have "wf_verifier v" using assms(1) by (rule validator_verifier_new_wf)
  ultimately show ?thesis using assms checked_quorums_overlap [of v as bs] by simp
qed

theorem accepted_quorums_share_a_third_witness:
  "map_power four_validators < 3 * set_power four_verifier (set [1, 2, 3] \<inter> set [2, 3, 4])"
proof (rule accepted_quorums_share_a_third)
  show "validator_verifier_new four_validators = (Ok four_verifier :: (verify_error, _) outcome)"
    by (rule four_verifier_new)
  show "four_validators \<noteq> fmempty"
    by (simp add: four_validators_def flip: bt_keys_Nil_iff)
qed (simp_all add: check_voting_power_four)

text \<open>C24: \<open>ValidatorVerifier::new\<close> panics exactly when the summed voting power reaches
  \<open>2^63\<close> (the sum itself, or its double, overflows 64 bits); below that it returns the map with the
  exact total and the threshold \<open>floor(2 * total / 3) + 1\<close>, or 0 for an empty map.\<close>

theorem validator_verifier_new_threshold:
  "(validator_verifier_new m = (Panic :: (verify_error, _) outcome) \<longleftrightarrow> 2 ^ 63 \<le> map_power m) \<and>
   (map_power m < 2 ^ 63 \<longrightarrow>
     (\<exists>v. validator_verifier_new m = (Ok v :: (verify_error, _) outcome) \<and>
        address_to_validator_info v = m \<and> unat (total_voting_power v) = map_power m \<and>
        unat (quorum_voting_power v) =
          (if m = fmempty then 0 else map_power m * 2 div 3 + 1)))"
proof (intro conjI impI)
  show "validator_verifier_new m = (Panic :: (verify_error, _) outcome) \<longleftrightarrow> 2 ^ 63 \<le> map_power m"
    by (simp add: validator_verifier_new_eq not_less)
next
  assume "map_power m < 2 ^ 63"
  then obtain v where new: "validator_verifier_new m = (Ok v :: (verify_error, _) outcome)"
    and m: "address_to_validator_info v = m"
    by (simp add: validator_verifier_new_eq)
  from new have "set_power v (members v) = map_power m" "members v = fset (fmdom m)"
    by (auto simp: validator_verifier_new_eq split: if_splits)
  with validator_verifier_new_wf [OF new] new m
  show "\<exists>v. validator_verifier_new m = (Ok v :: (verify_error, _) outcome) \<and>
      address_to_validator_info v = m \<and> unat (total_voting_power v) = map_power m \<and>
      unat (quorum_voting_power v) = (if m = fmempty then 0 else map_power m * 2 div 3 + 1)"
    by (auto simp: wf_verifier_def)
qed

theorem validator_verifier_new_threshold_witness:
  "unat (quorum_voting_power four_verifier) = map_power four_validators * 2 div 3 + 1"
proof -
  have "map_power four_validators < 2 ^ 63" "four_validators \<noteq> fmempty"
    by (simp_all add: map_power_def four_validators_def flip: bt_keys_Nil_iff)
  with validator_verifier_new_threshold [of four_validators] show ?thesis
    by (auto simp: four_verifier_new)
qed

text \<open>C25: Under a verifier built by \<open>new\<close>, a certificate's signatures are accepted exactly when every
  signer is a known validator whose signature on the message verifies under its registered key and
  the signers' voting power reaches the threshold.\<close>

theorem aggregated_signature_accepted_iff:
  assumes "validator_verifier_new m = (Ok v :: (verify_error, _) outcome)"
  shows "batch_verify_aggregated_signatures vsig v msg sigs = Ok () \<longleftrightarrow>
    unat (quorum_voting_power v) \<le> set_power v (fset (fmdom sigs)) \<and>
    (\<forall>a sig. fmlookup sigs a = Some sig \<longrightarrow>
       (\<exists>pk. get_public_key v a = Some pk \<and> vsig pk msg sig))"
  (is "?acc \<longleftrightarrow> ?pow \<and> ?sigs")
proof -
  have wf: "wf_verifier v" using assms by (rule validator_verifier_new_wf)
  have sub: "fset (fmdom sigs) \<subseteq> members v" if ?sigs
  proof
    fix a assume "a \<in> fset (fmdom sigs)"
    with that obtain pk where "get_public_key v a = Some pk" by (auto simp: fmlookup_dom_iff)
    then show "a \<in> members v" using get_public_key_members [of v a] by auto
  qed
  then have "bt_len sigs \<le> verifier_len v" if ?sigs
    using that card_mono [OF finite_members, of "fset (fmdom sigs)" v]
    by (simp add: bt_len_card verifier_len_def members_def fcard.rep_eq)
  with sub show ?thesis
    by (auto simp: batch_verify_aggregated_signatures_Ok check_voting_power_Ok [OF wf])
qed

theorem aggregated_signature_accepted_iff_witness:
  "batch_verify_aggregated_signatures (\<lambda>pk m sig. sig = pk @ [m]) four_verifier 7
     (fmupd 1 [1, 7] (fmupd 3 [3, 7] (fmupd 4 [4, 7] fmempty))) = Ok () \<and>
   \<not> batch_verify_aggregated_signatures (\<lambda>pk m sig. sig = pk @ [m]) four_verifier 7
     (fmupd 1 [1, 7] (fmupd 3 [3, 7] (fmupd 4 [5, 7] fmempty))) = Ok ()"
  unfolding aggregated_signature_accepted_iff [OF four_verifier_new]
  by (simp add: four_verifier_public_key four_verifier_simps set_power_def vpower_def
      four_verifier_voting_power)

end
