(* ===== verification/Ledger_Info.thy ===== *)
theory Ledger_Info
  imports Validator_Verifier
begin

text \<open>
  The ledger data of \<open>src/types/src\<close>: \<open>epoch_state.rs\<close> (the record), \<open>block_info.rs\<close>,
  \<open>ledger_info.rs\<close> and \<open>waypoint.rs\<close>, with the literal hashes of
  \<open>src/crates/aptos-crypto/src/hash.rs\<close>.

  An \<open>anyhow\<close> error is kept as a structured value (the message, the wrapped verification error, a
  context), where the source keeps the rendered text.  What the code takes from the cryptographic
  crates is a record of functions, \<open>li_crypto\<close>: signature verification on ledger infos and the hash
  of the waypoint converter.
\<close>

section \<open>Errors\<close>

datatype anyhow_error =
    Msg string
  | Verify_Error verify_error
  | Context string anyhow_error

definition anyhow_context :: "string \<Rightarrow> (anyhow_error, 'a) outcome \<Rightarrow> (anyhow_error, 'a) outcome" where
  "anyhow_context s = map_err (Context s)"

definition lift_verify :: "(verify_error, 'a) outcome \<Rightarrow> (anyhow_error, 'a) outcome" where
  "lift_verify = map_err Verify_Error"

section \<open>Hash values\<close>

definition hash_zero :: hash_value where
  "hash_zero = 0"

definition create_literal_hash :: "string \<Rightarrow> (anyhow_error, hash_value) outcome" where
  "create_literal_hash w =
     and_then (assert_panic (length w \<le> 32)) (\<lambda>_.
     Ok (of_nat (foldl (\<lambda>acc c. acc * 256 + of_char c) 0 (w @ replicate (32 - length w) CHR 0x00))))"

definition accumulator_placeholder_hash :: hash_value where
  "accumulator_placeholder_hash =
     (case create_literal_hash ''ACCUMULATOR_PLACEHOLDER_HASH'' of Ok h \<Rightarrow> h | _ \<Rightarrow> 0)"

section \<open>Epoch state and block info\<close>

record epoch_state =
  es_epoch :: u64
  es_verifier :: validator_verifier

definition epoch_state_empty :: "('e, epoch_state) outcome" where
  "epoch_state_empty =
     and_then (validator_verifier_new fmempty) (\<lambda>v. Ok \<lparr>es_epoch = 0, es_verifier = v\<rparr>)"

record block_info =
  bi_epoch :: u64
  bi_round :: round
  bi_id :: hash_value
  bi_executed_state_id :: hash_value
  bi_version :: version
  bi_timestamp_usecs :: u64
  bi_next_epoch_state :: "epoch_state option"

definition block_info_empty :: block_info where
  "block_info_empty =
     \<lparr>bi_epoch = 0, bi_round = 0, bi_id = hash_zero, bi_executed_state_id = hash_zero,
      bi_version = 0, bi_timestamp_usecs = 0, bi_next_epoch_state = None\<rparr>"

definition block_info_genesis :: "hash_value \<Rightarrow> validator_set \<Rightarrow> ('e, block_info) outcome" where
  "block_info_genesis root vs =
     and_then (validator_verifier_from_set vs) (\<lambda>v.
     Ok \<lparr>bi_epoch = 0, bi_round = 0, bi_id = hash_zero, bi_executed_state_id = root,
         bi_version = 0, bi_timestamp_usecs = 0,
         bi_next_epoch_state = Some \<lparr>es_epoch = 1, es_verifier = v\<rparr>\<rparr>)"

definition has_reconfiguration :: "block_info \<Rightarrow> bool" where
  "has_reconfiguration b = (bi_next_epoch_state b \<noteq> None)"

definition next_block_epoch :: "block_info \<Rightarrow> u64" where
  "next_block_epoch b = (case bi_next_epoch_state b of None \<Rightarrow> bi_epoch b | Some e \<Rightarrow> es_epoch e)"

definition allow_timestamp_change :: "block_info \<Rightarrow> u64 \<Rightarrow> bool" where
  "allow_timestamp_change b ts = (has_reconfiguration b \<and> bi_timestamp_usecs b \<ge> ts)"

definition change_timestamp :: "block_info \<Rightarrow> u64 \<Rightarrow> ('e, block_info) outcome" where
  "change_timestamp b ts =
     and_then (assert_panic (allow_timestamp_change b ts)) (\<lambda>_. Ok (b\<lparr>bi_timestamp_usecs := ts\<rparr>))"

text \<open>\<open>match_ordered_only self executed\<close>: the fields that execution does not change agree.\<close>

definition match_ordered_only :: "block_info \<Rightarrow> block_info \<Rightarrow> bool" where
  "match_ordered_only b executed =
     (bi_epoch b = bi_epoch executed \<and> bi_round b = bi_round executed \<and> bi_id b = bi_id executed \<and>
      (bi_timestamp_usecs b = bi_timestamp_usecs executed \<or>
       (bi_timestamp_usecs b > bi_timestamp_usecs executed \<and> has_reconfiguration executed)))"

definition is_ordered_only :: "block_info \<Rightarrow> bool" where
  "is_ordered_only b =
     (b \<noteq> block_info_empty \<and> bi_next_epoch_state b = None \<and>
      bi_executed_state_id b = accumulator_placeholder_hash \<and> bi_version b = 0)"

section \<open>Ledger info\<close>

record ledger_info =
  commit_info :: block_info
  consensus_data_hash :: hash_value

definition ledger_info_genesis :: "hash_value \<Rightarrow> validator_set \<Rightarrow> ('e, ledger_info) outcome" where
  "ledger_info_genesis root vs =
     and_then (block_info_genesis root vs) (\<lambda>b.
     Ok \<lparr>commit_info = b, consensus_data_hash = hash_zero\<rparr>)"

definition li_epoch :: "ledger_info \<Rightarrow> u64" where
  "li_epoch li = bi_epoch (commit_info li)"

definition li_next_block_epoch :: "ledger_info \<Rightarrow> u64" where
  "li_next_block_epoch li = next_block_epoch (commit_info li)"

definition li_round :: "ledger_info \<Rightarrow> round" where
  "li_round li = bi_round (commit_info li)"

definition consensus_block_id :: "ledger_info \<Rightarrow> hash_value" where
  "consensus_block_id li = bi_id (commit_info li)"

definition transaction_accumulator_hash :: "ledger_info \<Rightarrow> hash_value" where
  "transaction_accumulator_hash li = bi_executed_state_id (commit_info li)"

definition li_version :: "ledger_info \<Rightarrow> version" where
  "li_version li = bi_version (commit_info li)"

definition li_timestamp_usecs :: "ledger_info \<Rightarrow> u64" where
  "li_timestamp_usecs li = bi_timestamp_usecs (commit_info li)"

definition li_next_epoch_state :: "ledger_info \<Rightarrow> epoch_state option" where
  "li_next_epoch_state li = bi_next_epoch_state (commit_info li)"

definition li_ends_epoch :: "ledger_info \<Rightarrow> bool" where
  "li_ends_epoch li = (li_next_epoch_state li \<noteq> None)"

lemmas li_accessors = li_epoch_def li_next_block_epoch_def li_round_def consensus_block_id_def
  transaction_accumulator_hash_def li_version_def li_timestamp_usecs_def li_next_epoch_state_def
  li_ends_epoch_def

text \<open>\<open>LedgerInfoWithSignatures\<close>: the one-variant enum derefs to its \<open>LedgerInfoWithV0\<close>.\<close>

record ledger_info_with_signatures =
  lis_ledger_info :: ledger_info
  lis_signatures :: "(account_address, signature) btree_map"

definition lis_new ::
    "ledger_info \<Rightarrow> (account_address, signature) btree_map \<Rightarrow> ledger_info_with_signatures" where
  "lis_new li sigs = \<lparr>lis_ledger_info = li, lis_signatures = sigs\<rparr>"

definition lis_genesis ::
    "hash_value \<Rightarrow> validator_set \<Rightarrow> ('e, ledger_info_with_signatures) outcome" where
  "lis_genesis root vs = and_then (ledger_info_genesis root vs) (\<lambda>li. Ok (lis_new li fmempty))"

definition lis_commit_info :: "ledger_info_with_signatures \<Rightarrow> block_info" where
  "lis_commit_info lis = commit_info (lis_ledger_info lis)"

definition add_signature ::
    "account_address \<Rightarrow> signature \<Rightarrow> ledger_info_with_signatures \<Rightarrow> ledger_info_with_signatures" where
  "add_signature validator sig lis =
     lis\<lparr>lis_signatures := bt_or_insert validator sig (lis_signatures lis)\<rparr>"

definition remove_signature ::
    "account_address \<Rightarrow> ledger_info_with_signatures \<Rightarrow> ledger_info_with_signatures" where
  "remove_signature validator lis = lis\<lparr>lis_signatures := fmdrop validator (lis_signatures lis)\<rparr>"

section \<open>Waypoints\<close>

record ledger2waypoint_converter =
  l2w_epoch :: u64
  l2w_root_hash :: hash_value
  l2w_version :: version
  l2w_timestamp_usecs :: u64
  l2w_next_epoch_state :: "epoch_state option"

record li_crypto =
  vsig_ledger_info :: "public_key \<Rightarrow> ledger_info \<Rightarrow> signature \<Rightarrow> bool"
  hash_waypoint :: "ledger2waypoint_converter \<Rightarrow> hash_value"

definition lis_verify_signatures ::
    "('z) li_crypto_scheme \<Rightarrow> ledger_info_with_signatures \<Rightarrow> validator_verifier \<Rightarrow>
     (verify_error, unit) outcome" where
  "lis_verify_signatures cr lis v =
     batch_verify_aggregated_signatures (vsig_ledger_info cr) v (lis_ledger_info lis)
       (lis_signatures lis)"

definition lis_check_voting_power ::
    "ledger_info_with_signatures \<Rightarrow> validator_verifier \<Rightarrow> (verify_error, unit) outcome" where
  "lis_check_voting_power lis v = check_voting_power v (bt_keys (lis_signatures lis))"

record waypoint =
  wp_version :: version
  wp_value :: hash_value

definition ledger2waypoint_new :: "ledger_info \<Rightarrow> ledger2waypoint_converter" where
  "ledger2waypoint_new li =
     \<lparr>l2w_epoch = li_epoch li, l2w_root_hash = transaction_accumulator_hash li,
      l2w_version = li_version li, l2w_timestamp_usecs = li_timestamp_usecs li,
      l2w_next_epoch_state = li_next_epoch_state li\<rparr>"

definition waypoint_new_any :: "('z) li_crypto_scheme \<Rightarrow> ledger_info \<Rightarrow> waypoint" where
  "waypoint_new_any cr li =
     \<lparr>wp_version = li_version li, wp_value = hash_waypoint cr (ledger2waypoint_new li)\<rparr>"

definition waypoint_new_epoch_boundary ::
    "('z) li_crypto_scheme \<Rightarrow> ledger_info \<Rightarrow> (anyhow_error, waypoint) outcome" where
  "waypoint_new_epoch_boundary cr li =
     and_then (ensure (li_ends_epoch li) (Msg ''No validator set'')) (\<lambda>_.
     Ok (waypoint_new_any cr li))"

definition waypoint_verify ::
    "('z) li_crypto_scheme \<Rightarrow> waypoint \<Rightarrow> ledger_info \<Rightarrow> (anyhow_error, unit) outcome" where
  "waypoint_verify cr w li =
     and_then (ensure (li_version li = wp_version w) (Msg ''Waypoint version mismatch'')) (\<lambda>_.
     ensure (hash_waypoint cr (ledger2waypoint_new li) = wp_value w)
       (Msg ''Waypoint value mismatch''))"

section \<open>Lemmas\<close>

lemma anyhow_context_eq_Ok [outcome_simps, simp]: "anyhow_context s m = Ok a \<longleftrightarrow> m = Ok a"
  by (simp add: anyhow_context_def)

lemma lift_verify_eq_Ok [outcome_simps, simp]: "lift_verify m = Ok a \<longleftrightarrow> m = Ok a"
  by (simp add: lift_verify_def)

lemma lis_verify_signatures_Ok:
  "lis_verify_signatures cr lis v = Ok u \<longleftrightarrow>
     bt_len (lis_signatures lis) \<le> verifier_len v \<and>
     check_voting_power v (bt_keys (lis_signatures lis)) = Ok () \<and>
     (\<forall>a sig. fmlookup (lis_signatures lis) a = Some sig \<longrightarrow>
        (\<exists>pk. get_public_key v a = Some pk \<and> vsig_ledger_info cr pk (lis_ledger_info lis) sig))"
  by (simp add: lis_verify_signatures_def batch_verify_aggregated_signatures_Ok)

lemma match_ordered_only_refl [simp]: "match_ordered_only b b"
  by (simp add: match_ordered_only_def)

lemma change_timestamp_matches:
  "change_timestamp b ts = Ok b' \<Longrightarrow> match_ordered_only b b' \<and> has_reconfiguration b'"
  by (auto simp: change_timestamp_def outcome_simps allow_timestamp_change_def
      match_ordered_only_def has_reconfiguration_def)

lemma add_signature_simps [simp]:
  "lis_ledger_info (add_signature a sig lis) = lis_ledger_info lis"
  "lis_signatures (add_signature a sig lis) = bt_or_insert a sig (lis_signatures lis)"
  by (simp_all add: add_signature_def)

lemma lis_new_simps [simp]:
  "lis_ledger_info (lis_new li sigs) = li" "lis_signatures (lis_new li sigs) = sigs"
  by (simp_all add: lis_new_def)

lemma waypoint_new_any_verifies [simp]: "waypoint_verify cr (waypoint_new_any cr li) li = Ok ()"
  by (simp add: waypoint_verify_def waypoint_new_any_def)

lemma waypoint_new_any_version [simp]: "wp_version (waypoint_new_any cr li) = li_version li"
  by (simp add: waypoint_new_any_def)

text \<open>The literal hash as a number, for the evaluation of concrete instances.\<close>

lemma accumulator_placeholder_hash_eq:
  "accumulator_placeholder_hash =
     29519178627997304637618519030581892818633183099092048000229796302419826573312"
proof -
  have "replicate 4 c = [c, c, c, c]" for c :: char by (simp add: eval_nat_numeral)
  then show ?thesis
    by (simp add: accumulator_placeholder_hash_def create_literal_hash_def of_char_def)
qed

end
