(* ===== verification/In_Memory_Accumulator.thy ===== *)
theory In_Memory_Accumulator
  imports Ledger_Info
begin

unbundle bit_operations_syntax

text \<open>
  \<open>src/types/src/proof/accumulator/mod.rs\<close>: the in-memory Merkle accumulator that keeps the roots
  of the full subtrees only.  The hash of an internal node is a parameter \<open>mh\<close> (the hasher type
  argument of the source).  The reference is the Merkle tree over the whole list of leaves, padded on
  the right with placeholders; the theorems show that the frozen subtree roots and the root hash that
  the code maintains are those of the reference tree.
\<close>

type_synonym leaf_count = u64
type_synonym node_hasher = "hash_value \<Rightarrow> hash_value \<Rightarrow> hash_value"

section \<open>Bit counting on machine words\<close>

definition count_ones :: "u64 \<Rightarrow> nat" where
  "count_ones w = length (filter (bit w) [0..<64])"

definition trailing_zeros :: "u64 \<Rightarrow> nat" where
  "trailing_zeros w = length (takeWhile (\<lambda>i. \<not> bit w i) [0..<64])"

definition leading_zeros :: "u64 \<Rightarrow> nat" where
  "leading_zeros w = length (takeWhile (\<lambda>i. \<not> bit w i) (rev [0..<64]))"

definition shr_panic :: "u64 \<Rightarrow> nat \<Rightarrow> ('e, u64) outcome" where
  "shr_panic w n = (if n < 64 then Ok (drop_bit n w) else Panic)"

definition shl_panic :: "u64 \<Rightarrow> nat \<Rightarrow> ('e, u64) outcome" where
  "shl_panic w n = (if n < 64 then Ok (push_bit n w) else Panic)"

section \<open>The accumulator\<close>

definition max_accumulator_proof_depth :: nat where
  "max_accumulator_proof_depth = 63"

definition max_accumulator_leaves :: leaf_count where
  "max_accumulator_leaves = push_bit 63 1"

record in_memory_accumulator =
  frozen_subtree_roots :: "hash_value list"
  num_leaves :: leaf_count
  root_hash :: hash_value

text \<open>The loop of \<open>compute_root_hash\<close>; the roots are consumed from the right.\<close>

function compute_root_hash_loop ::
    "node_hasher \<Rightarrow> u64 \<Rightarrow> hash_value list \<Rightarrow> hash_value \<Rightarrow> ('e, hash_value) outcome" where
  "compute_root_hash_loop mh bitmap rs current =
     (if bitmap > 0
      then if bitmap AND 1 \<noteq> 0
           then (case rs of
                   [] \<Rightarrow> Panic
                 | r # rs' \<Rightarrow> compute_root_hash_loop mh (drop_bit 1 bitmap) rs' (mh r current))
           else compute_root_hash_loop mh (drop_bit 1 bitmap) rs
                  (mh current accumulator_placeholder_hash)
      else Ok current)"
  by pat_completeness auto
termination
  by (relation "measure (\<lambda>(_, b, _, _). unat b)")
    (auto simp: unat_halve_less simp del: drop_bit_Suc)

declare compute_root_hash_loop.simps [simp del]

definition compute_root_hash ::
    "node_hasher \<Rightarrow> hash_value list \<Rightarrow> leaf_count \<Rightarrow> ('e, hash_value) outcome" where
  "compute_root_hash mh roots n =
     (case roots of
        [] \<Rightarrow> Ok accumulator_placeholder_hash
      | [r] \<Rightarrow> Ok r
      | _ \<Rightarrow>
          and_then (shr_panic n (trailing_zeros n)) (\<lambda>bitmap.
          compute_root_hash_loop mh bitmap (rev roots) accumulator_placeholder_hash))"

definition accumulator_new ::
    "node_hasher \<Rightarrow> hash_value list \<Rightarrow> leaf_count \<Rightarrow> (anyhow_error, in_memory_accumulator) outcome" where
  "accumulator_new mh roots n =
     and_then (ensure (length roots = count_ones n)
       (Msg ''The number of frozen subtrees does not match the number of leaves.'')) (\<lambda>_.
     and_then (compute_root_hash mh roots n) (\<lambda>h.
     Ok \<lparr>frozen_subtree_roots = roots, num_leaves = n, root_hash = h\<rparr>))"

definition accumulator_new_empty :: in_memory_accumulator where
  "accumulator_new_empty =
     \<lparr>frozen_subtree_roots = [], num_leaves = 0, root_hash = accumulator_placeholder_hash\<rparr>"

text \<open>\<open>expect\<close> on a \<open>Result\<close>: an error becomes a panic.\<close>

definition expect_result :: "('e, 'a) outcome \<Rightarrow> ('f, 'a) outcome" where
  "expect_result m = (case m of Ok a \<Rightarrow> Ok a | _ \<Rightarrow> Panic)"

definition accumulator_default :: "node_hasher \<Rightarrow> ('e, in_memory_accumulator) outcome" where
  "accumulator_default mh = expect_result (accumulator_new mh [] 0)"

definition vec_pop :: "'a list \<Rightarrow> ('e, 'a \<times> 'a list) outcome" where
  "vec_pop xs = (if xs = [] then Panic else Ok (last xs, butlast xs))"

primrec merge_last_two ::
    "node_hasher \<Rightarrow> nat \<Rightarrow> hash_value list \<Rightarrow> ('e, hash_value list) outcome" where
  "merge_last_two mh 0 roots = Ok roots"
| "merge_last_two mh (Suc i) roots =
     and_then (vec_pop roots) (\<lambda>(right_hash, roots).
     and_then (vec_pop roots) (\<lambda>(left_hash, roots).
     merge_last_two mh i (roots @ [mh left_hash right_hash])))"

definition append_one ::
    "node_hasher \<Rightarrow> hash_value list \<Rightarrow> leaf_count \<Rightarrow> hash_value \<Rightarrow> ('e, hash_value list) outcome" where
  "append_one mh roots num_existing_leaves leaf =
     merge_last_two mh (trailing_zeros (NOT num_existing_leaves)) (roots @ [leaf])"

primrec append_leaves ::
    "node_hasher \<Rightarrow> hash_value list \<Rightarrow> hash_value list \<Rightarrow> leaf_count \<Rightarrow>
     ('e, hash_value list \<times> leaf_count) outcome" where
  "append_leaves mh [] roots n = Ok (roots, n)"
| "append_leaves mh (leaf # leaves) roots n =
     and_then (append_one mh roots n leaf) (\<lambda>roots.
     and_then (add_panic n 1) (\<lambda>n.
     append_leaves mh leaves roots n))"

definition accumulator_append ::
    "node_hasher \<Rightarrow> in_memory_accumulator \<Rightarrow> hash_value list \<Rightarrow> ('e, in_memory_accumulator) outcome" where
  "accumulator_append mh acc leaves =
     and_then (append_leaves mh leaves (frozen_subtree_roots acc) (num_leaves acc)) (\<lambda>(roots, n).
     expect_result (accumulator_new mh roots n))"

definition from_leaves :: "node_hasher \<Rightarrow> hash_value list \<Rightarrow> ('e, in_memory_accumulator) outcome" where
  "from_leaves mh leaves =
     and_then (accumulator_default mh) (\<lambda>acc. accumulator_append mh acc leaves)"

text \<open>The inner loop of \<open>append_subtrees\<close>: carry the new subtree into the frozen ones.\<close>

function carry_subtree ::
    "node_hasher \<Rightarrow> leaf_count \<Rightarrow> u64 \<Rightarrow> hash_value list \<Rightarrow> hash_value \<Rightarrow>
     ('e, u64 \<times> hash_value list \<times> hash_value) outcome" where
  "carry_subtree mh n msk roots current_hash =
     (if n AND msk \<noteq> 0
      then if roots = [] then Panic
           else carry_subtree mh n (push_bit 1 msk) (butlast roots) (mh (last roots) current_hash)
      else Ok (msk, roots, current_hash))"
  by pat_completeness auto
termination
  by (relation "measure (\<lambda>(_, _, _, roots, _). length roots)") auto

declare carry_subtree.simps [simp del]

primrec append_subtrees_loop ::
    "node_hasher \<Rightarrow> hash_value list \<Rightarrow> hash_value list \<Rightarrow> leaf_count \<Rightarrow> leaf_count \<Rightarrow> u64 \<Rightarrow>
     (anyhow_error, hash_value list \<times> leaf_count) outcome" where
  "append_subtrees_loop mh [] roots n remaining subtree_size =
     (if remaining \<ge> subtree_size then Err (Msg ''Too few subtrees.'')
      else and_then (add_panic n remaining) (\<lambda>n. Ok (roots, n)))"
| "append_subtrees_loop mh (h # subtrees) roots n remaining subtree_size =
     (if remaining \<ge> subtree_size
      then and_then (carry_subtree mh n subtree_size roots h) (\<lambda>(msk, roots, current_hash).
           and_then (add_panic n subtree_size) (\<lambda>n.
           and_then (sub_panic remaining subtree_size) (\<lambda>remaining.
           append_subtrees_loop mh subtrees (roots @ [current_hash]) n remaining msk)))
      else and_then (add_panic n remaining) (\<lambda>n. Ok (roots @ h # subtrees, n)))"

definition append_subtrees ::
    "node_hasher \<Rightarrow> in_memory_accumulator \<Rightarrow> hash_value list \<Rightarrow> leaf_count \<Rightarrow>
     (anyhow_error, in_memory_accumulator) outcome" where
  "append_subtrees mh acc subtrees num_new_leaves =
     and_then (sub_panic max_accumulator_leaves (num_leaves acc)) (\<lambda>room.
     and_then (ensure (num_new_leaves \<le> room) (Msg ''Too many new leaves.'')) (\<lambda>_.
     if num_leaves acc = 0 then accumulator_new mh subtrees num_new_leaves
     else
       and_then (shl_panic 1 (trailing_zeros (num_leaves acc))) (\<lambda>rightmost_frozen_subtree_size.
       and_then (append_subtrees_loop mh subtrees (frozen_subtree_roots acc) (num_leaves acc)
                   num_new_leaves rightmost_frozen_subtree_size) (\<lambda>(roots, n).
       accumulator_new mh roots n))))"

definition accumulator_version :: "in_memory_accumulator \<Rightarrow> u64" where
  "accumulator_version acc = (if num_leaves acc = 0 then 0 else num_leaves acc - 1)"

definition accumulator_is_empty :: "in_memory_accumulator \<Rightarrow> bool" where
  "accumulator_is_empty acc = (num_leaves acc = 0)"

section \<open>The reference tree\<close>

text \<open>
  The Merkle tree of height \<open>k\<close> over a list of at most \<open>2 ^ k\<close> leaves: a subtree without leaves is a
  placeholder.  The tree over a list of leaves has the least height that fits them.
\<close>

fun merkle :: "node_hasher \<Rightarrow> nat \<Rightarrow> hash_value list \<Rightarrow> hash_value" where
  "merkle mh k [] = accumulator_placeholder_hash"
| "merkle mh 0 (x # xs) = x"
| "merkle mh (Suc k) (x # xs) =
     mh (merkle mh k (take (2 ^ k) (x # xs))) (merkle mh k (drop (2 ^ k) (x # xs)))"

fun tree_height :: "nat \<Rightarrow> nat" where
  "tree_height n = (if n \<le> 1 then 0 else Suc (tree_height ((n + 1) div 2)))"

declare tree_height.simps [simp del]

definition merkle_root :: "node_hasher \<Rightarrow> hash_value list \<Rightarrow> hash_value" where
  "merkle_root mh leaves = merkle mh (tree_height (length leaves)) leaves"

text \<open>
  The roots of the maximal full subtrees, smallest first, of a list of \<open>n\<close> blocks of \<open>2 ^ k\<close> leaves.
\<close>

fun full_subtrees :: "node_hasher \<Rightarrow> nat \<Rightarrow> nat \<Rightarrow> hash_value list \<Rightarrow> hash_value list" where
  "full_subtrees mh k n leaves =
     (if n = 0 then []
      else if odd n
           then merkle mh k (drop ((n - 1) * 2 ^ k) leaves) #
                full_subtrees mh (Suc k) (n div 2) (take ((n - 1) * 2 ^ k) leaves)
           else full_subtrees mh (Suc k) (n div 2) leaves)"

declare full_subtrees.simps [simp del]

fun bit_length :: "nat \<Rightarrow> nat" where
  "bit_length n = (if n = 0 then 0 else Suc (bit_length (n div 2)))"

declare bit_length.simps [simp del]

definition accumulator_of :: "node_hasher \<Rightarrow> hash_value list \<Rightarrow> in_memory_accumulator" where
  "accumulator_of mh leaves =
     \<lparr>frozen_subtree_roots = rev (full_subtrees mh 0 (length leaves) leaves),
      num_leaves = of_nat (length leaves), root_hash = merkle_root mh leaves\<rparr>"

text \<open>
  The subtrees that extend a tree of \<open>n\<close> leaves by a list of new leaves: as many leaves as the
  rightmost full subtree has while that many are left, then the largest full subtrees that fit.
\<close>

fun factor_two :: "nat \<Rightarrow> nat" where
  "factor_two n = (if n = 0 \<or> odd n then 0 else Suc (factor_two (n div 2)))"

declare factor_two.simps [simp del]

definition next_subtree_level :: "nat \<Rightarrow> nat \<Rightarrow> nat" where
  "next_subtree_level n m =
     (if 0 < n \<and> 2 ^ factor_two n \<le> m then factor_two n else bit_length m - 1)"

function sibling_subtrees :: "node_hasher \<Rightarrow> nat \<Rightarrow> hash_value list \<Rightarrow> hash_value list" where
  "sibling_subtrees mh n news =
     (if news = [] then []
      else let k = next_subtree_level n (length news) in
           merkle mh k (take (2 ^ k) news) # sibling_subtrees mh (n + 2 ^ k) (drop (2 ^ k) news))"
  by pat_completeness auto
termination
  by (relation "measure (\<lambda>(_, _, news). length news)") auto

declare sibling_subtrees.simps [simp del]

fun carry :: "node_hasher \<Rightarrow> nat \<Rightarrow> hash_value list \<Rightarrow> hash_value \<Rightarrow> hash_value list" where
  "carry mh n [] h = [h]"
| "carry mh n (r # rs) h = (if odd n then carry mh (n div 2) rs (mh r h) else h # r # rs)"

section \<open>Counting bits\<close>

lemma length_takeWhile_upt:
  assumes "t = length (takeWhile P [0..<n])"
  shows "(\<forall>i<t. P i) \<and> t \<le> n \<and> (t < n \<longrightarrow> \<not> P t)"
proof -
  have "t \<le> n"
    using length_takeWhile_le [of P "[0..<n]"] assms by simp
  moreover have "P i" if "i < t" for i
    using set_takeWhileD [of i P "[0..<n]"] nth_mem [of i "takeWhile P [0..<n]"] that assms
      takeWhile_nth [of i P "[0..<n]"] \<open>t \<le> n\<close> by (simp add: nth_mem)
  moreover have "t < n \<longrightarrow> \<not> P t"
    using nth_length_takeWhile [of P "[0..<n]"] assms by simp
  ultimately show ?thesis by blast
qed

lemma trailing_zeros_props:
  assumes "w \<noteq> 0"
  shows "trailing_zeros w < 64 \<and> (\<forall>i < trailing_zeros w. \<not> bit w i) \<and> bit w (trailing_zeros w)"
proof -
  have *: "(\<forall>i < trailing_zeros w. \<not> bit w i) \<and> trailing_zeros w \<le> 64 \<and>
      (trailing_zeros w < 64 \<longrightarrow> bit w (trailing_zeros w))"
    using length_takeWhile_upt [of "trailing_zeros w" "\<lambda>i. \<not> bit w i" 64]
    by (simp add: trailing_zeros_def)
  have "trailing_zeros w \<noteq> 64"
  proof
    assume "trailing_zeros w = 64"
    then have "\<not> bit w i" if "i < 64" for i using * that by simp
    then have "w = 0" by (intro bit_word_eqI) simp
    with assms show False by simp
  qed
  with * show ?thesis by simp
qed

lemma filter_bit_upt_shift:
  "length (filter (bit (n :: nat)) [0..<Suc k]) =
     n mod 2 + length (filter (bit (n div 2)) [0..<k])"
proof -
  have "[0..<Suc k] = 0 # map Suc [0..<k]" by (simp add: map_Suc_upt upt_conv_Cons)
  then show ?thesis
    by (simp add: filter_map o_def bit_Suc bit_0 mod_2_eq_odd)
qed

lemma full_subtrees_0 [simp]: "full_subtrees mh k 0 ls = []"
  by (simp add: full_subtrees.simps)

lemma length_full_subtrees:
  "n < 2 ^ m \<Longrightarrow> length (full_subtrees mh k n leaves) = length (filter (bit n) [0..<m])"
proof (induction m arbitrary: k n leaves)
  case 0
  then show ?case by (simp add: full_subtrees.simps)
next
  case (Suc m)
  from Suc.prems have "n div 2 < 2 ^ m" by simp
  note IH = Suc.IH [OF this]
  show ?case
    by (subst full_subtrees.simps, simp only: filter_bit_upt_shift)
      (auto simp: IH mod_2_eq_odd)
qed

lemma count_ones_unat:
  "length (full_subtrees mh k (unat n) leaves) = count_ones n"
proof -
  have "unat n < 2 ^ 64" using unsigned_less [of n] by simp
  from length_full_subtrees [OF this] show ?thesis
    by (simp add: count_ones_def bit_unsigned_iff cong: filter_cong)
qed

lemma bit_length_bounds: "0 < n \<Longrightarrow> 2 ^ (bit_length n - 1) \<le> n \<and> n < 2 ^ bit_length n"
proof (induction n rule: bit_length.induct)
  case (1 n)
  show ?case
  proof (cases "n div 2 = 0")
    case True
    with 1 have "n = 1" by simp
    then show ?thesis by (simp add: bit_length.simps)
  next
    case False
    with 1 have *: "2 ^ (bit_length (n div 2) - 1) \<le> n div 2" "n div 2 < 2 ^ bit_length (n div 2)"
      by auto
    from False have "bit_length (n div 2) = Suc (bit_length (n div 2) - 1)"
      by (subst (1 2) bit_length.simps) simp
    with * have "2 ^ bit_length (n div 2) \<le> 2 * (n div 2)" by (metis mult_le_mono2 power_Suc)
    moreover have "bit_length n = Suc (bit_length (n div 2))"
      using 1 by (subst bit_length.simps) simp
    ultimately show ?thesis using *(2) by simp linarith
  qed
qed

lemma bit_length_shift: "0 < m \<Longrightarrow> bit_length (m * 2 ^ t) = t + bit_length m"
proof (induction t)
  case (Suc t)
  have "bit_length (m * 2 ^ Suc t) = Suc (bit_length (m * 2 ^ Suc t div 2))"
    using Suc.prems by (subst bit_length.simps) simp
  with Suc show ?case by (simp add: mult.left_commute)
qed simp

lemma tree_height_props: "n \<le> 2 ^ tree_height n \<and> (tree_height n = 0 \<or> 2 ^ (tree_height n - 1) < n)"
proof (induction n rule: tree_height.induct)
  case (1 n)
  show ?case
  proof (cases "n \<le> 1")
    case True
    then show ?thesis by (simp add: tree_height.simps)
  next
    case False
    let ?h = "tree_height ((n + 1) div 2)"
    have h: "tree_height n = Suc ?h" using False by (subst tree_height.simps) simp
    from 1 [OF False] have "(n + 1) div 2 \<le> 2 ^ ?h" by blast
    then have "n \<le> 2 * 2 ^ ?h" by linarith
    moreover have "2 ^ ?h < n"
    proof (cases "?h = 0")
      case True
      with False show ?thesis by simp
    next
      case nz: False
      with 1 [OF False] have "2 ^ (?h - 1) < (n + 1) div 2" by simp
      then have "2 * 2 ^ (?h - 1) < n" by linarith
      with nz show ?thesis by (metis power_eq_if)
    qed
    ultimately show ?thesis by (simp add: h)
  qed
qed

lemma tree_height_eqI:
  assumes "n \<le> 2 ^ k" "k = 0 \<or> 2 ^ (k - 1) < n"
  shows "tree_height n = k"
proof -
  let ?h = "tree_height n"
  note p = tree_height_props [of n]
  have "?h \<le> k"
  proof (rule ccontr)
    assume "\<not> ?h \<le> k"
    then have "(2 :: nat) ^ k \<le> 2 ^ (?h - 1)" by (intro power_increasing) auto
    moreover from p \<open>\<not> ?h \<le> k\<close> have "2 ^ (?h - 1) < n" by auto
    ultimately show False using assms by linarith
  qed
  moreover have "k \<le> ?h"
  proof (rule ccontr)
    assume "\<not> k \<le> ?h"
    then have "(2 :: nat) ^ ?h \<le> 2 ^ (k - 1)" by (intro power_increasing) auto
    with p assms \<open>\<not> k \<le> ?h\<close> show False by linarith
  qed
  ultimately show ?thesis by simp
qed

section \<open>Appending a leaf carries through the full subtrees\<close>

lemma merkle_Suc_nonempty:
  "xs \<noteq> [] \<Longrightarrow>
   merkle mh (Suc k) xs = mh (merkle mh k (take (2 ^ k) xs)) (merkle mh k (drop (2 ^ k) xs))"
  by (cases xs) simp_all

lemma merkle_Suc_append:
  assumes "length xs = 2 ^ k" "length ys \<le> 2 ^ k"
  shows "merkle mh (Suc k) (xs @ ys) = mh (merkle mh k xs) (merkle mh k ys)"
proof -
  from assms have "xs @ ys \<noteq> []" by auto
  from merkle_Suc_nonempty [OF this] assms show ?thesis by simp
qed

lemma merkle_Suc_left:
  assumes "xs \<noteq> []" "length xs \<le> 2 ^ k"
  shows "merkle mh (Suc k) xs = mh (merkle mh k xs) accumulator_placeholder_hash"
  using assms by (simp add: merkle_Suc_nonempty)

lemma full_subtrees_append:
  "length ls = n * 2 ^ k \<Longrightarrow> length new = 2 ^ k \<Longrightarrow>
   full_subtrees mh k (Suc n) (ls @ new) = carry mh n (full_subtrees mh k n ls) (merkle mh k new)"
proof (induction n arbitrary: k ls new rule: less_induct)
  case (less n)
  show ?case
  proof (cases "odd n")
    case True
    let ?i = "(n - 1) * 2 ^ k"
    have n: "n = Suc (n - 1)" and half: "Suc n div 2 = Suc (n div 2)" "n div 2 < n"
      using True by (auto elim: oddE)
    have lt: "length (take ?i ls) = (n div 2) * 2 ^ Suc k" and ld: "length (drop ?i ls) = 2 ^ k"
      using less.prems True by (auto elim!: oddE simp: algebra_simps)
    have "full_subtrees mh k (Suc n) (ls @ new) =
        full_subtrees mh (Suc k) (Suc (n div 2)) (take ?i ls @ (drop ?i ls @ new))"
      using True half by (subst full_subtrees.simps) (simp flip: append_assoc)
    also have "\<dots> = carry mh (n div 2) (full_subtrees mh (Suc k) (n div 2) (take ?i ls))
        (merkle mh (Suc k) (drop ?i ls @ new))"
      using less.IH [OF half(2) lt, of "drop ?i ls @ new"] ld less.prems by simp
    also have "merkle mh (Suc k) (drop ?i ls @ new) = mh (merkle mh k (drop ?i ls)) (merkle mh k new)"
      using ld less.prems by (intro merkle_Suc_append) simp_all
    finally show ?thesis
      using True by (subst (2) full_subtrees.simps) auto
  next
    case False
    then have "Suc n div 2 = n div 2" by (auto elim!: evenE)
    then have "full_subtrees mh k (Suc n) (ls @ new) =
        merkle mh k new # full_subtrees mh (Suc k) (n div 2) ls"
      using False less.prems by (subst full_subtrees.simps) simp
    also have "full_subtrees mh (Suc k) (n div 2) ls = full_subtrees mh k n ls"
      using False by (subst (2) full_subtrees.simps) (simp add: full_subtrees.simps)
    finally show ?thesis
      using False by (cases "full_subtrees mh k n ls") simp_all
  qed
qed

lemma merge_last_two_carry:
  "\<forall>i<t. bit n i \<Longrightarrow> \<not> bit n t \<Longrightarrow> t \<le> length rs \<Longrightarrow>
   merge_last_two mh t (rev rs @ [h]) = Ok (rev (carry mh n rs h))"
proof (induction t arbitrary: n rs h)
  case 0
  then show ?case by (cases rs) (auto simp: bit_0)
next
  case (Suc t)
  then obtain r rs' where rs: "rs = r # rs'" by (cases rs) auto
  have "\<forall>i<t. bit (n div 2) i" "\<not> bit (n div 2) t" "t \<le> length rs'"
    using Suc.prems rs by (auto simp: bit_Suc [symmetric])
  from Suc.IH [OF this, of "mh r h"] Suc.prems rs show ?case
    by (auto simp: vec_pop_def bit_0 butlast_append)
qed

lemma trailing_ones_props:
  assumes "unat n < 2 ^ 64 - 1"
  shows "(\<forall>i < trailing_zeros (NOT n). bit (unat n) i) \<and> \<not> bit (unat n) (trailing_zeros (NOT n))"
proof -
  have "NOT n \<noteq> 0"
  proof
    assume "NOT n = 0"
    then have "n = NOT 0" by (metis bit.double_compl)
    then have "unat n = 2 ^ 64 - 1"
      by (simp add: unsigned_minus_1_eq_mask mask_eq_exp_minus_1)
    with assms show False by simp
  qed
  from trailing_zeros_props [OF this] show ?thesis
    by (auto simp: bit_unsigned_iff bit_not_iff)
qed

lemma trailing_ones_le:
  "\<forall>i<t. bit n i \<Longrightarrow> t \<le> length (full_subtrees mh k n ls)"
proof (induction t arbitrary: n k ls)
  case (Suc t)
  then have "odd n" "\<forall>i<t. bit (n div 2) i" by (auto simp: bit_Suc bit_0)
  with Suc.IH [of "n div 2"] show ?case
    by (subst full_subtrees.simps) (auto intro: Nat.gr0I)
qed simp

lemma append_one_reference:
  assumes "length ls = unat n" "unat n < 2 ^ 64 - 1"
  shows "append_one mh (rev (full_subtrees mh 0 (unat n) ls)) n leaf =
           Ok (rev (full_subtrees mh 0 (Suc (unat n)) (ls @ [leaf])))"
proof -
  note t = trailing_ones_props [OF assms(2)]
  have "append_one mh (rev (full_subtrees mh 0 (unat n) ls)) n leaf =
      Ok (rev (carry mh (unat n) (full_subtrees mh 0 (unat n) ls) leaf))"
    unfolding append_one_def using t trailing_ones_le [of _ "unat n"]
    by (intro merge_last_two_carry) auto
  with full_subtrees_append [of ls "unat n" 0 "[leaf]" mh] assms(1) show ?thesis by simp
qed

lemma add_panic_one:
  assumes "unat n < 2 ^ 64 - 1"
  shows "add_panic n (1 :: u64) = Ok (n + 1)" and "unat (n + 1) = Suc (unat n)"
proof -
  from assms have u: "unat (n + 1) = Suc (unat n)"
    by (subst unat_plus_if') simp
  then show "unat (n + 1) = Suc (unat n)" .
  from u show "add_panic n 1 = Ok (n + 1)"
    by (simp add: add_panic_eq_Ok checked_add_one)
qed

lemma append_leaves_reference:
  "length ls = unat n \<Longrightarrow> unat n + length leaves < 2 ^ 64 \<Longrightarrow>
   append_leaves mh leaves (rev (full_subtrees mh 0 (unat n) ls)) n =
     Ok (rev (full_subtrees mh 0 (unat n + length leaves) (ls @ leaves)), n + of_nat (length leaves))"
proof (induction leaves arbitrary: n ls)
  case (Cons leaf leaves)
  then have n: "unat n < 2 ^ 64 - 1" by simp
  note a = add_panic_one [OF this]
  from Cons.IH [of "ls @ [leaf]" "n + 1"] Cons.prems a(2) show ?case
    by (simp add: append_one_reference [OF Cons.prems(1) n] a(1) add.assoc)
qed simp

section \<open>The root hash is the root of the reference tree\<close>

lemma full_subtrees_shift:
  "full_subtrees mh k (m * 2 ^ t) ls = full_subtrees mh (k + t) m ls"
proof (induction t arbitrary: k)
  case (Suc t)
  show ?case
  proof (cases "m = 0")
    case False
    then have "full_subtrees mh k (m * 2 ^ Suc t) ls = full_subtrees mh (Suc k) (m * 2 ^ t) ls"
      by (subst full_subtrees.simps) simp
    with Suc show ?thesis by simp
  qed (simp add: full_subtrees.simps)
qed simp

lemma compute_root_hash_loop_reference:
  "length ls = unat b * 2 ^ k \<Longrightarrow> length suffix \<le> 2 ^ k \<Longrightarrow> suffix \<noteq> [] \<or> odd (unat b) \<Longrightarrow>
   (compute_root_hash_loop mh b (full_subtrees mh k (unat b) ls) (merkle mh k suffix)
      :: ('e, hash_value) outcome) =
     Ok (merkle mh (k + bit_length (unat b)) (ls @ suffix))"
proof (induction "unat b" arbitrary: b k ls suffix rule: less_induct)
  case less
  show ?case
  proof (cases "b = 0")
    case True
    with less.prems show ?thesis
      by (simp add: compute_root_hash_loop.simps bit_length.simps)
  next
    case False
    let ?b = "drop_bit 1 b" and ?n = "unat b"
    have b: "unat ?b = ?n div 2" and lt: "unat ?b < ?n" and pos: "0 < ?n"
      using False by (simp_all add: unat_halve unat_halve_less unat_gt_0 del: drop_bit_Suc)
    have len: "bit_length ?n = Suc (bit_length (?n div 2))"
      using pos by (subst bit_length.simps) simp
    have parity: "b AND 1 = 0 \<longleftrightarrow> even ?n"
    proof -
      have "bit ?n 0 = bit b 0" by (simp only: bit_unsigned_iff) simp
      then show ?thesis by (simp add: and_one_eq mod_2_eq_odd bit_0)
    qed
    have IH: "(compute_root_hash_loop mh ?b (full_subtrees mh (Suc k) (?n div 2) ls')
          (merkle mh (Suc k) sf) :: ('e, hash_value) outcome) =
        Ok (merkle mh (k + bit_length ?n) (ls' @ sf))"
      if "length ls' = ?n div 2 * 2 ^ Suc k" "length sf \<le> 2 ^ Suc k" "sf \<noteq> []" for ls' sf
      using less.hyps [OF lt, of ls' "Suc k" sf] that b by (simp add: len)
    show ?thesis
    proof (cases "odd ?n")
      case True
      let ?i = "(?n - 1) * 2 ^ k"
      have lt: "length (take ?i ls) = ?n div 2 * 2 ^ Suc k" and ld: "length (drop ?i ls) = 2 ^ k"
        using less.prems True by (auto elim!: oddE simp: algebra_simps)
      have "full_subtrees mh k ?n ls = merkle mh k (drop ?i ls) # full_subtrees mh (Suc k) (?n div 2) (take ?i ls)"
        using True pos by (subst full_subtrees.simps) simp
      moreover have "mh (merkle mh k (drop ?i ls)) (merkle mh k suffix) =
          merkle mh (Suc k) (drop ?i ls @ suffix)"
        using ld less.prems by (simp add: merkle_Suc_append)
      moreover have "length (drop ?i ls @ suffix) \<le> 2 ^ Suc k"
        unfolding length_append ld using less.prems by simp
      moreover have "drop ?i ls \<noteq> []"
        using ld by (metis list.size(3) power_not_zero zero_neq_numeral)
      ultimately show ?thesis
        using IH [OF lt, of "drop ?i ls @ suffix"] False True parity
        by (subst compute_root_hash_loop.simps)
          (simp add: word_gt_0 flip: append_assoc del: drop_bit_Suc length_append length_drop)
    next
      case even: False
      then have "full_subtrees mh k ?n ls = full_subtrees mh (Suc k) (?n div 2) ls"
        using pos by (subst full_subtrees.simps) simp
      moreover have "length ls = ?n div 2 * 2 ^ Suc k"
        using less.prems even by (auto elim!: evenE)
      moreover have "suffix \<noteq> []" using less.prems even by simp
      ultimately show ?thesis
        using IH [of ls suffix] less.prems False even parity merkle_Suc_left [of suffix k mh]
        by (subst compute_root_hash_loop.simps)
          (auto simp: word_gt_0 simp del: drop_bit_Suc)
    qed
  qed
qed

lemma full_subtrees_Nil_iff: "full_subtrees mh k n ls = [] \<longleftrightarrow> n = 0"
proof (induction n arbitrary: k ls rule: less_induct)
  case (less n)
  show ?case
  proof (cases "n = 0")
    case False
    then have "n div 2 < n" "even n \<Longrightarrow> n div 2 \<noteq> 0" by auto
    with less.IH [of "n div 2" "Suc k" ls] False show ?thesis
      by (subst full_subtrees.simps) simp
  qed simp
qed

lemma split_trailing_zeros:
  assumes "n \<noteq> 0"
  obtains m where "unat n = m * 2 ^ trailing_zeros n" "odd m"
    "unat (drop_bit (trailing_zeros n) n) = m"
proof
  let ?t = "trailing_zeros n" and ?m = "unat (drop_bit (trailing_zeros n) n)"
  note t = trailing_zeros_props [OF assms]
  have "take_bit ?t (unat n) = 0"
    using t by (intro bit_eqI) (auto simp: bit_take_bit_iff bit_unsigned_iff)
  then show "unat n = ?m * 2 ^ ?t"
    using bits_ident [of ?t "unat n"] by (simp add: unat_drop_bit_eq push_bit_eq_mult)
  have "bit ?m 0"
    using t by (simp add: unat_drop_bit_eq bit_drop_bit_eq bit_unsigned_iff del: bit_0)
  then show "odd ?m" by (simp add: bit_0)
qed simp

lemma odd_times_power_of_two:
  assumes "(m :: nat) * 2 ^ t = 2 ^ j" "odd m"
  shows "m = 1"
proof -
  have "m dvd 2 ^ j" using assms(1) by (metis dvd_triv_left)
  moreover have "coprime m (2 ^ j)" using assms(2) by simp
  ultimately show ?thesis using coprime_common_divisor_nat by fastforce
qed

lemma compute_root_hash_many:
  "1 < length roots \<Longrightarrow>
   compute_root_hash mh roots n =
     and_then (shr_panic n (trailing_zeros n)) (\<lambda>bitmap.
     compute_root_hash_loop mh bitmap (rev roots) accumulator_placeholder_hash)"
  by (auto simp: compute_root_hash_def split: list.splits)

lemma compute_root_hash_reference:
  assumes ls: "length ls = unat n"
  shows "compute_root_hash mh (rev (full_subtrees mh 0 (unat n) ls)) n = Ok (merkle_root mh ls)"
proof (cases "n = 0")
  case True
  with ls show ?thesis by (simp add: compute_root_hash_def full_subtrees.simps merkle_root_def)
next
  case False
  let ?t = "trailing_zeros n"
  obtain m where n: "unat n = m * 2 ^ ?t" and m: "odd m" and b: "unat (drop_bit ?t n) = m"
    using split_trailing_zeros [OF False] .
  have fs: "full_subtrees mh 0 (unat n) ls = full_subtrees mh ?t m ls"
    using full_subtrees_shift [of mh 0 m ?t ls] n by simp
  have step: "full_subtrees mh ?t m ls =
      merkle mh ?t (drop ((m - 1) * 2 ^ ?t) ls) #
      full_subtrees mh (Suc ?t) (m div 2) (take ((m - 1) * 2 ^ ?t) ls)"
    using m by (subst full_subtrees.simps) (auto intro: Nat.gr0I)
  show ?thesis
  proof (cases "m = 1")
    case True
    then have "full_subtrees mh 0 (unat n) ls = [merkle mh ?t ls]"
      using fs step by (simp add: full_subtrees.simps)
    moreover have "tree_height (length ls) = ?t"
      using ls n True by (intro tree_height_eqI) auto
    ultimately show ?thesis by (simp add: compute_root_hash_def merkle_root_def)
  next
    case False
    then have "m div 2 \<noteq> 0" using m by (auto elim!: oddE)
    then have two: "1 < length (rev (full_subtrees mh 0 (unat n) ls))"
      using fs step full_subtrees_Nil_iff [of mh "Suc ?t" "m div 2"] by simp
    have pos: "0 < unat n" "0 < m" using m n by (auto intro: Nat.gr0I)
    have "tree_height (unat n) = bit_length (unat n)"
    proof (rule tree_height_eqI)
      have "unat n \<noteq> 2 ^ (bit_length (unat n) - 1)"
        using odd_times_power_of_two [of m ?t] n m False by metis
      then show "bit_length (unat n) = 0 \<or> 2 ^ (bit_length (unat n) - 1) < unat n"
        using bit_length_bounds [OF pos(1)] by linarith
    qed (use bit_length_bounds [OF pos(1)] in linarith)
    then have "merkle_root mh ls = merkle mh (?t + bit_length m) (ls @ [])"
      using ls n bit_length_shift [OF pos(2), of ?t] by (simp add: merkle_root_def)
    moreover have loop: "compute_root_hash_loop mh (drop_bit ?t n) (full_subtrees mh ?t m ls)
        accumulator_placeholder_hash = Ok (merkle mh (?t + bit_length m) (ls @ []))"
      using compute_root_hash_loop_reference [of ls "drop_bit ?t n" ?t "[]" mh] ls n b m by simp
    ultimately show ?thesis
      unfolding compute_root_hash_many [OF two] using trailing_zeros_props [OF \<open>n \<noteq> 0\<close>]
      by (simp add: shr_panic_def fs loop)
  qed
qed

section \<open>Construction and extension of accumulators\<close>

lemma accumulator_new_reference:
  assumes "length ls = unat n"
  shows "accumulator_new mh (rev (full_subtrees mh 0 (unat n) ls)) n = Ok (accumulator_of mh ls)"
  using assms count_ones_unat [of mh 0 n ls]
  by (simp add: accumulator_new_def accumulator_of_def compute_root_hash_reference [OF assms])

lemma accumulator_of_sel [simp]:
  "frozen_subtree_roots (accumulator_of mh ls) = rev (full_subtrees mh 0 (length ls) ls)"
  "num_leaves (accumulator_of mh ls) = of_nat (length ls)"
  "root_hash (accumulator_of mh ls) = merkle_root mh ls"
  by (simp_all add: accumulator_of_def)

lemma unat_length: "length ls < 2 ^ 64 \<Longrightarrow> unat (of_nat (length ls) :: u64) = length ls"
  by (simp add: unat_of_nat)

lemma accumulator_append_reference:
  assumes "length ls + length new < 2 ^ 64"
  shows "accumulator_append mh (accumulator_of mh ls) new = Ok (accumulator_of mh (ls @ new))"
proof -
  let ?n = "of_nat (length ls) :: u64" and ?m = "of_nat (length (ls @ new)) :: u64"
  have u: "unat ?n = length ls" "unat ?m = length (ls @ new)"
    using assms unat_length [of ls] unat_length [of "ls @ new"] by simp_all
  have *: "append_leaves mh new (rev (full_subtrees mh 0 (length ls) ls)) ?n =
      Ok (rev (full_subtrees mh 0 (unat ?m) (ls @ new)), ?m)"
    using append_leaves_reference [of ls ?n new mh] u assms by simp
  show ?thesis
    by (simp only: accumulator_append_def accumulator_of_sel * and_then.simps prod.case
        expect_result_def accumulator_new_reference [OF u(2) [symmetric]] outcome.case)
qed

lemma accumulator_default_reference: "accumulator_default mh = Ok (accumulator_of mh [])"
  using accumulator_new_reference [of "[]" 0 mh] by (simp add: accumulator_default_def expect_result_def)

lemma odd_unat_div_iff: "odd (unat n div 2 ^ j) \<longleftrightarrow> bit n j"
proof -
  have "bit (unat n) j \<longleftrightarrow> bit n j"
    by (auto simp only: bit_unsigned_iff dest: bit_imp_possible_bit) (auto dest: bit_imp_le_length)
  then show ?thesis by (simp add: bit_iff_odd)
qed

lemma carry_subtree_carry:
  "\<forall>i<t. bit n (j + i) \<Longrightarrow> \<not> bit n (j + t) \<Longrightarrow> t \<le> length rs \<Longrightarrow> 
   \<exists>rs' h'. carry_subtree mh n (push_bit j 1) (rev rs) h = Ok (push_bit (j + t) 1, rev rs', h') \<and>
     carry mh (unat n div 2 ^ j) rs h = h' # rs'"
proof (induction t arbitrary: j rs h)
  case 0
  then have "even (unat n div 2 ^ j)"
    using odd_unat_div_iff [of n j] by simp
  moreover have "n AND push_bit j 1 = 0"
    using 0 by (simp add: bit_iff_and_push_bit_not_eq_0)
  ultimately show ?case
    by (subst carry_subtree.simps) (cases rs; simp)
next
  case (Suc t)
  then obtain r rs' where rs: "rs = r # rs'" by (cases rs) auto
  have bj: "bit n j" using Suc.prems(1) by force
  then have odd: "odd (unat n div 2 ^ j)"
    using odd_unat_div_iff [of n j] by simp
  have "n AND push_bit j 1 \<noteq> 0"
    using bj by (simp add: bit_iff_and_push_bit_not_eq_0)
  moreover have "push_bit 1 (push_bit j 1) = (push_bit (Suc j) 1 :: u64)" by (simp only: push_bit_push_bit) simp
  moreover have "unat n div 2 ^ j div 2 = unat n div 2 ^ Suc j" by (simp only: power_Suc2 div_mult2_eq)
  moreover have "\<forall>i<t. bit n (Suc j + i)" "\<not> bit n (Suc j + t)"
    using Suc.prems by auto
  ultimately show ?case
    using Suc.IH [of "Suc j" rs' "mh r h"] rs Suc.prems(3) odd
    by (subst carry_subtree.simps) (simp add: mult.commute [of _ "2 :: u64"])
qed

section \<open>Extension by subtrees\<close>

lemma full_subtrees_split:
  "r < 2 ^ t \<Longrightarrow> length xs = a * 2 ^ (k + t) \<Longrightarrow> length ys = r * 2 ^ k \<Longrightarrow>
   full_subtrees mh k (a * 2 ^ t + r) (xs @ ys) =
     full_subtrees mh k r ys @ full_subtrees mh (k + t) a xs"
proof (induction t arbitrary: k r ys)
  case 0
  then have "r = 0" "ys = []" by simp_all
  then show ?case by simp
next
  case (Suc t)
  let ?N = "a * 2 ^ Suc t + r"
  have half: "?N div 2 = a * 2 ^ t + r div 2" "odd ?N \<longleftrightarrow> odd r" "r div 2 < 2 ^ t"
    using Suc.prems(1) by auto
  show ?case
  proof (cases "odd r")
    case True
    then obtain b where b: "r = Suc (2 * b)" by (auto elim!: oddE)
    let ?i = "b * 2 ^ Suc k"
    have i: "(?N - 1) * 2 ^ k = length xs + ?i"
      unfolding Suc.prems(2) b by (simp add: add_mult_distrib power_add)
    have "length (take ?i ys) = b * 2 ^ Suc k" using Suc.prems(3) b by simp
    then have "full_subtrees mh (Suc k) (a * 2 ^ t + b) (xs @ take ?i ys) =
        full_subtrees mh (Suc k) b (take ?i ys) @ full_subtrees mh (Suc k + t) a xs"
      using half(3) Suc.prems(2) b by (intro Suc.IH) simp_all
    moreover have "full_subtrees mh k ?N (xs @ ys) =
        merkle mh k (drop ?i ys) # full_subtrees mh (Suc k) (a * 2 ^ t + b) (xs @ take ?i ys)"
      unfolding full_subtrees.simps [of mh k ?N "xs @ ys"] i half using True b by simp
    moreover have "full_subtrees mh k r ys =
        merkle mh k (drop ?i ys) # full_subtrees mh (Suc k) b (take ?i ys)"
      unfolding full_subtrees.simps [of mh k r ys] using b by (simp add: ac_simps)
    ultimately show ?thesis by simp
  next
    case False
    have skip: "full_subtrees mh k m zs = full_subtrees mh (Suc k) (m div 2) zs" if "even m" for m zs
      using that by (subst full_subtrees.simps) auto
    have "length ys = r div 2 * 2 ^ Suc k" using False Suc.prems(3) by (auto elim!: evenE)
    then have "full_subtrees mh (Suc k) (a * 2 ^ t + r div 2) (xs @ ys) =
        full_subtrees mh (Suc k) (r div 2) ys @ full_subtrees mh (Suc k + t) a xs"
      using half(3) Suc.prems(2) by (intro Suc.IH) simp_all
    with False half show ?thesis by (simp add: skip)
  qed
qed

lemma factor_two_odd [simp]: "odd n \<Longrightarrow> factor_two n = 0"
  by (simp add: factor_two.simps)

lemma factor_two_double: "0 < n \<Longrightarrow> factor_two (2 * n) = Suc (factor_two n)"
  by (subst factor_two.simps) simp

lemma factor_two_shift: "0 < m \<Longrightarrow> factor_two (m * 2 ^ k) = factor_two m + k"
proof (induction k)
  case (Suc k)
  then show ?case using factor_two_double [of "m * 2 ^ k"] by (simp add: ac_simps)
qed simp

lemma factor_two_split:
  assumes "0 < n"
  obtains q where "n = q * 2 ^ factor_two n" "odd q"
proof -
  have "\<exists>q. n = q * 2 ^ factor_two n \<and> odd q"
    using assms
  proof (induction n rule: factor_two.induct)
    case (1 n)
    show ?case
    proof (cases "odd n")
      case False
      with 1 have "0 < n div 2" by (auto elim!: evenE)
      with 1 False obtain q where "n div 2 = q * 2 ^ factor_two (n div 2)" "odd q" by auto
      with False 1 show ?thesis
        by (subst factor_two.simps) (auto intro!: exI [of _ q] elim!: evenE)
    qed simp
  qed
  with that show thesis by blast
qed

lemma factor_two_Suc: "\<forall>i<t. bit q i \<Longrightarrow> \<not> bit q t \<Longrightarrow> factor_two (Suc q) = t"
proof (induction t arbitrary: q)
  case 0
  then show ?case by (simp add: bit_0)
next
  case (Suc t)
  then have "odd q" by (force simp: bit_0)
  moreover have "factor_two (Suc (q div 2)) = t"
    using Suc.prems by (intro Suc.IH) (auto simp flip: bit_Suc)
  ultimately show ?case using factor_two_double [of "Suc (q div 2)"] by (auto elim!: oddE)
qed

lemma sibling_subtrees_greedy:
  "n = 0 \<or> length news < 2 ^ factor_two n \<Longrightarrow>
   sibling_subtrees mh n news = rev (full_subtrees mh 0 (length news) news)"
proof (induction "length news" arbitrary: n news rule: less_induct)
  case less
  show ?case
  proof (cases "news = []")
    case True
    then show ?thesis by (simp add: sibling_subtrees.simps)
  next
    case False
    define l where "l = bit_length (length news) - 1"
    define r where "r = length news - 2 ^ l"
    have pos: "0 < length news" using False by simp
    note bl = bit_length_bounds [OF pos]
    have "bit_length (length news) = Suc l"
      using pos bit_length.simps [of "length news"] by (simp add: l_def)
    with bl have l: "2 ^ l \<le> length news" "length news < 2 * 2 ^ l" by simp_all
    let ?xs = "take (2 ^ l) news" and ?ys = "drop (2 ^ l) news"
    have split: "full_subtrees mh 0 (1 * 2 ^ l + r) (?xs @ ?ys) =
        full_subtrees mh 0 r ?ys @ full_subtrees mh (0 + l) 1 ?xs"
      using l by (intro full_subtrees_split) (simp_all add: r_def)
    have len: "1 * 2 ^ l + r = length news" using l by (simp add: r_def)
    have lvl: "next_subtree_level n (length news) = l"
      using less.prems by (auto simp: next_subtree_level_def l_def)
    have "factor_two (n + 2 ^ l) = l"
    proof (cases "n = 0")
      case False
      with less.prems l have "(2 :: nat) ^ l < 2 ^ factor_two n" by linarith
      then have "l < factor_two n" by simp
      then obtain d where d: "factor_two n = Suc d + l"
        using that [of "factor_two n - Suc l"] by simp
      obtain q where "n = q * 2 ^ factor_two n" using factor_two_split False by blast
      then have "n + 2 ^ l = Suc (q * 2 ^ Suc d) * 2 ^ l" by (simp add: d power_add algebra_simps)
      moreover have "factor_two (Suc (q * 2 ^ Suc d) * 2 ^ l) = factor_two (Suc (q * 2 ^ Suc d)) + l"
        by (intro factor_two_shift) simp
      moreover have "factor_two (Suc (q * 2 ^ Suc d)) = 0" by simp
      ultimately show ?thesis by (simp only: add_0)
    qed (use factor_two_shift [of 1 l] in simp)
    then have "sibling_subtrees mh (n + 2 ^ l) ?ys = rev (full_subtrees mh 0 (length ?ys) ?ys)"
      using l pos by (intro less.hyps) auto
    moreover have "full_subtrees mh l 1 ?xs = [merkle mh l ?xs]"
      by (subst full_subtrees.simps) simp
    moreover have "rev (full_subtrees mh 0 (length news) news) =
        rev (full_subtrees mh l 1 ?xs) @ rev (full_subtrees mh 0 (length ?ys) ?ys)"
      using split unfolding len by (simp add: r_def)
    ultimately show ?thesis
      using False lvl by (subst sibling_subtrees.simps) (simp add: Let_def)
  qed
qed

lemma unat_push_bit_one: "k < 64 \<Longrightarrow> unat (push_bit k 1 :: u64) = 2 ^ k"
  by (simp only: unsigned_push_bit_eq) (simp add: take_bit_push_bit push_bit_eq_mult)

lemma trailing_ones_exist:
  fixes n :: u64
  obtains t where "\<forall>i<t. bit n (j + i)" "\<not> bit n (j + t)"
proof -
  have "\<not> bit n (j + 64)" by (auto dest: bit_imp_le_length)
  then have "\<exists>t. \<not> bit n (j + t)" by blast
  then have "\<exists>t. \<not> bit n (j + t) \<and> (\<forall>i<t. bit n (j + i))"
    using exists_least_iff [of "\<lambda>t. \<not> bit n (j + t)"] by blast
  with that show thesis by blast
qed

lemma bit_shifted: "unat n = q * 2 ^ j \<Longrightarrow> bit q i \<longleftrightarrow> bit (n :: u64) (j + i)"
proof -
  assume "unat n = q * 2 ^ j"
  then have "unat n div 2 ^ (j + i) = q div 2 ^ i" by (simp add: power_add div_mult2_eq)
  with odd_unat_div_iff [of n "j + i"] show ?thesis by (simp add: bit_iff_odd)
qed

lemma append_subtrees_loop_reference:
  "0 < length ls \<Longrightarrow> length ls + length news \<le> 2 ^ 63 \<Longrightarrow>
   append_subtrees_loop mh (sibling_subtrees mh (length ls) news)
     (rev (full_subtrees mh 0 (length ls) ls)) (of_nat (length ls)) (of_nat (length news))
     (push_bit (factor_two (length ls)) 1) =
   Ok (rev (full_subtrees mh 0 (length (ls @ news)) (ls @ news)), of_nat (length (ls @ news)))"
proof (induction "length news" arbitrary: ls news rule: less_induct)
  case less
  let ?N = "length ls" and ?M = "length news"
  let ?n = "of_nat ?N :: u64" and ?m = "of_nat ?M :: u64" and ?f = "factor_two (length ls)"
  obtain q where q: "?N = q * 2 ^ ?f" "odd q" using factor_two_split less.prems(1) by blast
  have u: "unat ?n = ?N" "unat ?m = ?M" "unat (of_nat (length (ls @ news)) :: u64) = ?N + ?M"
    using less.prems(2) unat_length [of ls] unat_length [of news] unat_length [of "ls @ news"] by simp_all
  have "2 ^ ?f \<le> ?N" using q less.prems(1) by (metis dvd_imp_le dvd_triv_right)
  then have "(2 :: nat) ^ ?f \<le> 2 ^ 63" using less.prems(2) by linarith
  then have "?f \<le> 63" by (rule power_le_imp_le_exp [rotated]) simp
  then have f: "?f < 64" by simp
  have cmp: "push_bit ?f 1 \<le> ?m \<longleftrightarrow> 2 ^ ?f \<le> ?M"
    using unat_push_bit_one [OF f] u by (simp only: word_le_nat_alt)
  have fs: "full_subtrees mh 0 ?N ls = full_subtrees mh ?f q ls"
    using full_subtrees_shift [of mh 0 q ?f ls] q(1) by simp
  show ?case
  proof (cases "2 ^ ?f \<le> ?M")
    case False
    then have sib: "sibling_subtrees mh ?N news = rev (full_subtrees mh 0 ?M news)"
      by (intro sibling_subtrees_greedy) simp
    have "full_subtrees mh 0 (q * 2 ^ ?f + ?M) (ls @ news) =
        full_subtrees mh 0 ?M news @ full_subtrees mh (0 + ?f) q ls"
      using False q(1) by (intro full_subtrees_split) simp_all
    then have roots: "rev (full_subtrees mh 0 (length (ls @ news)) (ls @ news)) =
        rev (full_subtrees mh 0 ?N ls) @ sibling_subtrees mh ?N news"
      using q(1) fs sib by simp
    have add: "add_panic ?n ?m = Ok (of_nat (length (ls @ news)))"
      using u by (simp add: add_panic_eq_Ok checked_add_iff)
    show ?thesis
      using cmp False unfolding roots
      by (cases "sibling_subtrees mh ?N news") (simp_all add: add del: of_nat_add)
  next
    case True
    let ?xs = "take (2 ^ ?f) news" and ?ys = "drop (2 ^ ?f) news" and ?ls = "ls @ take (2 ^ ?f) news"
    have len: "length ?xs = 2 ^ ?f" "length ?ls = ?N + 2 ^ ?f" using True by simp_all
    have sib: "sibling_subtrees mh ?N news = merkle mh ?f ?xs # sibling_subtrees mh (length ?ls) ?ys"
    proof -
      have "next_subtree_level ?N ?M = ?f" "news \<noteq> []"
        using True less.prems(1) by (auto simp: next_subtree_level_def)
      then show ?thesis unfolding len by (subst sibling_subtrees.simps) (simp add: Let_def)
    qed
    obtain t where t: "\<forall>i<t. bit ?n (?f + i)" "\<not> bit ?n (?f + t)"
      using trailing_ones_exist .
    have qbits: "\<forall>i<t. bit q i" "\<not> bit q t" using t bit_shifted [of ?n q ?f] u q(1) by simp_all
    obtain rs' h' where c: "(carry_subtree mh ?n (push_bit ?f 1) (rev (full_subtrees mh ?f q ls))
          (merkle mh ?f ?xs) :: (anyhow_error, _) outcome) = Ok (push_bit (?f + t) 1, rev rs', h')"
        "carry mh (unat ?n div 2 ^ ?f) (full_subtrees mh ?f q ls) (merkle mh ?f ?xs) = h' # rs'"
      using carry_subtree_carry [OF t trailing_ones_le [OF qbits(1)]] by blast
    have "unat ?n div 2 ^ ?f = q"
      unfolding u(1) using q(1) by (metis nonzero_mult_div_cancel_right power_not_zero zero_neq_numeral)
    then have "full_subtrees mh ?f (Suc q) ?ls = h' # rs'"
      using full_subtrees_append [OF q(1) len(1), of mh] c(2) by (simp only:)
    moreover have N': "length ?ls = Suc q * 2 ^ ?f" using len q(1) by simp
    ultimately have roots: "rev (full_subtrees mh 0 (length ?ls) ?ls) = rev rs' @ [h']"
      using full_subtrees_shift [of mh 0 "Suc q" ?f ?ls] by simp
    have f': "factor_two (length ?ls) = ?f + t"
      unfolding N' factor_two_shift [OF zero_less_Suc] factor_two_Suc [OF qbits] by simp
    have u': "unat (of_nat (length ?ls) :: u64) = ?N + 2 ^ ?f" "unat (of_nat (length ?ys) :: u64) = ?M - 2 ^ ?f"
      using unat_length [of ?ls] unat_length [of ?ys] less.prems(2) True len by simp_all
    have add: "add_panic ?n (push_bit ?f 1) = Ok (of_nat (length ?ls))"
      using u u' unat_push_bit_one [OF f] by (simp only: add_panic_eq_Ok checked_add_iff)
    have sub: "sub_panic ?m (push_bit ?f 1) = Ok (of_nat (length ?ys))"
      using u u' unat_push_bit_one [OF f] True
      by (simp only: sub_panic_eq_Ok checked_sub_iff le_add_diff_inverse)
    have IH: "append_subtrees_loop mh (sibling_subtrees mh (length ?ls) ?ys)
        (rev (full_subtrees mh 0 (length ?ls) ?ls)) (of_nat (length ?ls)) (of_nat (length ?ys))
        (push_bit (factor_two (length ?ls)) 1) =
      Ok (rev (full_subtrees mh 0 (length (?ls @ ?ys)) (?ls @ ?ys)), of_nat (length (?ls @ ?ys)))"
    proof (rule less.hyps)
      have "0 < (2 :: nat) ^ ?f" by simp
      with True show "length ?ys < ?M" unfolding length_drop by linarith
    qed (use less.prems True in auto)
    show ?thesis
      unfolding sib append_subtrees_loop.simps fs c(1) using cmp True IH
      by (simp only: if_True and_then.simps prod.case add sub roots f' append_assoc append_take_drop_id)
  qed
qed


lemma trailing_zeros_factor_two:
  assumes "n \<noteq> 0"
  shows "trailing_zeros n = factor_two (unat n)"
  using split_trailing_zeros [OF assms] factor_two_shift
  by (metis add_0 factor_two_odd odd_pos)

lemma append_subtrees_reference:
  assumes "length ls + length news \<le> 2 ^ 63"
  shows "append_subtrees mh (accumulator_of mh ls) (sibling_subtrees mh (length ls) news)
           (of_nat (length news)) = Ok (accumulator_of mh (ls @ news))"
proof -
  let ?n = "of_nat (length ls) :: u64" and ?m = "of_nat (length news) :: u64"
  have u: "unat ?n = length ls" "unat ?m = length news"
      "length (ls @ news) = unat (of_nat (length (ls @ news)) :: u64)"
    using assms unat_length [of ls] unat_length [of news] unat_length [of "ls @ news"] by simp_all
  have max: "unat max_accumulator_leaves = 2 ^ 63"
    unfolding max_accumulator_leaves_def by (rule unat_push_bit_one) simp
  define room :: u64 where "room = of_nat (2 ^ 63 - length ls)"
  have ur: "unat room = 2 ^ 63 - length ls" unfolding room_def by (simp add: unat_of_nat)
  have room: "sub_panic max_accumulator_leaves ?n = Ok room"
    using assms u max ur by (simp add: sub_panic_eq_Ok checked_sub_iff)
  have le: "?m \<le> room" using ur u assms by (simp add: word_le_nat_alt)
  note new = accumulator_new_reference [OF u(3), of mh]
  have unfolded: "append_subtrees mh (accumulator_of mh ls) sibs ?m =
      (if ?n = 0 then accumulator_new mh sibs ?m
       else and_then (shl_panic 1 (trailing_zeros ?n)) (\<lambda>size.
         and_then (append_subtrees_loop mh sibs (rev (full_subtrees mh 0 (length ls) ls)) ?n ?m size)
           (\<lambda>(roots, n). accumulator_new mh roots n)))" for sibs
    using le by (simp add: append_subtrees_def room)
  show ?thesis
  proof (cases "ls = []")
    case True
    then have "sibling_subtrees mh 0 news = rev (full_subtrees mh 0 (length news) news)"
      by (intro sibling_subtrees_greedy) simp
    with True new u(2) show ?thesis unfolding unfolded by simp
  next
    case False
    then have nz: "?n \<noteq> 0" using u(1) by (metis length_0_conv unsigned_0)
    have shl: "shl_panic 1 (trailing_zeros ?n) = Ok (push_bit (factor_two (length ls)) 1)"
      using trailing_zeros_props [OF nz] trailing_zeros_factor_two [OF nz] u(1)
      by (simp add: shl_panic_def)
    from new nz append_subtrees_loop_reference [of ls news mh] False assms u(3) show ?thesis
      unfolding unfolded shl by (simp del: of_nat_add)
  qed
qed

end
