(* ===== verification/Tree_Position.thy ===== *)
theory Tree_Position
  imports In_Memory_Accumulator
begin

text \<open>
  Positions in a binary tree by in-order index (\<open>src/types/src/proof/position/mod.rs\<close>): navigation by bit
  manipulation, the conversion to and from post-order indices, and the iterators over frozen subtrees.

  A shift by 64 or more and an overflow of \<open>+\<close> or \<open>-\<close> panic; \<open>checked_precondition!\<close> is an assertion,
  \<open>precondition!\<close> and \<open>assume!\<close> are read by the MIRAI analyser only.  The node at level \<open>l\<close> with \<open>q\<close> nodes
  to its left is \<open>node l q\<close>; every index but \<open>2 ^ 64 - 1\<close> is such a node.
\<close>

unbundle bit_operations_syntax

section \<open>Definitions\<close>

type_synonym position = u64

datatype node_direction = Left_Child | Right_Child

definition smear_ones_for_u64 :: "u64 \<Rightarrow> u64" where
  "smear_ones_for_u64 v =
     (let n = v;
          n = n OR drop_bit 1 n;
          n = n OR drop_bit 2 n;
          n = n OR drop_bit 4 n;
          n = n OR drop_bit 8 n;
          n = n OR drop_bit 16 n;
          n = n OR drop_bit 32 n
      in n)"

definition turn_off_right_most_n_bits :: "u64 \<Rightarrow> nat \<Rightarrow> ('e, u64) outcome" where
  "turn_off_right_most_n_bits v n = and_then (shr_panic v n) (\<lambda>w. shl_panic w n)"

definition isolate_rightmost_zero_bit :: "u64 \<Rightarrow> u64" where
  "isolate_rightmost_zero_bit v = NOT v AND (v + 1)"

definition position_level :: "position \<Rightarrow> nat" where
  "position_level p = trailing_zeros (NOT p)"

definition is_leaf :: "position \<Rightarrow> bool" where
  "is_leaf p = (p AND 1 = 0)"

definition from_level_and_pos :: "nat \<Rightarrow> u64 \<Rightarrow> ('e, position) outcome" where
  "from_level_and_pos level pos =
     and_then (shl_panic 1 level) (\<lambda>bit.
     and_then (sub_panic bit 1) (\<lambda>level_one_bits.
     and_then (if level = 63 then Ok 0 else shl_panic pos (level + 1)) (\<lambda>shifted_pos.
     Ok (shifted_pos OR level_one_bits))))"

definition parent :: "position \<Rightarrow> position" where
  "parent p = (p OR isolate_rightmost_zero_bit p) AND NOT (push_bit 1 (isolate_rightmost_zero_bit p))"

definition child :: "position \<Rightarrow> node_direction \<Rightarrow> ('e, position) outcome" where
  "child p dir =
     and_then (assert_panic (\<not> is_leaf p)) (\<lambda>_.
     let direction_bit = (case dir of Left_Child \<Rightarrow> 0 | Right_Child \<Rightarrow> isolate_rightmost_zero_bit p)
     in Ok ((p OR direction_bit) AND NOT (drop_bit 1 (isolate_rightmost_zero_bit p))))"

definition left_child :: "position \<Rightarrow> ('e, position) outcome" where
  "left_child p = and_then (assert_panic (\<not> is_leaf p)) (\<lambda>_. child p Left_Child)"

definition right_child :: "position \<Rightarrow> ('e, position) outcome" where
  "right_child p = and_then (assert_panic (\<not> is_leaf p)) (\<lambda>_. child p Right_Child)"

definition is_left_child :: "position \<Rightarrow> bool" where
  "is_left_child p = (p AND push_bit 1 (isolate_rightmost_zero_bit p) = 0)"

definition is_right_child :: "position \<Rightarrow> bool" where
  "is_right_child p = (\<not> is_left_child p)"

definition from_leaf_index :: "u64 \<Rightarrow> ('e, position) outcome" where
  "from_leaf_index leaf_index = from_level_and_pos 0 leaf_index"

definition sibling :: "position \<Rightarrow> position" where
  "sibling p = p XOR push_bit 1 (isolate_rightmost_zero_bit p)"

definition root_from_leaf_index :: "u64 \<Rightarrow> ('e, position) outcome" where
  "root_from_leaf_index leaf_index =
     and_then (from_leaf_index leaf_index) (\<lambda>leaf. Ok (drop_bit 1 (smear_ones_for_u64 leaf)))"

definition root_from_leaf_count :: "leaf_count \<Rightarrow> ('e, position) outcome" where
  "root_from_leaf_count leaf_count =
     and_then (assert_panic (leaf_count > 0)) (\<lambda>_. root_from_leaf_index (leaf_count - 1))"

definition root_level_from_leaf_count :: "leaf_count \<Rightarrow> ('e, nat) outcome" where
  "root_level_from_leaf_count leaf_count =
     and_then (assert_panic (leaf_count > 0)) (\<lambda>_.
     Ok (max_accumulator_proof_depth + 1 - leading_zeros (leaf_count - 1)))"

definition right_most_child :: "position \<Rightarrow> ('e, position) outcome" where
  "right_most_child p =
     and_then (shl_panic 1 (position_level p)) (\<lambda>bit.
     and_then (add_panic p bit) (\<lambda>s. sub_panic s 1))"

definition left_most_child :: "position \<Rightarrow> ('e, position) outcome" where
  "left_most_child p = turn_off_right_most_n_bits p (position_level p)"

definition is_freezable :: "position \<Rightarrow> u64 \<Rightarrow> ('e, bool) outcome" where
  "is_freezable p leaf_index =
     and_then (from_leaf_index leaf_index) (\<lambda>leaf.
     and_then (right_most_child p) (\<lambda>right. Ok (right \<le> leaf)))"

definition is_placeholder :: "position \<Rightarrow> u64 \<Rightarrow> ('e, bool) outcome" where
  "is_placeholder p leaf_index =
     and_then (from_leaf_index leaf_index) (\<lambda>leaf.
     if p \<le> leaf then Ok False
     else and_then (left_most_child p) (\<lambda>left. Ok (\<not> left \<le> leaf)))"

text \<open>\<open>AncestorSiblingIterator\<close> and \<open>AncestorIterator\<close>: the item and the next state of the iterator.\<close>

definition ancestor_sibling_next :: "position \<Rightarrow> position \<times> position" where
  "ancestor_sibling_next p = (sibling p, parent p)"

definition ancestor_next :: "position \<Rightarrow> position \<times> position" where
  "ancestor_next p = (p, parent p)"

record frozen_subtree_iterator =
  fsi_bitmap :: u64
  fsi_seen_leaves :: u64

definition frozen_subtree_iterator_new :: "leaf_count \<Rightarrow> frozen_subtree_iterator" where
  "frozen_subtree_iterator_new n = \<lparr>fsi_bitmap = n, fsi_seen_leaves = 0\<rparr>"

definition frozen_subtree_next ::
    "frozen_subtree_iterator \<Rightarrow> ('e, (position \<times> frozen_subtree_iterator) option) outcome" where
  "frozen_subtree_next s =
     (if fsi_bitmap s = 0 then Ok None
      else
        let root_offset = drop_bit 1 (smear_ones_for_u64 (fsi_bitmap s))
        in and_then (add_panic root_offset 1) (\<lambda>num_leaves.
           and_then (from_leaf_index (fsi_seen_leaves s)) (\<lambda>leftmost_leaf.
           and_then (add_panic leftmost_leaf root_offset) (\<lambda>root.
           and_then (add_panic (fsi_seen_leaves s) num_leaves) (\<lambda>seen.
           Ok (Some (root, \<lparr>fsi_bitmap = fsi_bitmap s AND NOT num_leaves, fsi_seen_leaves = seen\<rparr>)))))))"

record frozen_subtree_sibling_iterator =
  fss_current_num_leaves :: leaf_count
  fss_remaining_new_leaves :: leaf_count

definition frozen_subtree_sibling_iterator_new ::
    "leaf_count \<Rightarrow> leaf_count \<Rightarrow> ('e, frozen_subtree_sibling_iterator) outcome" where
  "frozen_subtree_sibling_iterator_new current new =
     and_then (assert_panic (new \<le> max_accumulator_leaves)) (\<lambda>_.
     and_then (assert_panic (current \<le> new)) (\<lambda>_.
     Ok \<lparr>fss_current_num_leaves = current, fss_remaining_new_leaves = new - current\<rparr>))"

definition next_new_leaf_batch :: "frozen_subtree_sibling_iterator \<Rightarrow> ('e, leaf_count) outcome" where
  "next_new_leaf_batch s =
     (let zeros = leading_zeros (fss_remaining_new_leaves s)
      in and_then (assert_panic (zeros \<le> max_accumulator_proof_depth)) (\<lambda>_.
         shl_panic 1 (max_accumulator_proof_depth - zeros)))"

definition frozen_subtree_sibling_next ::
    "frozen_subtree_sibling_iterator \<Rightarrow> ('e, (position \<times> frozen_subtree_sibling_iterator) option) outcome" where
  "frozen_subtree_sibling_next s =
     (if fss_remaining_new_leaves s = 0 then Ok None
      else
        and_then
          (if fss_current_num_leaves s > 0
           then and_then (shl_panic 1 (trailing_zeros (fss_current_num_leaves s))) (\<lambda>rightmost.
                  if fss_remaining_new_leaves s \<ge> rightmost then Ok rightmost else next_new_leaf_batch s)
           else next_new_leaf_batch s) (\<lambda>next_subtree_leaves.
        let first_leaf_index = fss_current_num_leaves s
        in and_then (add_panic first_leaf_index next_subtree_leaves) (\<lambda>end_index.
           and_then (sub_panic end_index 1) (\<lambda>last_leaf_index.
           and_then (sub_panic (fss_remaining_new_leaves s) next_subtree_leaves) (\<lambda>remaining.
           and_then (add_panic first_leaf_index last_leaf_index) (\<lambda>p.
           Ok (Some (p, \<lparr>fss_current_num_leaves = end_index, fss_remaining_new_leaves = remaining\<rparr>))))))))"

definition children_of_node :: "u64 \<Rightarrow> ('e, u64) outcome" where
  "children_of_node n = sub_panic (push_bit 1 (isolate_rightmost_zero_bit n)) 2"

definition nodes_to_left_of :: "u64 \<Rightarrow> ('e, u64) outcome" where
  "nodes_to_left_of n =
     and_then (sub_panic (isolate_rightmost_zero_bit n) 1) (\<lambda>ones_up_to_level.
     let unset_level_zeros = n XOR ones_up_to_level
     in sub_panic unset_level_zeros (of_nat (count_ones unset_level_zeros)))"

definition inorder_to_postorder :: "u64 \<Rightarrow> ('e, u64) outcome" where
  "inorder_to_postorder n =
     and_then (children_of_node n) (\<lambda>children.
     and_then (nodes_to_left_of n) (\<lambda>left_nodes.
     add_panic children left_nodes))"

text \<open>The loop of \<open>postorder_to_inorder\<close>; \<open>i\<close> iterations are left.\<close>

primrec postorder_loop :: "nat \<Rightarrow> u64 \<Rightarrow> u64 \<Rightarrow> u64 \<Rightarrow> u64 \<times> u64" where
  "postorder_loop 0 n full_binary_size bitmap = (n, bitmap)"
| "postorder_loop (Suc i) n full_binary_size bitmap =
     (if n \<ge> full_binary_size
      then postorder_loop i (n - full_binary_size) (drop_bit 1 full_binary_size) (bitmap OR push_bit i 1)
      else postorder_loop i n (drop_bit 1 full_binary_size) bitmap)"

definition postorder_to_inorder :: "u64 \<Rightarrow> ('e, u64) outcome" where
  "postorder_to_inorder n =
     (case postorder_loop 64 n (NOT 0) 0 of (level, bitmap) \<Rightarrow>
        let l = unat (ucast level :: u32)
        in and_then (shr_panic bitmap l) (\<lambda>pos. from_level_and_pos l pos))"

definition from_postorder_index :: "u64 \<Rightarrow> (anyhow_error, position) outcome" where
  "from_postorder_index index =
     and_then (ensure (index < NOT 0) (Msg ''node index is invalid (equal to 2^64 - 1)'')) (\<lambda>_.
     postorder_to_inorder index)"

definition to_postorder_index :: "position \<Rightarrow> ('e, u64) outcome" where
  "to_postorder_index p = inorder_to_postorder p"

section \<open>Nodes by level and position\<close>

definition node :: "nat \<Rightarrow> u64 \<Rightarrow> position" where
  "node l q = push_bit (Suc l) q OR mask l"

definition node_ok :: "nat \<Rightarrow> u64 \<Rightarrow> bool" where
  "node_ok l q = (l < 64 \<and> unat q < 2 ^ (63 - l))"

declare push_bit_Suc [simp del] push_bit_of_1 [simp del] drop_bit_Suc [simp del]

lemma bit_node: "bit (node l q) i \<longleftrightarrow> i < 64 \<and> (i < l \<or> l < i \<and> bit q (i - Suc l))"
  by (auto simp: node_def bit_simps)

lemma from_level_and_pos_node: "l < 63 \<Longrightarrow> from_level_and_pos l q = Ok (node l q)"
proof -
  assume "l < 63"
  have "(1 :: u64) \<le> push_bit l 1"
    using \<open>l < 63\<close> by (simp add: word_le_nat_alt unat_push_bit_one)
  moreover have "push_bit l 1 - 1 = (mask l :: u64)"
    by (simp add: mask_eq_exp_minus_1 push_bit_of_1)
  ultimately show ?thesis
    using \<open>l < 63\<close> by (simp add: from_level_and_pos_def shl_panic_def sub_panic_def checked_sub_def node_def)
qed

lemma isolate_node: "l < 64 \<Longrightarrow> isolate_rightmost_zero_bit (node l q) = push_bit l 1"
proof -
  assume l: "l < 64"
  have "node l q = push_bit (Suc l) q + mask l"
    unfolding node_def by (rule disjunctive_add [symmetric]) (auto simp: bit_simps)
  moreover have "mask l + 1 = (push_bit l 1 :: u64)"
    by (simp add: mask_eq_exp_minus_1 push_bit_of_1)
  ultimately have "node l q + 1 = push_bit (Suc l) q + push_bit l 1" by (simp add: add.assoc)
  also have "\<dots> = push_bit (Suc l) q OR push_bit l 1"
    by (rule disjunctive_add) (auto simp: bit_simps)
  finally have "node l q + 1 = push_bit (Suc l) q OR push_bit l 1" .
  then show ?thesis
    unfolding isolate_rightmost_zero_bit_def
    by (intro bit_word_eqI) (auto simp: bit_node bit_simps)
qed

lemma trailing_zeros_eqI:
  assumes "bit w l" "\<And>i. i < l \<Longrightarrow> \<not> bit w i"
  shows "trailing_zeros w = l"
proof -
  have "w \<noteq> 0" using assms(1) by auto
  from trailing_zeros_props [OF this] show ?thesis using assms by (metis linorder_neqE_nat)
qed

lemma level_node: "l < 64 \<Longrightarrow> position_level (node l q) = l"
  unfolding position_level_def by (rule trailing_zeros_eqI) (auto simp: bit_node bit_simps)

lemma power_split: "l < 64 \<Longrightarrow> (2 :: nat) ^ (63 - l) * 2 ^ Suc l = 2 ^ 64"
  by (subst power_add [symmetric]) simp

lemma node_exhaust:
  assumes "p \<noteq> - 1"
  obtains l q where "node_ok l q" "p = node l q"
proof -
  define l where "l = trailing_zeros (NOT p)"
  define q where "q = drop_bit (Suc l) p"
  have "NOT p \<noteq> 0"
    using assms by (metis bit.double_compl bit.compl_zero)
  from trailing_zeros_props [OF this] have l: "l < 64" "\<And>i. i < l \<Longrightarrow> bit p i" "\<not> bit p l"
    by (auto simp: l_def bit_simps)
  have "p = node l q"
  proof (rule bit_word_eqI)
    fix n assume "n < LENGTH(64)"
    then show "bit p n \<longleftrightarrow> bit (node l q) n"
      using l less_imp_Suc_add [of l n] by (cases n l rule: linorder_cases) (auto simp: bit_node q_def bit_simps)
  qed
  moreover have "node_ok l q"
  proof -
    have "unat q = unat p div 2 ^ Suc l" unfolding q_def unat_drop_bit_eq by (rule drop_bit_eq_div)
    moreover have "unat p < 2 ^ (63 - l) * 2 ^ Suc l"
      using unat_less_max [of p] by (simp only: power_split [OF l(1)] len_of_numeral_defs) simp
    ultimately show ?thesis using l(1) by (simp add: node_ok_def less_mult_imp_div_less)
  qed
  ultimately show thesis by (rule that [rotated])
qed

lemma parent_node: "l < 63 \<Longrightarrow> parent (node l q) = node (Suc l) (drop_bit 1 q)"
  by (intro bit_word_eqI) (auto simp: parent_def isolate_node bit_node bit_simps Suc_diff_Suc)

lemma sibling_node: "l < 63 \<Longrightarrow> sibling (node l q) = node l (q XOR 1)"
  by (intro bit_word_eqI) (auto simp: sibling_def isolate_node bit_node bit_simps)

lemma is_leaf_node: "l < 64 \<Longrightarrow> is_leaf (node l q) \<longleftrightarrow> l = 0"
  by (simp add: is_leaf_def and_one_eq mod_2_eq_odd bit_node flip: bit_0)

lemma left_child_node: "l < 63 \<Longrightarrow> left_child (node (Suc l) q) = Ok (node l (push_bit 1 q))"
  unfolding left_child_def child_def by (simp add: is_leaf_node) (rule bit_word_eqI, auto simp: isolate_node bit_node bit_simps)

lemma right_child_node: "l < 63 \<Longrightarrow> right_child (node (Suc l) q) = Ok (node l (push_bit 1 q OR 1))"
  unfolding right_child_def child_def by (simp add: is_leaf_node) (rule bit_word_eqI, auto simp: isolate_node bit_node bit_simps)

lemma is_left_child_node: "l < 63 \<Longrightarrow> is_left_child (node l q) \<longleftrightarrow> even q"
proof -
  assume l: "l < 63"
  have "push_bit 1 (push_bit l 1) = (2 :: u64) ^ Suc l" by (metis push_bit_push_bit push_bit_of_1 plus_1_eq_Suc)
  then show ?thesis
    using l by (simp add: is_left_child_def isolate_node and_exp_eq_0_iff_not_bit bit_node bit_0 del: power_Suc)
qed

lemma unat_push_bit:
  assumes "unat q * 2 ^ n < 2 ^ 64"
  shows "unat (push_bit n (q :: u64)) = unat q * 2 ^ n"
  unfolding unsigned_push_bit_eq using assms by (simp add: push_bit_eq_mult take_bit_nat_eq_self)

lemma unat_node:
  assumes "node_ok l q"
  shows "Suc (unat (node l q)) = unat q * 2 ^ Suc l + 2 ^ l"
proof -
  have "unat q * 2 ^ Suc l < 2 ^ (63 - l) * 2 ^ Suc l" using assms by (simp add: node_ok_def)
  also have "\<dots> = 2 ^ 64" using assms by (intro power_split) (simp add: node_ok_def)
  finally have q: "unat (push_bit (Suc l) q) = unat q * 2 ^ Suc l" by (rule unat_push_bit)
  have m: "Suc (unat (mask l :: u64)) = 2 ^ l"
  proof -
    have "unat (mask l :: u64) = mask l" using assms by (intro bit_eqI) (auto simp: bit_simps node_ok_def)
    then show ?thesis by (simp add: mask_nat_def)
  qed
  have "unat (node l q) = unat (push_bit (Suc l) q) OR unat (mask l :: u64)"
    by (simp add: node_def unsigned_or_eq)
  also have "\<dots> = unat (push_bit (Suc l) q) + unat (mask l :: u64)"
    by (rule disjunctive_add [symmetric]) (auto simp: bit_simps)
  finally show ?thesis by (simp only: q m add_Suc_right [symmetric])
qed

lemma node_inject:
  assumes "node_ok l q" "node_ok l' q'" "node l q = node l' q'"
  shows "l = l' \<and> q = q'"
proof -
  have l: "l = l'" using level_node [of l q] level_node [of l' q'] assms by (simp add: node_ok_def)
  moreover have "unat q = unat q'"
    using arg_cong [OF assms(3), of unat] unat_node [OF assms(1)] unat_node [OF assms(2)] l by simp
  ultimately show ?thesis by (simp add: word_unat_eq_iff)
qed

section \<open>Post-order indices\<close>

text \<open>
  The nodes before the subtree of the node at level \<open>l\<close> and position \<open>Q\<close>: a perfect tree of
  \<open>2 ^ (l + j + 1) - 1\<close> nodes for every bit \<open>j\<close> of \<open>Q\<close>.
\<close>

primrec left_nodes :: "nat \<Rightarrow> nat \<Rightarrow> nat \<Rightarrow> nat" where
  "left_nodes l Q 0 = 0"
| "left_nodes l Q (Suc k) = left_nodes l Q k + (if bit Q k then 2 ^ (l + k + 1) - 1 else 0)"

definition postorder :: "nat \<Rightarrow> nat \<Rightarrow> nat" where
  "postorder l Q = 2 ^ Suc l - 2 + left_nodes l Q (63 - l)"

lemma left_nodes_eq: "left_nodes l Q k + card {j. j < k \<and> bit Q j} = take_bit k Q * 2 ^ Suc l"
proof (induction k)
  case (Suc k)
  have "{j. j < Suc k \<and> bit Q j} = (if bit Q k then insert k {j. j < k \<and> bit Q j} else {j. j < k \<and> bit Q j})"
    by (auto simp: less_Suc_eq)
  then have "card {j. j < Suc k \<and> bit Q j} = (if bit Q k then 1 else 0) + card {j. j < k \<and> bit Q j}" by simp
  then show ?case
    using Suc by (simp add: take_bit_Suc_from_most power_add algebra_simps)
qed simp

lemma add_bound:
  fixes a b x :: nat
  shows "a + b \<le> x - 2 \<Longrightarrow> 2 \<le> x \<Longrightarrow> a + (b + (if P then x - 1 else 0)) \<le> 2 * x - 2"
  by auto

lemma left_nodes_bound: "2 ^ Suc l - 2 + left_nodes l Q k \<le> 2 ^ (l + k + 1) - 2"
proof (induction k)
  case (Suc k)
  have "(2 :: nat) \<le> 2 ^ (l + k + 1)" by simp
  from add_bound [OF Suc this, of "bit Q k"] show ?case unfolding left_nodes.simps by simp
qed simp

lemma mask_nat: "k \<le> 64 \<Longrightarrow> unat (mask k :: u64) = 2 ^ k - 1"
proof -
  assume "k \<le> 64"
  then have "unat (mask k :: u64) = mask k" by (intro bit_eqI) (auto simp: bit_simps)
  then show ?thesis by (simp add: mask_nat_def)
qed

lemma drop_bit_mask: "k < 64 \<Longrightarrow> drop_bit 1 (mask (Suc k) :: u64) = mask k"
  by (intro bit_word_eqI) (auto simp: bit_simps)

lemma drop_bit_mask': "k < 64 \<Longrightarrow> drop_bit (Suc 0) (mask (Suc k) :: u64) = mask k"
  using drop_bit_mask by simp

lemma of_nat_unat_u64: "of_nat (unat w) = (w :: u64)"
  by simp

lemma postorder_loop_low:
  "d + i < 64 \<Longrightarrow> unat w = 2 ^ Suc i - 2 + d \<Longrightarrow>
   postorder_loop i w (mask i) bm = (of_nat (d + i), bm OR mask i)"
proof (induction i arbitrary: d w bm)
  case 0
  then have "w = of_nat d" using of_nat_unat_u64 [of w] by simp
  then show ?case by simp
next
  case (Suc i)
  have m: "unat (mask (Suc i) :: u64) = 2 ^ Suc i - 1" using Suc.prems(1) by (intro mask_nat) simp
  have two: "(2 :: nat) ^ Suc (Suc i) = 2 * 2 ^ Suc i" "(2 :: nat) \<le> 2 ^ Suc i" by simp_all
  have le: "mask (Suc i) \<le> w" using m Suc.prems(2) two unfolding word_le_nat_alt by linarith
  then have "unat (w - mask (Suc i)) = 2 ^ Suc i - 2 + Suc d"
    using m Suc.prems(2) two unfolding unat_sub [OF le] by linarith
  then have "postorder_loop i (w - mask (Suc i)) (mask i) (bm OR push_bit i 1) = (of_nat (Suc d + i), (bm OR push_bit i 1) OR mask i)"
    using Suc.prems(1) by (intro Suc.IH) simp_all
  moreover have "(bm OR push_bit i 1) OR mask i = bm OR mask (Suc i)"
    using Suc.prems(1) by (intro bit_word_eqI) (auto simp: bit_simps less_Suc_eq)
  ultimately show ?case using le Suc.prems(1) by (simp add: drop_bit_mask')
qed

lemma postorder_loop_high:
  "l + k \<le> 64 \<Longrightarrow> unat w = 2 ^ Suc l - 2 + left_nodes l (unat q) k \<Longrightarrow>
   postorder_loop (l + k) w (mask (l + k)) bm =
     postorder_loop l (of_nat (2 ^ Suc l - 2)) (mask l) (bm OR push_bit l (take_bit k q))"
proof (induction k arbitrary: w bm)
  case 0
  then have "w = of_nat (2 ^ Suc l - 2)" using of_nat_unat_u64 [of w] by simp
  then show ?case by simp
next
  case (Suc k)
  have m: "unat (mask (Suc (l + k)) :: u64) = 2 ^ (l + k + 1) - 1" using Suc.prems(1) by (subst mask_nat) simp_all
  have bound: "2 ^ Suc l - 2 + left_nodes l (unat q) k \<le> 2 ^ (l + k + 1) - 2" by (rule left_nodes_bound)
  have two: "(2 :: nat) \<le> 2 ^ (l + k + 1)" by simp
  show ?case
  proof (cases "bit q k")
    case True
    then have w: "unat w = 2 ^ Suc l - 2 + left_nodes l (unat q) k + (2 ^ (l + k + 1) - 1)"
      using Suc.prems(2) True unfolding left_nodes.simps by (simp only: bit_unsigned_iff add.assoc) simp
    then have le: "mask (Suc (l + k)) \<le> w" using m unfolding word_le_nat_alt by linarith
    then have "unat (w - mask (Suc (l + k))) = 2 ^ Suc l - 2 + left_nodes l (unat q) k"
      using m w unfolding unat_sub [OF le] by linarith
    moreover have "(bm OR push_bit (l + k) 1) OR push_bit l (take_bit k q) = bm OR push_bit l (take_bit (Suc k) q)"
      using True Suc.prems(1) by (intro bit_word_eqI) (auto simp: bit_simps less_Suc_eq)
    ultimately show ?thesis
      using le Suc.IH [of "w - mask (Suc (l + k))" "bm OR push_bit (l + k) 1"] Suc.prems(1)
      by (simp add: drop_bit_mask')
  next
    case False
    then have w: "unat w = 2 ^ Suc l - 2 + left_nodes l (unat q) k" using Suc.prems(2) by (simp add: bit_unsigned_iff)
    then have "\<not> mask (Suc (l + k)) \<le> w" using m bound two unfolding word_le_nat_alt by linarith
    moreover have "push_bit l (take_bit k q) = push_bit l (take_bit (Suc k) q)"
      using False by (intro bit_word_eqI) (auto simp: bit_simps less_Suc_eq)
    ultimately show ?thesis using Suc.IH [of w bm] w Suc.prems(1) by (simp add: drop_bit_mask')
  qed
qed

lemma from_level_and_pos_ok:
  assumes "node_ok l q"
  shows "from_level_and_pos l q = Ok (node l q)"
proof (cases "l = 63")
  case True
  have "node 63 q = mask 63" by (intro bit_word_eqI) (auto simp: bit_node bit_simps)
  moreover have "(1 :: u64) \<le> push_bit 63 1" by (simp add: push_bit_of_1)
  moreover have "push_bit 63 1 - 1 = (mask 63 :: u64)" by (simp add: mask_eq_exp_minus_1 push_bit_of_1)
  ultimately show ?thesis
    using True by (simp add: from_level_and_pos_def shl_panic_def sub_panic_def checked_sub_def)
next
  case False
  then show ?thesis using assms by (intro from_level_and_pos_node) (simp add: node_ok_def)
qed

lemma node_ok_bits:
  assumes "node_ok l q" "bit q i"
  shows "i < 63 - l"
proof -
  have "take_bit (63 - l) (unat q) = unat q" using assms(1) by (simp add: node_ok_def take_bit_nat_eq_self)
  moreover have "bit (unat q) i" using assms(2) bit_imp_le_length [OF assms(2)] by (simp add: bit_unsigned_iff)
  ultimately have "bit (take_bit (63 - l) (unat q)) i" by simp
  then show ?thesis by (simp add: bit_take_bit_iff)
qed

lemma postorder_to_inorder_node:
  assumes ok: "node_ok l q" and n: "unat n = postorder l (unat q)"
  shows "postorder_to_inorder n = Ok (node l q)"
proof -
  have l: "l \<le> 63" using ok by (simp add: node_ok_def)
  have "\<not> bit q (63 - l)" using node_ok_bits [OF ok] by blast
  then have "left_nodes l (unat q) (64 - l) = left_nodes l (unat q) (63 - l)"
    using left_nodes.simps(2) [of l "unat q" "63 - l"] l
    by (simp add: Suc_diff_le [symmetric] bit_unsigned_iff del: left_nodes.simps)
  then have "postorder_loop (l + (64 - l)) n (mask (l + (64 - l))) 0 =
      postorder_loop l (of_nat (2 ^ Suc l - 2)) (mask l) (0 OR push_bit l (take_bit (64 - l) q))"
    using n l by (intro postorder_loop_high) (simp_all add: postorder_def)
  moreover have "i < 64 - l" if "bit q i" for i using node_ok_bits [OF ok that] by simp
  then have "take_bit (64 - l) q = q" by (intro bit_word_eqI) (auto simp: bit_simps)
  moreover have "(2 :: nat) ^ Suc l \<le> 2 ^ 64" using l by (intro power_increasing) simp_all
  then have "unat (of_nat (2 ^ Suc l - 2) :: u64) = 2 ^ Suc l - 2"
    by (intro unat_of_nat_u64) (simp del: power_Suc)
  ultimately have loop: "postorder_loop 64 n (mask 64) 0 = (of_nat l, push_bit l q OR mask l)"
    using postorder_loop_low [of 0 l "of_nat (2 ^ Suc l - 2)" "push_bit l q"] l by simp
  have "l + i < 64" if "bit q i" for i using node_ok_bits [OF ok that] by simp
  then have "drop_bit l (push_bit l q OR mask l) = q" by (intro bit_word_eqI) (auto simp: bit_simps)
  moreover have "unat (ucast (of_nat l :: u64) :: u32) = l"
    using l by (simp add: unsigned_ucast_eq unat_of_nat_u64 take_bit_nat_eq_self)
  moreover have "NOT 0 = (mask 64 :: u64)" by (intro bit_word_eqI) (auto simp: bit_simps)
  ultimately show ?thesis
    using l loop from_level_and_pos_ok [OF ok] by (simp add: postorder_to_inorder_def shr_panic_def)
qed

lemma count_ones_card: "count_ones w = card {i. bit w i}"
proof -
  have "{i. bit w i} = set (filter (bit w) [0..<64])" by (auto dest: bit_imp_le_length)
  then show ?thesis unfolding count_ones_def by (simp only:) (rule distinct_card [symmetric], simp)
qed

lemma count_ones_push:
  assumes "node_ok l q"
  shows "count_ones (push_bit (Suc l) q) = card {j. j < 63 - l \<and> bit (unat q) j}"
proof -
  have "{i. bit (push_bit (Suc l) q) i} = (\<lambda>j. j + Suc l) ` {j. j < 63 - l \<and> bit (unat q) j}" (is "?L = ?R")
  proof (intro set_eqI iffI)
    fix i assume "i \<in> ?L"
    then have "Suc l \<le> i" "bit q (i - Suc l)" by (auto simp: bit_simps)
    then show "i \<in> ?R"
      using node_ok_bits [OF assms] by (intro image_eqI [of _ _ "i - Suc l"]) (auto simp: bit_unsigned_iff)
  next
    fix i assume "i \<in> ?R"
    then show "i \<in> ?L" by (auto simp: bit_simps bit_unsigned_iff)
  qed
  then show ?thesis by (simp add: count_ones_card card_image del: add_Suc_right)
qed

lemma left_nodes_node:
  assumes "node_ok l q"
  shows "left_nodes l (unat q) (63 - l) + card {j. j < 63 - l \<and> bit (unat q) j} = unat q * 2 ^ Suc l"
proof -
  have "take_bit (63 - l) (unat q) = unat q" using assms by (simp add: node_ok_def take_bit_nat_eq_self)
  then show ?thesis using left_nodes_eq [of l "unat q" "63 - l"] by simp
qed

lemma postorder_eq:
  assumes "node_ok l q"
  shows "postorder l (unat q) + card {j. j < 63 - l \<and> bit (unat q) j} + 2 = Suc (unat q) * 2 ^ Suc l"
proof -
  have "a - 2 + b + c + 2 = a + (b + c)" if "2 \<le> a" for a b c :: nat using that by simp
  from this [of "2 ^ Suc l" "left_nodes l (unat q) (63 - l)" "card {j. j < 63 - l \<and> bit (unat q) j}"]
  show ?thesis unfolding postorder_def mult_Suc left_nodes_node [OF assms] by simp
qed

lemma node_size_bound:
  assumes "node_ok l q"
  shows "Suc (unat q) * 2 ^ Suc l \<le> 2 ^ 64"
proof -
  have "Suc (unat q) * 2 ^ Suc l \<le> 2 ^ (63 - l) * 2 ^ Suc l"
    using assms by (intro mult_right_mono) (simp_all add: node_ok_def Suc_leI)
  also have "\<dots> = 2 ^ 64" using assms by (intro power_split) (simp add: node_ok_def)
  finally show ?thesis .
qed

lemma panic_arith:
  fixes a b c :: u64
  shows "unat a = unat b + unat c \<Longrightarrow> sub_panic a b = Ok c" "unat c = unat a + unat b \<Longrightarrow> add_panic a b = Ok c"
  by (simp_all add: sub_panic_eq_Ok add_panic_eq_Ok checked_sub_iff checked_add_iff)

lemma inorder_to_postorder_node:
  assumes ok: "node_ok l q" and l: "l < 63"
  shows "inorder_to_postorder (node l q) = Ok (of_nat (postorder l (unat q)))"
proof -
  let ?pop = "card {j. j < 63 - l \<and> bit (unat q) j}" and ?left = "left_nodes l (unat q) (63 - l)"
  note sizes = left_nodes_node [OF ok] postorder_eq [OF ok] node_size_bound [OF ok]
  have two: "(2 :: nat) \<le> 2 ^ Suc l" by simp
  have q: "unat q * 2 ^ Suc l < 2 ^ 64" and small: "?pop < 2 ^ 64" "?left < 2 ^ 64" "postorder l (unat q) < 2 ^ 64"
    using sizes two unfolding mult_Suc by linarith+
  have two': "(2 :: nat) ^ Suc l - 2 < 2 ^ 64" using sizes(3) two unfolding mult_Suc by linarith
  have s: "push_bit 1 (push_bit l 1) = (push_bit (Suc l) 1 :: u64)" by (simp add: push_bit_push_bit)
  have "unat (of_nat (2 ^ Suc l - 2) :: u64) = 2 ^ Suc l - 2" using two' by (rule unat_of_nat_u64)
  then have "sub_panic (push_bit (Suc l) 1) 2 = Ok (of_nat (2 ^ Suc l - 2) :: u64)"
    using two l by (intro panic_arith(1)) (simp only: unat_push_bit_one, simp del: power_Suc of_nat_diff)
  then have kids: "children_of_node (node l q) = Ok (of_nat (2 ^ Suc l - 2))"
    using l unfolding children_of_node_def by (subst isolate_node) (simp_all only: s)
  have "push_bit l 1 - 1 = (mask l :: u64)" by (simp add: mask_eq_exp_minus_1 push_bit_of_1)
  moreover have "(1 :: u64) \<le> push_bit l 1" using l by (simp add: word_le_nat_alt unat_push_bit_one)
  moreover have "node l q XOR mask l = push_bit (Suc l) q"
    by (intro bit_word_eqI) (auto simp: bit_node bit_simps)
  ultimately have "nodes_to_left_of (node l q) = sub_panic (push_bit (Suc l) q) (of_nat ?pop)"
    using l by (simp add: nodes_to_left_of_def isolate_node sub_panic_def checked_sub_def count_ones_push [OF ok])
  also have "\<dots> = Ok (of_nat ?left)"
    using sizes(1) small by (intro panic_arith(1)) (simp add: unat_of_nat_u64 unat_push_bit [OF q] del: power_Suc)
  finally have left: "nodes_to_left_of (node l q) = Ok (of_nat ?left)" .
  have "add_panic (of_nat (2 ^ Suc l - 2)) (of_nat ?left) = Ok (of_nat (postorder l (unat q)) :: u64)"
    unfolding postorder_def
    using small [unfolded postorder_def] two' by (intro panic_arith(2)) (simp only: unat_of_nat_u64)
  then show ?thesis by (simp add: inorder_to_postorder_def kids left)
qed

lemma postorder_bound:
  assumes ok: "node_ok l q" and l: "l < 63"
  shows "postorder l (unat q) < 2 ^ 64 - 2"
proof (cases "unat q = 0")
  case True
  have "(2 :: nat) ^ Suc l \<le> 2 ^ 63" using l by (intro power_increasing) simp_all
  moreover have "postorder l (unat q) + 2 \<le> 2 ^ Suc l" using postorder_eq [OF ok] True by simp
  ultimately show ?thesis by simp
next
  case False
  then have "q \<noteq> 0" by auto
  then obtain j where j: "bit q j" by (auto simp: bit_eq_iff)
  then have "j \<in> {j. j < 63 - l \<and> bit (unat q) j}"
    using node_ok_bits [OF ok j] bit_imp_le_length [OF j] by (simp add: bit_unsigned_iff)
  then have "card {j. j < 63 - l \<and> bit (unat q) j} \<noteq> 0" by (subst card_0_eq) auto
  then show ?thesis using postorder_eq [OF ok] node_size_bound [OF ok] by linarith
qed

lemma postorder_round_trip:
  assumes "node_ok l q" "l < 63"
  shows "to_postorder_index (node l q) = Ok (of_nat (postorder l (unat q)))"
    and "(of_nat (postorder l (unat q)) :: u64) \<notin> {- 1, - 2}"
    and "from_postorder_index (of_nat (postorder l (unat q))) = Ok (node l q)"
proof -
  define n :: u64 where "n = of_nat (postorder l (unat q))"
  have n: "unat n = postorder l (unat q)" "unat n < 2 ^ 64 - 2"
    using postorder_bound [OF assms] by (simp_all add: n_def unat_of_nat_u64)
  have m: "unat (- 1 :: u64) = 2 ^ 64 - 1" "unat (- 2 :: u64) = 2 ^ 64 - 2"
    by (simp_all add: unsigned_minus_1_eq_mask mask_nat_def)
  then show "(of_nat (postorder l (unat q)) :: u64) \<notin> {- 1, - 2}" using n(2) by (auto simp flip: n_def)
  have "n < NOT 0" using n(2) m(1) by (simp add: word_less_nat_alt)
  then show "from_postorder_index (of_nat (postorder l (unat q))) = Ok (node l q)"
    by (simp add: from_postorder_index_def postorder_to_inorder_node [OF assms(1) n(1)] flip: n_def)
  show "to_postorder_index (node l q) = Ok (of_nat (postorder l (unat q)))"
    by (simp add: to_postorder_index_def inorder_to_postorder_node [OF assms])
qed

text \<open>The positions that have a post-order index: all but the last one and the root of the tree of height 63.\<close>

definition max_root :: position where
  "max_root = mask 63"

lemma node_of_position:
  assumes "p \<notin> {- 1, max_root}"
  obtains l q where "node_ok l q" "l < 63" "p = node l q"
proof -
  obtain l q where lq: "node_ok l q" "p = node l q" using node_exhaust [of p] assms by blast
  have "l \<noteq> 63"
  proof
    assume "l = 63"
    then have "p = max_root" using lq(2) unfolding max_root_def
      by (intro bit_word_eqI) (auto simp: bit_node bit_simps)
    then show False using assms by simp
  qed
  then show thesis using that lq by (auto simp: node_ok_def)
qed

lemma max_root_neq: "max_root \<noteq> - 1" "- 1 \<noteq> max_root"
proof -
  have "\<not> bit max_root 63" by (simp add: max_root_def bit_simps)
  moreover have "bit (- 1 :: u64) 63" by (simp add: bit_simps)
  ultimately show "max_root \<noteq> - 1" by metis
  then show "- 1 \<noteq> max_root" by simp
qed

lemma drop_bit_node:
  assumes "node_ok l q"
  shows "drop_bit (Suc l) (node l q) = q"
proof (rule bit_word_eqI)
  fix n assume "n < LENGTH(64)"
  have "Suc (l + n) < 64" if "bit q n" using node_ok_bits [OF assms that] by simp
  then show "bit (drop_bit (Suc l) (node l q)) n = bit q n" by (auto simp: bit_node bit_simps)
qed

definition postorder_of :: "position \<Rightarrow> u64" where
  "postorder_of p = of_nat (postorder (position_level p) (unat (drop_bit (Suc (position_level p)) p)))"

lemma postorder_of_position:
  assumes "p \<notin> {- 1, max_root}"
  shows "to_postorder_index p = Ok (postorder_of p)" "postorder_of p \<notin> {- 1, - 2}"
    "from_postorder_index (postorder_of p) = Ok p"
proof -
  obtain l q where lq: "node_ok l q" "l < 63" "p = node l q" using node_of_position [OF assms] .
  have "postorder_of p = of_nat (postorder l (unat q))"
    using lq by (simp add: postorder_of_def level_node drop_bit_node)
  note eq = this lq(3)
  show "to_postorder_index p = Ok (postorder_of p)" unfolding eq(1) unfolding eq(2) by (rule postorder_round_trip [OF lq(1,2)])
  show "postorder_of p \<notin> {- 1, - 2}" unfolding eq(1) by (rule postorder_round_trip [OF lq(1,2)])
  show "from_postorder_index (postorder_of p) = Ok p" unfolding eq(1) unfolding eq(2) by (rule postorder_round_trip [OF lq(1,2)])
qed

lemma postorder_of_range: "postorder_of ` (UNIV - {- 1, max_root}) = UNIV - {- 1, - 2}"
proof (rule card_subset_eq)
  let ?A = "UNIV - {- 1, max_root} :: u64 set"
  show "postorder_of ` ?A \<subseteq> UNIV - {- 1, - 2}"
  proof (rule image_subsetI)
    fix p assume "p \<in> ?A"
    then have "p \<notin> {- 1, max_root}" by simp
    then show "postorder_of p \<in> UNIV - {- 1, - 2}" by (rule DiffI [OF UNIV_I postorder_of_position(2)])
  qed
  have "inj_on postorder_of ?A"
  proof (rule inj_onI)
    fix x y assume xy: "x \<in> ?A" "y \<in> ?A" "postorder_of x = postorder_of y"
    have x: "from_postorder_index (postorder_of x) = Ok x" by (rule postorder_of_position(3)) (use xy(1) in simp)
    have "from_postorder_index (postorder_of y) = Ok y" by (rule postorder_of_position(3)) (use xy(2) in simp)
    with x have "Ok x = (Ok y :: (anyhow_error, position) outcome)" unfolding xy(3) by (rule trans [OF sym])
    then show "x = y" by (rule outcome.inject(1) [THEN iffD1])
  qed
  then have "card (postorder_of ` ?A) = card ?A" by (rule card_image)
  also have "\<dots> = card (UNIV :: u64 set) - card {- 1, max_root}" by (rule card_Diff_subset) auto
  also have "card {- 1, max_root} = card {- 1, - 2 :: u64}" using max_root_neq by simp
  also have "card (UNIV :: u64 set) - card {- 1, - 2 :: u64} = card (UNIV - {- 1, - 2 :: u64})"
    by (rule card_Diff_subset [symmetric]) auto
  finally show "card (postorder_of ` ?A) = card (UNIV - {- 1, - 2 :: u64})" .
qed simp

lemma postorder_inverse:
  assumes "n \<notin> {- 1, - 2}"
  obtains p where "p \<notin> {- 1, max_root}" "n = postorder_of p"
proof -
  have "n \<in> postorder_of ` (UNIV - {- 1, max_root})" using assms by (simp add: postorder_of_range)
  then show thesis using that by blast
qed

text \<open>The order is the post-order: a node comes right after its right child, whose subtree comes right after the left one.\<close>

lemma popcount_shift:
  "card {j. j < Suc m \<and> bit (2 * Q + (if b then 1 else 0 :: nat)) j} = (if b then 1 else 0) + card {j. j < m \<and> bit Q j}"
proof -
  have "{j. j < Suc m \<and> bit (2 * Q + (if b then 1 else 0 :: nat)) j} =
      (if b then {0} else {}) \<union> Suc ` {j. j < m \<and> bit Q j}"
    by (auto simp: image_iff bit_double_iff bit_0 even_bit_succ_iff less_Suc_eq_0_disj bit_Suc split: if_splits)
  then show ?thesis by (auto simp: card_image card_insert_if)
qed

lemma postorder_children:
  assumes "Suc l < 63" "Q < 2 ^ (62 - l)"
  shows "postorder (Suc l) Q = Suc (postorder l (2 * Q + 1)) \<and> postorder (Suc l) Q = postorder l (2 * Q) + 2 ^ Suc l"
proof -
  define c where "c = card {j. j < 62 - l \<and> bit Q j}"
  have k: "63 - l = Suc (62 - l)" "63 - Suc l = 62 - l" using assms(1) by simp_all
  have pw: "(2 :: nat) ^ (63 - l) = 2 * 2 ^ (62 - l)" unfolding k by simp
  have tb: "take_bit (62 - l) Q = Q" "take_bit (63 - l) (2 * Q) = 2 * Q" "take_bit (63 - l) (2 * Q + 1) = 2 * Q + 1"
    using assms(2) by (auto intro!: take_bit_nat_eq_self simp: pw)
  have a: "left_nodes (Suc l) Q (62 - l) + c = Q * 2 ^ Suc (Suc l)"
    using left_nodes_eq [of "Suc l" Q "62 - l"] by (simp only: c_def tb)
  have b: "left_nodes l (2 * Q + 1) (63 - l) + (1 + c) = (2 * Q + 1) * 2 ^ Suc l"
    using left_nodes_eq [of l "2 * Q + 1" "63 - l"] popcount_shift [of "62 - l" Q True, folded k(1)]
    by (simp only: tb c_def if_True)
  have d: "left_nodes l (2 * Q) (63 - l) + c = 2 * Q * 2 ^ Suc l"
    using left_nodes_eq [of l "2 * Q" "63 - l"] popcount_shift [of "62 - l" Q False, folded k(1)]
    by (simp only: tb c_def if_False add_0_right add_0_left)
  have e: "Q * 2 ^ Suc (Suc l) = 2 * Q * 2 ^ Suc l" "(2 * Q + 1) * 2 ^ Suc l = 2 * Q * 2 ^ Suc l + 2 ^ Suc l"
    "(2 :: nat) ^ Suc (Suc l) = 2 * 2 ^ Suc l" "(2 :: nat) \<le> 2 ^ Suc l" by (simp_all add: algebra_simps)
  show ?thesis using a b d e unfolding postorder_def k(2) by linarith
qed

section \<open>Highest set bits\<close>

lemma smear_step:
  assumes "\<And>i. bit n i \<longleftrightarrow> (\<exists>j<m. bit v (i + j))"
  shows "bit (n OR drop_bit m n) i \<longleftrightarrow> (\<exists>j<2 * m. bit (v :: u64) (i + j))"
proof -
  have "(\<exists>j<2 * m. bit v (i + j)) \<longleftrightarrow> (\<exists>j<m. bit v (i + j)) \<or> (\<exists>j<m. bit v (m + i + j))"
  proof
    assume "\<exists>j<2 * m. bit v (i + j)"
    then obtain j where j: "j < 2 * m" "bit v (i + j)" by blast
    show "(\<exists>j<m. bit v (i + j)) \<or> (\<exists>j<m. bit v (m + i + j))"
    proof (cases "j < m")
      case False
      then have "j - m < m" "m + i + (j - m) = i + j" using j(1) by auto
      then show ?thesis using j(2) by metis
    qed (use j in blast)
  next
    assume "(\<exists>j<m. bit v (i + j)) \<or> (\<exists>j<m. bit v (m + i + j))"
    then show "\<exists>j<2 * m. bit v (i + j)"
    proof
      assume "\<exists>j<m. bit v (m + i + j)"
      then obtain j where "j < m" "bit v (m + i + j)" by blast
      then show ?thesis by (intro exI [of _ "m + j"]) (simp add: ac_simps)
    qed (metis less_le_trans mult_2 le_add1)
  qed
  then show ?thesis using assms by (auto simp: bit_simps)
qed

lemma bit_smear: "bit (smear_ones_for_u64 v) i \<longleftrightarrow> (\<exists>j<64. bit v (i + j))"
proof -
  define n1 where "n1 = v OR drop_bit 1 v"
  define n2 where "n2 = n1 OR drop_bit 2 n1"
  define n3 where "n3 = n2 OR drop_bit 4 n2"
  define n4 where "n4 = n3 OR drop_bit 8 n3"
  define n5 where "n5 = n4 OR drop_bit 16 n4"
  have "bit n1 i \<longleftrightarrow> (\<exists>j<2. bit v (i + j))" for i unfolding n1_def using smear_step [of v 1 v i] by simp
  then have "bit n2 i \<longleftrightarrow> (\<exists>j<4. bit v (i + j))" for i unfolding n2_def using smear_step [of n1 2 v i] by simp
  then have "bit n3 i \<longleftrightarrow> (\<exists>j<8. bit v (i + j))" for i unfolding n3_def using smear_step [of n2 4 v i] by simp
  then have "bit n4 i \<longleftrightarrow> (\<exists>j<16. bit v (i + j))" for i unfolding n4_def using smear_step [of n3 8 v i] by simp
  then have "bit n5 i \<longleftrightarrow> (\<exists>j<32. bit v (i + j))" for i unfolding n5_def using smear_step [of n4 16 v i] by simp
  then have "bit (n5 OR drop_bit 32 n5) i \<longleftrightarrow> (\<exists>j<64. bit v (i + j))" using smear_step [of n5 32 v i] by simp
  then show ?thesis
    unfolding smear_ones_for_u64_def Let_def n1_def [symmetric] n2_def [symmetric] n3_def [symmetric] n4_def [symmetric]
      n5_def [symmetric] .
qed

lemma highest_bit:
  assumes "(w :: u64) \<noteq> 0"
  obtains m where "m < 64" "bit w m" "\<And>i. m < i \<Longrightarrow> \<not> bit w i"
proof -
  let ?S = "{i. bit w i}"
  have fin: "finite ?S" by (rule finite_subset [of _ "{..<64}"]) (auto dest: bit_imp_le_length)
  have "?S \<noteq> {}" using assms by (auto simp: bit_eq_iff)
  then have "Max ?S \<in> ?S" using fin by (rule Max_in [rotated])
  moreover have "i \<le> Max ?S" if "bit w i" for i using fin that by (intro Max_ge) auto
  ultimately show thesis
    by (intro that [of "Max ?S"]) (auto dest: bit_imp_le_length simp: not_le [symmetric])
qed

lemma highest_bit_bounds:
  assumes "bit w m" "\<And>i. m < i \<Longrightarrow> \<not> bit (w :: u64) i"
  shows "2 ^ m \<le> unat w" "unat w < 2 ^ Suc m"
proof -
  have m: "m < 64" using bit_imp_le_length [OF assms(1)] by simp
  have "take_bit (Suc m) (unat w) = unat w"
    using assms(2) by (intro bit_eqI) (auto simp: bit_simps bit_unsigned_iff less_Suc_eq_le not_le dest: leI)
  then show "unat w < 2 ^ Suc m" by (metis take_bit_nat_less_exp)
  have "bit (unat w) m" using assms(1) m by (simp add: bit_unsigned_iff)
  then have "odd (unat w div 2 ^ m)" by (simp add: bit_iff_odd)
  then have "unat w div 2 ^ m \<noteq> 0" by (metis even_zero)
  then show "2 ^ m \<le> unat w" by (simp add: div_eq_0_iff not_less)
qed

lemma smear_highest:
  assumes "bit v m" "\<And>i. m < i \<Longrightarrow> \<not> bit v i"
  shows "drop_bit 1 (smear_ones_for_u64 v) = mask m"
proof (rule bit_word_eqI)
  fix i assume "i < LENGTH(64)"
  have m: "m < 64" using bit_imp_le_length [OF assms(1)] by simp
  have "(\<exists>j<64. bit v (Suc i + j)) \<longleftrightarrow> i < m"
  proof
    assume "i < m"
    then show "\<exists>j<64. bit v (Suc i + j)" using assms(1) m by (intro exI [of _ "m - Suc i"]) simp
  next
    assume "\<exists>j<64. bit v (Suc i + j)"
    then obtain j where "bit v (Suc i + j)" by blast
    then have "\<not> m < Suc i + j" using assms(2) by blast
    then show "i < m" by simp
  qed
  then show "bit (drop_bit 1 (smear_ones_for_u64 v)) i = bit (mask m :: u64) i"
    using m by (auto simp: bit_drop_bit_eq bit_smear bit_simps)
qed

lemma leading_zeros_highest:
  assumes "bit v m" "\<And>i. m < i \<Longrightarrow> \<not> bit v i"
  shows "leading_zeros v = 63 - m"
proof -
  have m: "m < 64" using bit_imp_le_length [OF assms(1)] by simp
  have "[0..<64] = [0..<m] @ m # [Suc m..<64]" using m upt_add_eq_append [of 0 m "64 - m"] upt_conv_Cons [of m 64] by simp
  then have "takeWhile (\<lambda>i. \<not> bit v i) (rev [0..<64]) =
      takeWhile (\<lambda>i. \<not> bit v i) (rev [Suc m..<64] @ m # rev [0..<m])" by simp
  also have "\<dots> = rev [Suc m..<64] @ takeWhile (\<lambda>i. \<not> bit v i) (m # rev [0..<m])"
    using assms(2) by (intro takeWhile_append2) auto
  also have "\<dots> = rev [Suc m..<64]" using assms(1) by simp
  finally show ?thesis using m by (simp add: leading_zeros_def)
qed

section \<open>The iterators over frozen subtrees\<close>

text \<open>\<open>Iterator::collect\<close>; \<open>None\<close> is an iterator that does not end.\<close>

partial_function (option) collect_iter ::
    "('s \<Rightarrow> (anyhow_error, ('a \<times> 's) option) outcome) \<Rightarrow> 's \<Rightarrow> (anyhow_error, 'a list) outcome option" where
  "collect_iter next_item s =
     (case next_item s of
        Ok None \<Rightarrow> Some (Ok [])
      | Ok (Some (a, s')) \<Rightarrow> Option.bind (collect_iter next_item s') (\<lambda>r. Some (and_then r (\<lambda>l. Ok (a # l))))
      | Err e \<Rightarrow> Some (Err e)
      | Panic \<Rightarrow> Some Panic)"

text \<open>The indices of the leaves below a position.\<close>

definition leaf_range :: "position \<Rightarrow> nat list" where
  "leaf_range p =
     (let l = position_level p; q = unat (drop_bit (Suc l) p) in [q * 2 ^ l..<Suc q * 2 ^ l])"

lemma leaf_range_node: "node_ok l q \<Longrightarrow> leaf_range (node l q) = [unat q * 2 ^ l..<Suc (unat q) * 2 ^ l]"
  by (simp add: leaf_range_def Let_def level_node drop_bit_node node_ok_def [of l q, THEN iffD1])

text \<open>The root of a perfect subtree of \<open>2 ^ m\<close> leaves that starts at the aligned leaf \<open>s\<close>.\<close>

lemma aligned_node:
  assumes "m < 64" "2 ^ m dvd s" "s + 2 ^ m \<le> 2 ^ 63"
  shows "\<exists>q. node_ok m q \<and> unat q * 2 ^ m = s \<and> Suc (unat (node m q)) = 2 * s + 2 ^ m"
proof -
  obtain k where k: "s = 2 ^ m * k" using assms(2) by (elim dvdE)
  have "(k + 1) * 2 ^ m \<le> 2 ^ (63 - m) * 2 ^ m"
    using assms(1,3) k by (simp add: algebra_simps flip: power_add)
  then have "k + 1 \<le> 2 ^ (63 - m)" by (simp only: mult_le_cancel2) simp
  moreover have "(2 :: nat) ^ (63 - m) \<le> 2 ^ 63" by (rule power_increasing) simp_all
  ultimately have q: "unat (of_nat k :: u64) = k" "k < 2 ^ (63 - m)" by (auto intro!: unat_of_nat_u64)
  then have ok: "node_ok m (of_nat k)" using assms(1) by (simp add: node_ok_def)
  show ?thesis using ok unat_node [OF ok] q(1) k by (intro exI [of _ "of_nat k"]) (simp add: algebra_simps)
qed

lemma from_leaf_index_Ok: "from_leaf_index i = Ok (push_bit 1 i)"
  using from_level_and_pos_node [of 0 i] by (simp add: from_leaf_index_def node_def)

lemma unat_leaf: "unat i < 2 ^ 63 \<Longrightarrow> unat (push_bit 1 i :: u64) = 2 * unat i"
  by (subst unat_push_bit) simp_all

definition fsi_ok :: "frozen_subtree_iterator \<Rightarrow> bool" where
  "fsi_ok s =
     (unat (fsi_seen_leaves s) + unat (fsi_bitmap s) \<le> 2 ^ 63 \<and>
      (\<forall>m. bit (fsi_bitmap s) m \<longrightarrow> 2 ^ m dvd unat (fsi_seen_leaves s)))"

lemma clear_highest:
  assumes "bit w m"
  shows "unat (w AND NOT (push_bit m 1) :: u64) = unat w - 2 ^ m"
proof -
  have m: "m < 64" using bit_imp_le_length [OF assms] by simp
  have "(w AND NOT (push_bit m 1)) + push_bit m 1 = (w AND NOT (push_bit m 1)) OR push_bit m 1"
    by (rule disjunctive_add) (auto simp: bit_simps)
  also have "\<dots> = w" using assms by (intro bit_word_eqI) (auto simp: bit_simps)
  finally have eq: "w AND NOT (push_bit m 1) = w - push_bit m 1" by (simp add: algebra_simps)
  have "push_bit m 1 \<le> w"
  proof -
    have "odd (unat w div 2 ^ m)" using assms m by (simp add: bit_iff_odd [symmetric] bit_unsigned_iff)
    then have "unat w div 2 ^ m \<noteq> 0" by (metis even_zero)
    then show ?thesis using m by (simp add: word_le_nat_alt unat_push_bit_one div_eq_0_iff not_less)
  qed
  then show ?thesis using m unfolding eq by (simp add: unat_sub unat_push_bit_one)
qed

lemma frozen_subtree_next_step:
  assumes ok: "fsi_ok s" and m: "bit (fsi_bitmap s) m" "\<And>i. m < i \<Longrightarrow> \<not> bit (fsi_bitmap s) i"
  obtains q s' where "frozen_subtree_next s = Ok (Some (node m q, s'))" "node_ok m q"
    "unat q * 2 ^ m = unat (fsi_seen_leaves s)" "unat (fsi_seen_leaves s') = unat (fsi_seen_leaves s) + 2 ^ m"
    "unat (fsi_bitmap s') = unat (fsi_bitmap s) - 2 ^ m" "fsi_bitmap s' = fsi_bitmap s AND NOT (push_bit m 1)" "fsi_ok s'"
proof -
  let ?b = "fsi_bitmap s" and ?s = "fsi_seen_leaves s"
  have lt: "m < 64" using bit_imp_le_length [OF m(1)] by simp
  have size: "2 ^ m \<le> unat ?b" "unat ?s + unat ?b \<le> 2 ^ 63" "2 ^ m dvd unat ?s"
    using highest_bit_bounds(1) [OF m] ok m(1) by (auto simp: fsi_ok_def)
  obtain q where q: "node_ok m q" "unat q * 2 ^ m = unat ?s" "Suc (unat (node m q)) = 2 * unat ?s + 2 ^ m"
    using aligned_node [OF lt size(3)] size by auto
  define s' where "s' = \<lparr>fsi_bitmap = ?b AND NOT (push_bit m 1), fsi_seen_leaves = of_nat (unat ?s + 2 ^ m)\<rparr>"
  have mask: "unat (mask m :: u64) = 2 ^ m - 1" using lt by (intro mask_nat) simp
  have one: "add_panic (mask m) 1 = Ok (push_bit m 1 :: u64)"
    using lt mask by (intro panic_arith(2)) (simp add: unat_push_bit_one)
  have root: "add_panic (push_bit 1 ?s) (mask m) = Ok (node m q)"
  proof (rule panic_arith(2))
    have "(1 :: nat) \<le> 2 ^ m" by simp
    then have "unat ?s < 2 ^ 63" using size by linarith
    then show "unat (node m q) = unat (push_bit 1 ?s) + unat (mask m :: u64)"
      using q(3) mask unfolding unat_leaf [OF \<open>unat ?s < 2 ^ 63\<close>] by simp
  qed
  have fit: "unat ?s + 2 ^ m < 2 ^ 64" using size by simp
  then have seen: "add_panic ?s (push_bit m 1) = Ok (of_nat (unat ?s + 2 ^ m))"
    using lt by (intro panic_arith(2)) (simp only: unat_of_nat_u64 unat_push_bit_one)
  have "?b \<noteq> 0" using m(1) by auto
  then have "frozen_subtree_next s = Ok (Some (node m q, s'))"
    by (simp add: frozen_subtree_next_def Let_def smear_highest [OF m, simplified] one from_leaf_index_Ok [simplified] root [simplified] seen s'_def
        del: of_nat_add)
  moreover have seen': "unat (fsi_seen_leaves s') = unat ?s + 2 ^ m" using fit by (simp add: s'_def unat_of_nat_u64 del: of_nat_add)
  moreover have bm': "unat (fsi_bitmap s') = unat ?b - 2 ^ m" by (simp add: s'_def clear_highest [OF m(1)])
  moreover have "2 ^ k dvd unat ?s + 2 ^ m" if "bit (fsi_bitmap s') k" for k
  proof -
    have "k < m" using that m(2) [of k] by (cases k m rule: linorder_cases) (auto simp: s'_def bit_simps)
    then have "(2 :: nat) ^ k dvd 2 ^ m" by (simp add: le_imp_power_dvd)
    then show ?thesis using size(3) by (meson dvd_add dvd_trans)
  qed
  ultimately have "fsi_ok s'" using size by (simp add: fsi_ok_def)
  then show thesis
    using that [OF \<open>frozen_subtree_next s = _\<close> q(1,2) seen' bm'] by (simp add: s'_def)
qed

lemma frozen_subtrees_cover:
  assumes "fsi_ok s"
  shows "\<exists>ps. collect_iter frozen_subtree_next s = Some (Ok ps) \<and>
    concat (map leaf_range ps) = [unat (fsi_seen_leaves s)..<unat (fsi_seen_leaves s) + unat (fsi_bitmap s)] \<and>
    sorted_wrt (>) (map position_level ps) \<and> (\<forall>l\<in>position_level ` set ps. bit (fsi_bitmap s) l)"
  using assms
proof (induction "unat (fsi_bitmap s)" arbitrary: s rule: less_induct)
  case less
  show ?case
  proof (cases "fsi_bitmap s = 0")
    case True
    then show ?thesis by (simp add: collect_iter.simps [of _ s] frozen_subtree_next_def)
  next
    case False
    then obtain m where m: "m < 64" "bit (fsi_bitmap s) m" "\<And>i. m < i \<Longrightarrow> \<not> bit (fsi_bitmap s) i"
      by (rule highest_bit) blast
    obtain q s' where st: "frozen_subtree_next s = (Ok (Some (node m q, s')) :: (anyhow_error, _) outcome)" "node_ok m q"
        "unat q * 2 ^ m = unat (fsi_seen_leaves s)" "unat (fsi_seen_leaves s') = unat (fsi_seen_leaves s) + 2 ^ m"
        "unat (fsi_bitmap s') = unat (fsi_bitmap s) - 2 ^ m" "fsi_bitmap s' = fsi_bitmap s AND NOT (push_bit m 1)" "fsi_ok s'"
      using frozen_subtree_next_step [OF less.prems m(2,3)] by blast
    have b: "2 ^ m \<le> unat (fsi_bitmap s)" using highest_bit_bounds(1) [OF m(2,3)] .
    have "unat (fsi_bitmap s') < unat (fsi_bitmap s)"
      using b st(5) zero_less_power [of "2 :: nat" m] by linarith
    from less.hyps [OF this st(7)] obtain ps where ps: "collect_iter frozen_subtree_next s' = Some (Ok ps)"
        "concat (map leaf_range ps) = [unat (fsi_seen_leaves s')..<unat (fsi_seen_leaves s') + unat (fsi_bitmap s')]"
        "sorted_wrt (>) (map position_level ps)" "\<And>l. l \<in> position_level ` set ps \<Longrightarrow> bit (fsi_bitmap s') l"
      by blast
    have lower: "l < m \<and> bit (fsi_bitmap s) l" if "bit (fsi_bitmap s') l" for l
      using that m(3) [of l] unfolding st(6) by (cases l m rule: linorder_cases) (auto simp: bit_simps)
    have "collect_iter frozen_subtree_next s = Some (Ok (node m q # ps))"
      using st(1) ps(1) by (simp add: collect_iter.simps [of _ s])
    moreover have "concat (map leaf_range (node m q # ps)) =
        [unat (fsi_seen_leaves s)..<unat (fsi_seen_leaves s) + unat (fsi_bitmap s)]"
    proof -
      have "leaf_range (node m q) = [unat (fsi_seen_leaves s)..<unat (fsi_seen_leaves s) + 2 ^ m]"
        using leaf_range_node [OF st(2)] st(3) by (simp add: algebra_simps)
      then show ?thesis
        using ps(2) st(4,5) b upt_add_eq_append [of "unat (fsi_seen_leaves s)" "unat (fsi_seen_leaves s) + 2 ^ m" "unat (fsi_bitmap s) - 2 ^ m"]
        by simp
    qed
    moreover have "sorted_wrt (>) (map position_level (node m q # ps))"
      using ps(3,4) lower level_node [OF m(1), of q] by auto
    moreover have "\<forall>l\<in>position_level ` set (node m q # ps). bit (fsi_bitmap s) l"
      using ps(4) lower level_node [OF m(1), of q] m(2) by auto
    ultimately show ?thesis by blast
  qed
qed

text \<open>The subtrees to be appended.\<close>

lemma next_new_leaf_batch_Ok:
  assumes "bit (fss_remaining_new_leaves s) m" "\<And>i. m < i \<Longrightarrow> \<not> bit (fss_remaining_new_leaves s) i"
  shows "next_new_leaf_batch s = Ok (push_bit m 1)"
  using leading_zeros_highest [OF assms] bit_imp_le_length [OF assms(1)]
  by (simp add: next_new_leaf_batch_def Let_def max_accumulator_proof_depth_def shl_panic_def)

lemma trailing_zeros_dvd:
  assumes "(w :: u64) \<noteq> 0"
  shows "2 ^ trailing_zeros w dvd unat w"
proof -
  have "\<And>i. i < trailing_zeros w \<Longrightarrow> \<not> bit w i" using trailing_zeros_props [OF assms] by blast
  then have "take_bit (trailing_zeros w) (unat w) = 0"
    by (intro bit_eqI) (auto simp: bit_simps bit_unsigned_iff)
  then show ?thesis by (simp add: take_bit_eq_0_iff)
qed

lemma bit_length_highest:
  assumes "2 ^ m \<le> n" "n < 2 ^ Suc m"
  shows "bit_length n = Suc m"
proof -
  have "0 < n" using assms(1) by (metis less_le_trans zero_less_numeral zero_less_power)
  note b = bit_length_bounds [OF this]
  have "(2 :: nat) ^ (bit_length n - 1) < 2 ^ Suc m" "(2 :: nat) ^ m < 2 ^ bit_length n"
    using b assms by linarith+
  then show ?thesis by (simp del: power_Suc)
qed

lemma sibling_batch:
  assumes "fss_remaining_new_leaves s \<noteq> 0"
  obtains k where "k = next_subtree_level (unat (fss_current_num_leaves s)) (unat (fss_remaining_new_leaves s))"
    "k < 64" "2 ^ k \<le> unat (fss_remaining_new_leaves s)" "2 ^ k dvd unat (fss_current_num_leaves s)"
    "(if fss_current_num_leaves s > 0
      then and_then (shl_panic 1 (trailing_zeros (fss_current_num_leaves s))) (\<lambda>rightmost.
             if fss_remaining_new_leaves s \<ge> rightmost then Ok rightmost else next_new_leaf_batch s)
      else next_new_leaf_batch s) = Ok (push_bit k 1)"
proof -
  let ?c = "fss_current_num_leaves s" and ?r = "fss_remaining_new_leaves s"
  obtain m where m: "m < 64" "bit ?r m" "\<And>i. m < i \<Longrightarrow> \<not> bit ?r i" using highest_bit [OF assms] by blast
  note batch = next_new_leaf_batch_Ok [OF m(2,3)]
  have mr: "2 ^ m \<le> unat ?r" using highest_bit_bounds(1) [OF m(2,3)] .
  have len: "bit_length (unat ?r) - 1 = m" using bit_length_highest [OF highest_bit_bounds [OF m(2,3)]] by simp
  show thesis
  proof (cases "?c = 0")
    case True
    then show thesis using that [of m] m(1) mr batch len by (simp add: next_subtree_level_def)
  next
    case False
    define t where "t = trailing_zeros ?c"
    have f: "factor_two (unat ?c) = t" "0 < unat ?c"
      using False by (simp_all add: t_def trailing_zeros_factor_two unat_gt_0)
    have t: "t < 64" "2 ^ t dvd unat ?c" using trailing_zeros_props [OF False] trailing_zeros_dvd [OF False] by (auto simp: t_def)
    have pos: "?c > 0" using False by (simp add: word_greater_zero_iff)
    show thesis
    proof (cases "push_bit t 1 \<le> ?r")
      case True
      then have "2 ^ t \<le> unat ?r" using t(1) by (simp add: word_le_nat_alt unat_push_bit_one)
      then show thesis using that [of t] t pos True f by (simp add: t_def [symmetric] shl_panic_def next_subtree_level_def)
    next
      case False
      then have "unat ?r < 2 ^ t" using t(1) by (simp add: word_le_nat_alt unat_push_bit_one)
      then have "(2 :: nat) ^ m < 2 ^ t" using mr by (rule le_less_trans [rotated])
      then have "m \<le> t" by simp
      then have "2 ^ m dvd unat ?c" using t(2) by (meson dvd_trans le_imp_power_dvd)
      then show thesis using that [of m] m(1) mr t(1) pos False batch f len \<open>unat ?r < 2 ^ t\<close>
        by (simp add: t_def [symmetric] shl_panic_def next_subtree_level_def)
    qed
  qed
qed

lemma frozen_subtree_sibling_next_step:
  assumes ok: "unat (fss_current_num_leaves s) + unat (fss_remaining_new_leaves s) \<le> 2 ^ 63"
    and r: "fss_remaining_new_leaves s \<noteq> 0"
  obtains k q s' where "frozen_subtree_sibling_next s = (Ok (Some (node k q, s')) :: ('e, _) outcome)" "node_ok k q"
    "unat q * 2 ^ k = unat (fss_current_num_leaves s)" "2 ^ k \<le> unat (fss_remaining_new_leaves s)"
    "unat (fss_current_num_leaves s') = unat (fss_current_num_leaves s) + 2 ^ k"
    "unat (fss_remaining_new_leaves s') = unat (fss_remaining_new_leaves s) - 2 ^ k"
    "k = next_subtree_level (unat (fss_current_num_leaves s)) (unat (fss_remaining_new_leaves s))"
proof -
  let ?c = "fss_current_num_leaves s" and ?r = "fss_remaining_new_leaves s"
  obtain k where level: "k = next_subtree_level (unat ?c) (unat ?r)" and k: "k < 64" "2 ^ k \<le> unat ?r" "2 ^ k dvd unat ?c"
    "(if ?c > 0
      then and_then (shl_panic 1 (trailing_zeros ?c)) (\<lambda>rightmost.
             if ?r \<ge> rightmost then Ok rightmost else next_new_leaf_batch s)
      else next_new_leaf_batch s) = (Ok (push_bit k 1) :: ('e, u64) outcome)"
    using sibling_batch [OF r] by blast
  obtain q where q: "node_ok k q" "unat q * 2 ^ k = unat ?c" "Suc (unat (node k q)) = 2 * unat ?c + 2 ^ k"
    using aligned_node [OF k(1,3)] ok k(2) by auto
  let ?e = "unat ?c + 2 ^ k"
  have one: "(1 :: nat) \<le> 2 ^ k" by simp
  have e: "?e \<le> 2 ^ 63" "unat ?r \<le> 2 ^ 63" using ok k(2) by linarith+
  have "(2 :: nat) ^ 63 < 2 ^ 64" by simp
  then have fit: "?e < 2 ^ 64" "?e - 1 < 2 ^ 64" "unat ?r - 2 ^ k < 2 ^ 64"
    using e diff_le_self [of ?e 1] diff_le_self [of "unat ?r" "2 ^ k"] by linarith+
  have a: "add_panic ?c (push_bit k 1) = Ok (of_nat ?e)"
    using fit k(1) by (intro panic_arith(2)) (simp only: unat_of_nat_u64 unat_push_bit_one)
  have b: "sub_panic (of_nat ?e) 1 = Ok (of_nat (?e - 1) :: u64)"
    using fit one by (intro panic_arith(1)) (simp only: unat_of_nat_u64, simp)
  have c: "sub_panic ?r (push_bit k 1) = Ok (of_nat (unat ?r - 2 ^ k))"
    using fit k(1,2) by (intro panic_arith(1)) (simp only: unat_of_nat_u64 unat_push_bit_one)
  have "unat (of_nat (?e - 1) :: u64) = ?e - 1" using fit(2) by (rule unat_of_nat_u64)
  then have d: "add_panic ?c (of_nat (?e - 1)) = Ok (node k q)"
    using q(3) one by (intro panic_arith(2)) linarith
  define s' where "s' = \<lparr>fss_current_num_leaves = of_nat ?e, fss_remaining_new_leaves = of_nat (unat ?r - 2 ^ k)\<rparr>"
  have "frozen_subtree_sibling_next s = (Ok (Some (node k q, s')) :: ('e, _) outcome)"
    using r k(4) unfolding frozen_subtree_sibling_next_def by (simp only: Let_def if_False and_then.simps a b c d s'_def)
  moreover have "unat (fss_current_num_leaves s') = ?e" "unat (fss_remaining_new_leaves s') = unat ?r - 2 ^ k"
    unfolding s'_def frozen_subtree_sibling_iterator.simps using fit by (simp_all only: unat_of_nat_u64)
  ultimately show thesis using that q(1,2) k(2) level by blast
qed

lemma frozen_subtree_siblings_cover:
  assumes "unat (fss_current_num_leaves s) + unat (fss_remaining_new_leaves s) \<le> 2 ^ 63"
  shows "\<exists>ps. collect_iter frozen_subtree_sibling_next s = Some (Ok ps) \<and>
    concat (map leaf_range ps) =
      [unat (fss_current_num_leaves s)..<unat (fss_current_num_leaves s) + unat (fss_remaining_new_leaves s)]"
  using assms
proof (induction "unat (fss_remaining_new_leaves s)" arbitrary: s rule: less_induct)
  case less
  let ?c = "unat (fss_current_num_leaves s)" and ?r = "unat (fss_remaining_new_leaves s)"
  show ?case
  proof (cases "fss_remaining_new_leaves s = 0")
    case True
    then show ?thesis by (simp add: collect_iter.simps [of _ s] frozen_subtree_sibling_next_def)
  next
    case False
    obtain k q s' where st: "frozen_subtree_sibling_next s = (Ok (Some (node k q, s')) :: (anyhow_error, _) outcome)"
        "node_ok k q" "unat q * 2 ^ k = ?c" "2 ^ k \<le> ?r" "unat (fss_current_num_leaves s') = ?c + 2 ^ k"
        "unat (fss_remaining_new_leaves s') = ?r - 2 ^ k"
      using frozen_subtree_sibling_next_step [OF less.prems False] by blast
    have "unat (fss_remaining_new_leaves s') < ?r"
      using st(4,6) zero_less_power [of "2 :: nat" k] by linarith
    moreover have "unat (fss_current_num_leaves s') + unat (fss_remaining_new_leaves s') \<le> 2 ^ 63"
      using less.prems st(4-6) by linarith
    ultimately obtain ps where ps: "collect_iter frozen_subtree_sibling_next s' = Some (Ok ps)"
        "concat (map leaf_range ps) = [?c + 2 ^ k..<?c + 2 ^ k + (?r - 2 ^ k)]"
      using less.hyps [of s'] unfolding st(5,6) by blast
    have "leaf_range (node k q) = [?c..<?c + 2 ^ k]"
      using leaf_range_node [OF st(2)] st(3) by (simp add: algebra_simps)
    then have "concat (map leaf_range (node k q # ps)) = [?c..<?c + ?r]"
      using ps(2) st(4) upt_add_eq_append [of ?c "?c + 2 ^ k" "?r - 2 ^ k"] by simp
    moreover have "collect_iter frozen_subtree_sibling_next s = Some (Ok (node k q # ps))"
      using st(1) ps(1) by (simp add: collect_iter.simps [of _ s])
    ultimately show ?thesis by blast
  qed
qed

section \<open>Roots and frozen nodes\<close>

lemma root_from_leaf_index_node:
  assumes "unat i < 2 ^ 63"
  shows "root_from_leaf_index i = Ok (node (tree_height (Suc (unat i))) 0)"
proof (cases "i = 0")
  case True
  have "smear_ones_for_u64 0 = 0" by (intro bit_word_eqI) (simp add: bit_smear)
  then show ?thesis using True
    by (simp add: root_from_leaf_index_def from_leaf_index_Ok [simplified] node_def tree_height.simps)
next
  case False
  obtain m where m: "m < 64" "bit i m" "\<And>j. m < j \<Longrightarrow> \<not> bit i j" using highest_bit [OF False] by blast
  note b = highest_bit_bounds [OF m(2,3)]
  have "(2 :: nat) ^ m < 2 ^ 63" using b(1) assms by (rule le_less_trans)
  then have m63: "m < 63" by (rule power_less_imp_less_exp [rotated]) simp
  have "drop_bit 1 (smear_ones_for_u64 (push_bit 1 i)) = mask (Suc m)"
  proof (rule smear_highest)
    show "bit (push_bit 1 i) (Suc m)" using m(2) m63 by (simp add: bit_simps)
    show "\<not> bit (push_bit 1 i) j" if "Suc m < j" for j using m(3) [of "j - 1"] that by (auto simp: bit_simps)
  qed
  moreover have "tree_height (Suc (unat i)) = Suc m"
  proof (rule tree_height_eqI)
    show "Suc (unat i) \<le> 2 ^ Suc m" using b(2) by (rule Suc_leI)
    show "Suc m = 0 \<or> 2 ^ (Suc m - 1) < Suc (unat i)" using b(1) by simp
  qed
  ultimately show ?thesis
    by (simp add: root_from_leaf_index_def from_leaf_index_Ok [simplified] node_def)
qed

lemma unat_one: "unat (1 :: u64) = 1"
  by simp

lemma right_most_child_node:
  assumes "node_ok l q"
  shows "\<exists>r. right_most_child (node l q) = (Ok r :: ('e, u64) outcome) \<and> Suc (Suc (unat r)) = 2 * (Suc (unat q) * 2 ^ l)"
proof -
  have l: "l < 64" using assms by (simp add: node_ok_def)
  let ?n = "unat (node l q)"
  have n: "Suc ?n = unat q * 2 ^ Suc l + 2 ^ l" by (rule unat_node [OF assms])
  have size: "Suc (unat q) * 2 ^ Suc l \<le> 2 ^ 64" by (rule node_size_bound [OF assms])
  have e: "unat q * 2 ^ Suc l = 2 * (unat q * 2 ^ l)" "Suc (unat q) * 2 ^ Suc l = 2 * (unat q * 2 ^ l) + 2 * 2 ^ l"
    "2 * (Suc (unat q) * 2 ^ l) = 2 * (unat q * 2 ^ l) + 2 * 2 ^ l" "(1 :: nat) \<le> 2 ^ l" by simp_all
  have fit: "?n + 2 ^ l < 2 ^ 64" "?n + 2 ^ l - 1 < 2 ^ 64" using n size e by linarith+
  have u: "unat (of_nat (?n + 2 ^ l) :: u64) = ?n + 2 ^ l" "unat (of_nat (?n + 2 ^ l - 1) :: u64) = ?n + 2 ^ l - 1"
    using fit by (simp_all only: unat_of_nat_u64)
  have "add_panic (node l q) (push_bit l 1) = (Ok (of_nat (?n + 2 ^ l)) :: ('e, u64) outcome)"
    using l u(1) by (intro panic_arith(2)) (simp only: unat_push_bit_one)
  moreover have "sub_panic (of_nat (?n + 2 ^ l)) 1 = (Ok (of_nat (?n + 2 ^ l - 1)) :: ('e, u64) outcome)"
    using u e(4) unat_one by (intro panic_arith(1)) linarith
  ultimately have "right_most_child (node l q) = (Ok (of_nat (?n + 2 ^ l - 1)) :: ('e, u64) outcome)"
    using l by (simp only: right_most_child_def level_node [OF l] shl_panic_def if_True and_then.simps)
  then show ?thesis using u(2) n e by (intro exI [of _ "of_nat (?n + 2 ^ l - 1)"]) linarith
qed

lemma is_freezable_node:
  assumes "node_ok l q" "unat i < 2 ^ 63"
  shows "is_freezable (node l q) i = Ok (Suc (unat q) * 2 ^ l \<le> Suc (unat i))"
proof -
  obtain r where r: "right_most_child (node l q) = (Ok r :: ('a, u64) outcome)" "Suc (Suc (unat r)) = 2 * (Suc (unat q) * 2 ^ l)"
    using right_most_child_node [OF assms(1)] by blast
  have "r \<le> push_bit 1 i \<longleftrightarrow> Suc (unat q) * 2 ^ l \<le> Suc (unat i)"
    using r(2) unfolding word_le_nat_alt unat_leaf [OF assms(2)] by linarith
  then show ?thesis using r(1) by (simp add: is_freezable_def from_leaf_index_Ok [simplified])
qed

lemma unat_of_postorder:
  assumes "node_ok l q" "l < 63"
  shows "unat (of_nat (postorder l (unat q)) :: u64) = postorder l (unat q)"
  using postorder_bound [OF assms] by (simp add: unat_of_nat take_bit_nat_eq_self)

lemma node_ok_children:
  assumes "node_ok (Suc l) q"
  shows "node_ok l (push_bit 1 q)" "l < 63" "node_ok l (push_bit 1 q OR 1)" "l < 63"
    "unat (push_bit 1 q) = 2 * unat q" "unat (push_bit 1 q OR 1) = 2 * unat q + 1"
proof -
  have l: "l < 63" and q: "unat q < 2 ^ (62 - l)" using assms by (simp_all add: node_ok_def)
  have "(2 :: nat) ^ Suc (62 - l) \<le> 2 ^ 63" by (intro power_increasing) simp_all
  then have half: "2 * unat q + 1 < 2 ^ 63" using q by simp
  then have *: "unat (push_bit 1 q) = 2 * unat q"
    by (simp add: push_bit_eq_mult unat_word_ariths)
  have "push_bit 1 q OR 1 = push_bit 1 q + 1" by (rule disjunctive_add [symmetric]) (auto simp: bit_simps)
  then have **: "unat (push_bit 1 q OR 1) = 2 * unat q + 1" using * half by (simp add: unat_word_ariths)
  have "63 - l = Suc (62 - l)" using l by simp
  then show "node_ok l (push_bit 1 q)" "node_ok l (push_bit 1 q OR 1)" using l q * ** by (simp_all add: node_ok_def)
  show "l < 63" "l < 63" by (rule l)+
  show "unat (push_bit 1 q) = 2 * unat q" by (rule *)
  show "unat (push_bit 1 q OR 1) = 2 * unat q + 1" by (rule **)
qed

section \<open>Properties\<close>

text \<open>
  C31: Positions and post-order indices determine each other.  Every position but the unused index
  \<open>2 ^ 64 - 1\<close> and the root of the tree of height 63 converts to a post-order index and back to itself;
  every post-order index below \<open>2 ^ 64 - 2\<close> converts to such a position and back to itself.
\<close>
theorem postorder_inorder_round_trip:
  "(p \<notin> {- 1, max_root} \<longrightarrow>
      (\<exists>n. to_postorder_index p = Ok n \<and> n \<notin> {- 1, - 2} \<and> from_postorder_index n = Ok p)) \<and>
   (n \<notin> {- 1, - 2} \<longrightarrow>
      (\<exists>p. from_postorder_index n = Ok p \<and> p \<notin> {- 1, max_root} \<and> to_postorder_index p = Ok n))"
  using postorder_of_position [of p] postorder_inverse [of n] postorder_of_position by metis

theorem postorder_inorder_round_trip_witness:
  "\<exists>n. to_postorder_index 4 = Ok n \<and> n \<notin> {- 1, - 2} \<and> from_postorder_index n = Ok 4"
proof -
  have "(4 :: u64) \<notin> {- 1, max_root}" by (simp add: max_root_def mask_eq_exp_minus_1)
  then show ?thesis using postorder_inorder_round_trip [of 4] by blast
qed

text \<open>
  C32: The conversion is the post-order of the tree.  An inner node of level \<open>l\<close> is numbered right after its
  right child and \<open>2 ^ l\<close> places after its left child, which leaves exactly the \<open>2 ^ l - 1\<close> places of the
  right subtree between the two: both subtrees come before the node, the left one first.
\<close>
theorem postorder_numbers_children_first:
  assumes "p \<notin> {- 1, max_root}" "\<not> is_leaf p"
  shows "\<exists>a b n m k. left_child p = Ok a \<and> right_child p = Ok b \<and>
    to_postorder_index p = Ok n \<and> to_postorder_index b = Ok m \<and> to_postorder_index a = Ok k \<and>
    unat n = Suc (unat m) \<and> unat n = unat k + 2 ^ position_level p"
proof -
  obtain l q where lq: "node_ok (Suc l) q" "Suc l < 63" "p = node (Suc l) q"
    using node_of_position [OF assms(1)] assms(2) is_leaf_node by (metis not0_implies_Suc node_ok_def)
  have Q: "unat q < 2 ^ (62 - l)" using lq(1) by (simp add: node_ok_def)
  note kids = node_ok_children [OF lq(1)]
  note number = postorder_round_trip(1) [OF lq(1,2)] postorder_round_trip(1) [OF kids(1,2)] postorder_round_trip(1) [OF kids(3,4)]
  note size = unat_of_postorder [OF lq(1,2)] unat_of_postorder [OF kids(1,2)] unat_of_postorder [OF kids(3,4)]
  show ?thesis
    using lq(2) size kids(5,6) postorder_children [OF lq(2) Q] unfolding lq(3)
    by (simp add: left_child_node [simplified] right_child_node [simplified] level_node number [simplified] del: power_Suc)
qed

theorem postorder_numbers_children_first_witness:
  "\<exists>a b n m k. left_child 3 = Ok a \<and> right_child 3 = Ok b \<and>
    to_postorder_index 3 = Ok n \<and> to_postorder_index b = Ok m \<and> to_postorder_index a = Ok k \<and>
    unat n = Suc (unat m) \<and> unat n = unat k + 2 ^ position_level 3"
  by (rule postorder_numbers_children_first)
    (simp_all add: max_root_def mask_eq_exp_minus_1 is_leaf_def)

text \<open>
  C29: For an accumulator of at most \<open>2 ^ 63\<close> leaves the iterator over its frozen subtrees ends.  The
  subtrees it yields contain each leaf exactly once, in order, and are of strictly decreasing height: they
  are the full subtrees of the binary representation of the number of leaves.
\<close>
theorem frozen_subtrees_partition_leaves:
  assumes "n \<le> max_accumulator_leaves"
  shows "\<exists>ps. collect_iter frozen_subtree_next (frozen_subtree_iterator_new n) = Some (Ok ps) \<and>
    concat (map leaf_range ps) = [0..<unat n] \<and> sorted_wrt (>) (map position_level ps)"
proof -
  have "unat n \<le> 2 ^ 63" using assms by (simp add: max_accumulator_leaves_def word_le_nat_alt unat_push_bit_one)
  then show ?thesis
    using frozen_subtrees_cover [of "frozen_subtree_iterator_new n"]
    by (auto simp: fsi_ok_def frozen_subtree_iterator_new_def)
qed

theorem frozen_subtrees_partition_leaves_witness:
  "\<exists>ps. collect_iter frozen_subtree_next (frozen_subtree_iterator_new 5) = Some (Ok ps) \<and>
    concat (map leaf_range ps) = [0..<unat (5 :: leaf_count)] \<and> sorted_wrt (>) (map position_level ps)"
  by (rule frozen_subtrees_partition_leaves) (simp add: max_accumulator_leaves_def push_bit_of_1)

text \<open>
  C30: The iterator over the subtrees that extend an accumulator from \<open>current\<close> to \<open>new\<close> leaves ends, and the
  subtrees it yields contain exactly the new leaves, each once and in order.
\<close>
theorem frozen_subtree_siblings_partition_new_leaves:
  assumes "frozen_subtree_sibling_iterator_new current new = Ok s"
  shows "\<exists>ps. collect_iter frozen_subtree_sibling_next s = Some (Ok ps) \<and>
    concat (map leaf_range ps) = [unat current..<unat new]"
proof -
  have s: "new \<le> max_accumulator_leaves" "current \<le> new" "s = \<lparr>fss_current_num_leaves = current, fss_remaining_new_leaves = new - current\<rparr>"
    using assms by (auto simp: frozen_subtree_sibling_iterator_new_def outcome_simps)
  have "unat (new - current) = unat new - unat current" "unat current \<le> unat new" "unat new \<le> 2 ^ 63"
    using s by (simp_all add: unat_sub max_accumulator_leaves_def word_le_nat_alt unat_push_bit_one)
  then show ?thesis using frozen_subtree_siblings_cover [of s] s(3) by simp
qed

theorem frozen_subtree_siblings_partition_new_leaves_witness:
  "\<exists>ps. collect_iter frozen_subtree_sibling_next \<lparr>fss_current_num_leaves = 5, fss_remaining_new_leaves = 6\<rparr> = Some (Ok ps) \<and>
    concat (map leaf_range ps) = [unat (5 :: leaf_count)..<unat (11 :: leaf_count)]"
  by (rule frozen_subtree_siblings_partition_new_leaves)
    (simp add: frozen_subtree_sibling_iterator_new_def max_accumulator_leaves_def push_bit_of_1)

end
