(* ===== verification/Accumulator_Proofs.thy ===== *)
theory Accumulator_Proofs
  imports In_Memory_Accumulator
begin

text \<open>
  The accumulator proofs of \<open>src/types/src/proof/definition.rs\<close>: the inclusion proof
  \<open>AccumulatorProof\<close> and the summary \<open>TransactionAccumulatorSummary\<close> that a light client extends
  with an \<open>AccumulatorConsistencyProof\<close>.  A proof struct with one field is its list of hashes.
\<close>

section \<open>Inclusion proofs\<close>

type_synonym accumulator_proof = "hash_value list"

text \<open>The closure folded over the siblings, and the fold.\<close>

definition proof_step :: "node_hasher \<Rightarrow> hash_value \<times> u64 \<Rightarrow> hash_value \<Rightarrow> hash_value \<times> u64" where
  "proof_step mh state sibling =
     (case state of (h, i) \<Rightarrow> (if i mod 2 = 0 then mh h sibling else mh sibling h, i div 2))"

definition accumulator_proof_verify ::
    "node_hasher \<Rightarrow> accumulator_proof \<Rightarrow> hash_value \<Rightarrow> hash_value \<Rightarrow> u64 \<Rightarrow> (anyhow_error, unit) outcome" where
  "accumulator_proof_verify mh siblings expected_root_hash element_hash element_index =
     and_then (ensure (length siblings \<le> max_accumulator_proof_depth)
       (Msg ''Accumulator proof has too many siblings.'')) (\<lambda>_.
     ensure (fst (foldl (proof_step mh) (element_hash, element_index) siblings) = expected_root_hash)
       (Msg ''Root hashes do not match.''))"

section \<open>Accumulator summaries\<close>

type_synonym transaction_accumulator_summary = in_memory_accumulator
type_synonym accumulator_consistency_proof = "hash_value list"

definition summary_new ::
    "in_memory_accumulator \<Rightarrow> (anyhow_error, transaction_accumulator_summary) outcome" where
  "summary_new acc =
     and_then (ensure (\<not> accumulator_is_empty acc) (Msg ''empty accumulator'')) (\<lambda>_. Ok acc)"

definition verify_consistency ::
    "transaction_accumulator_summary \<Rightarrow> ledger_info \<Rightarrow> (anyhow_error, unit) outcome" where
  "verify_consistency acc li =
     and_then (ensure (li_version li = accumulator_version acc)
       (Msg ''ledger info and accumulator must be at the same version'')) (\<lambda>_.
     ensure (transaction_accumulator_hash li = root_hash acc)
       (Msg ''ledger info root hash and accumulator root hash must match''))"

definition try_from_genesis_proof ::
    "node_hasher \<Rightarrow> accumulator_consistency_proof \<Rightarrow> version \<Rightarrow>
     (anyhow_error, transaction_accumulator_summary) outcome" where
  "try_from_genesis_proof mh genesis_proof target_version =
     accumulator_new mh genesis_proof (saturating_add target_version 1)"

definition try_extend_with_proof ::
    "node_hasher \<Rightarrow> transaction_accumulator_summary \<Rightarrow> accumulator_consistency_proof \<Rightarrow> ledger_info \<Rightarrow>
     (anyhow_error, transaction_accumulator_summary) outcome" where
  "try_extend_with_proof mh acc consistency_proof target_li =
     and_then (ensure (li_version target_li \<ge> accumulator_version acc)
       (Msg ''target ledger info version must be newer'')) (\<lambda>_.
     and_then (sub_panic (li_version target_li) (accumulator_version acc)) (\<lambda>num_new_txns.
     and_then (append_subtrees mh acc consistency_proof num_new_txns) (\<lambda>new_accumulator.
     and_then (anyhow_context ''accumulator is not consistent with the target ledger info''
       (verify_consistency new_accumulator target_li)) (\<lambda>_.
     Ok new_accumulator))))"

section \<open>Extension proofs\<close>

record accumulator_extension_proof =
  aep_frozen_subtree_roots :: "hash_value list"
  aep_num_leaves :: leaf_count
  aep_leaves :: "hash_value list"

definition extension_proof_verify ::
    "node_hasher \<Rightarrow> accumulator_extension_proof \<Rightarrow> hash_value \<Rightarrow>
     (anyhow_error, in_memory_accumulator) outcome" where
  "extension_proof_verify mh p original_root =
     and_then (accumulator_new mh (aep_frozen_subtree_roots p) (aep_num_leaves p)) (\<lambda>original_tree.
     and_then (ensure (root_hash original_tree = original_root) (Msg ''Root hashes do not match.'')) (\<lambda>_.
     accumulator_append mh original_tree (aep_leaves p)))"

section \<open>The reference proof of a leaf\<close>

text \<open>The siblings on the path from leaf \<open>i\<close> of the tree of height \<open>k\<close>, bottom level first.\<close>

primrec reference_siblings :: "node_hasher \<Rightarrow> nat \<Rightarrow> hash_value list \<Rightarrow> nat \<Rightarrow> hash_value list" where
  "reference_siblings mh 0 leaves i = []"
| "reference_siblings mh (Suc k) leaves i =
     (if i < 2 ^ k
      then reference_siblings mh k (take (2 ^ k) leaves) i @ [merkle mh k (drop (2 ^ k) leaves)]
      else reference_siblings mh k (drop (2 ^ k) leaves) (i - 2 ^ k) @ [merkle mh k (take (2 ^ k) leaves)])"




section \<open>Lemmas\<close>

lemma snd_fold_proof_step: "unat (snd (foldl (proof_step mh) (h, i) sibs)) = unat i div 2 ^ length sibs"
proof (induction sibs arbitrary: h i)
  case (Cons s sibs)
  have "unat (i div 2) = unat i div 2" by (simp add: unat_div)
  with Cons show ?case by (simp add: proof_step_def div_mult2_eq)
qed simp

lemma fold_proof_step_snoc:
  "fst (foldl (proof_step mh) (h, i) (sibs @ [s])) =
     (let h' = fst (foldl (proof_step mh) (h, i) sibs)
      in if even (unat i div 2 ^ length sibs) then mh h' s else mh s h')"
proof -
  obtain h' i' where f: "foldl (proof_step mh) (h, i) sibs = (h', i')" by fastforce
  then have "unat i' = unat i div 2 ^ length sibs" using snd_fold_proof_step [of mh h i sibs] by simp
  moreover have "i' mod 2 = 0 \<longleftrightarrow> even (unat i')"
    by (simp add: word_unat_eq_iff unat_mod even_iff_mod_2_eq_zero)
  ultimately show ?thesis by (simp add: f proof_step_def)
qed

lemma length_reference_siblings [simp]: "length (reference_siblings mh k leaves i) = k"
  by (induction k arbitrary: leaves i) auto

lemma bit_of_index:
  fixes n :: nat
  assumes "j = n mod 2 ^ Suc k"
  shows "even (n div 2 ^ k) \<longleftrightarrow> j < 2 ^ k"
    and "n mod 2 ^ k = (if j < 2 ^ k then j else j - 2 ^ k)"
proof -
  have j: "j = 2 ^ k * (n div 2 ^ k mod 2) + n mod 2 ^ k"
    using assms by (simp only: power_Suc2 mod_mult2_eq)
  have lt: "n mod 2 ^ k < 2 ^ k" by simp
  have "even (n div 2 ^ k) \<and> j = n mod 2 ^ k \<or> odd (n div 2 ^ k) \<and> j = 2 ^ k + n mod 2 ^ k"
    unfolding j by (cases "even (n div 2 ^ k)") (simp_all only: even_iff_mod_2_eq_zero odd_iff_mod_2_eq_one, simp_all)
  with lt show "even (n div 2 ^ k) \<longleftrightarrow> j < 2 ^ k"
    and "n mod 2 ^ k = (if j < 2 ^ k then j else j - 2 ^ k)" by auto
qed

lemma reference_proof_folds_to_root:
  "j = unat i mod 2 ^ k \<Longrightarrow> j < length leaves \<Longrightarrow> length leaves \<le> 2 ^ k \<Longrightarrow>
   fst (foldl (proof_step mh) (leaves ! j, i) (reference_siblings mh k leaves j)) = merkle mh k leaves"
proof (induction k arbitrary: leaves j)
  case 0
  then obtain x where "leaves = [x]" by (cases leaves) auto
  with 0 show ?case by simp
next
  case (Suc k)
  from Suc.prems have ne: "leaves \<noteq> []" by auto
  note b = bit_of_index [OF Suc.prems(1)]
  show ?case
  proof (cases "j < 2 ^ k")
    case True
    with Suc.IH [of j "take (2 ^ k) leaves"] Suc.prems b
    have "fst (foldl (proof_step mh) (leaves ! j, i) (reference_siblings mh k (take (2 ^ k) leaves) j)) =
        merkle mh k (take (2 ^ k) leaves)" by simp
    with True b show ?thesis
      by (simp add: fold_proof_step_snoc merkle_Suc_nonempty [OF ne] del: foldl_append)
  next
    case False
    with Suc.IH [of "j - 2 ^ k" "drop (2 ^ k) leaves"] Suc.prems b
    have "fst (foldl (proof_step mh) (leaves ! j, i)
          (reference_siblings mh k (drop (2 ^ k) leaves) (j - 2 ^ k))) =
        merkle mh k (drop (2 ^ k) leaves)" by simp
    with False b show ?thesis
      by (simp add: fold_proof_step_snoc merkle_Suc_nonempty [OF ne] del: foldl_append)
  qed
qed





lemma accumulator_proof_verify_Ok:
  "accumulator_proof_verify mh sibs root h i = Ok u \<longleftrightarrow>
     length sibs \<le> 63 \<and> fst (foldl (proof_step mh) (h, i) sibs) = root"
  by (auto simp: accumulator_proof_verify_def max_accumulator_proof_depth_def outcome_simps)

lemma accumulator_version_of:
  assumes "leaves \<noteq> []" "length leaves < 2 ^ 64"
  shows "unat (accumulator_version (accumulator_of mh leaves)) = length leaves - 1"
proof -
  have u: "unat (of_nat (length leaves) :: u64) = length leaves" using assms by (intro unat_length)
  with assms(1) have "(of_nat (length leaves) :: u64) \<noteq> 0" by (metis length_0_conv unsigned_0)
  moreover from this have "1 \<le> (of_nat (length leaves) :: u64)"
    by (simp add: word_le_nat_alt u Suc_le_eq assms(1))
  ultimately show ?thesis by (simp add: accumulator_version_def unat_sub u)
qed

section \<open>Correctness\<close>



text \<open>
  C27: inclusion proofs are complete.  The siblings on the path from a leaf of the tree make
  \<open>AccumulatorProof::verify\<close> accept that leaf at its index.
\<close>

theorem accumulator_proof_complete:
  assumes "unat index < length leaves" "length leaves \<le> 2 ^ 63"
  shows "accumulator_proof_verify mh
    (reference_siblings mh (tree_height (length leaves)) leaves (unat index))
    (merkle_root mh leaves) (leaves ! unat index) index = Ok ()"
proof -
  let ?k = "tree_height (length leaves)"
  note h = tree_height_props [of "length leaves"]
  have "unat index = unat index mod 2 ^ ?k" using h assms(1) by simp
  from reference_proof_folds_to_root [OF this assms(1), of mh] h
  have "fst (foldl (proof_step mh) (leaves ! unat index, index)
      (reference_siblings mh ?k leaves (unat index))) = merkle_root mh leaves"
    by (simp add: merkle_root_def)
  moreover have "?k \<le> 63"
  proof (rule ccontr)
    assume "\<not> ?k \<le> 63"
    then have "(2 :: nat) ^ 63 \<le> 2 ^ (?k - 1)" by (intro power_increasing) auto
    with h assms(2) \<open>\<not> ?k \<le> 63\<close> show False by linarith
  qed
  ultimately show ?thesis by (simp add: accumulator_proof_verify_Ok)
qed

theorem accumulator_proof_complete_witness:
  "accumulator_proof_verify (\<lambda>a b. 2 * a + 3 * b)
     (reference_siblings (\<lambda>a b. 2 * a + 3 * b) (tree_height (length [10, 20, 30 :: hash_value])) [10, 20, 30] (unat (2 :: u64)))
     (merkle_root (\<lambda>a b. 2 * a + 3 * b) [10, 20, 30]) ([10, 20, 30] ! unat (2 :: u64)) 2 = Ok ()"
  by (rule accumulator_proof_complete) simp_all

text \<open>
  C28: a light client that holds the summary of a ledger accepts the honest consistency proof for any
  extension of it: the result is the summary of the extended ledger.
\<close>

theorem try_extend_with_proof_complete:
  assumes "leaves \<noteq> []" "length leaves + length new_leaves \<le> 2 ^ 63"
    and "unat (li_version target) = length leaves + length new_leaves - 1"
    and "transaction_accumulator_hash target = merkle_root mh (leaves @ new_leaves)"
  shows "try_extend_with_proof mh (accumulator_of mh leaves)
    (sibling_subtrees mh (length leaves) new_leaves) target =
    Ok (accumulator_of mh (leaves @ new_leaves))"
proof -
  let ?v = "accumulator_version (accumulator_of mh leaves)"
  have v: "unat ?v = length leaves - 1"
    using assms(1,2) by (intro accumulator_version_of) simp_all
  have v': "accumulator_version (accumulator_of mh (leaves @ new_leaves)) = li_version target"
    using assms accumulator_version_of [of "leaves @ new_leaves" mh]
    by (simp add: word_unat_eq_iff)
  have new: "unat (of_nat (length new_leaves) :: u64) = length new_leaves"
    using assms(2) by (intro unat_length) simp
  have ge: "?v \<le> li_version target"
    using v assms by (simp add: word_le_nat_alt)
  have "0 < length leaves" using assms(1) by simp
  then have sub: "sub_panic (li_version target) ?v = Ok (of_nat (length new_leaves))"
    unfolding sub_panic_eq_Ok checked_sub_iff v new assms(3) by linarith
  show ?thesis
    using v' ge assms(4) append_subtrees_reference [OF assms(2), of mh]
    by (simp add: try_extend_with_proof_def sub verify_consistency_def anyhow_context_def)
qed

theorem try_extend_with_proof_complete_witness:
  "try_extend_with_proof (\<lambda>a b. 2 * a + 3 * b) (accumulator_of (\<lambda>a b. 2 * a + 3 * b) [10])
     (sibling_subtrees (\<lambda>a b. 2 * a + 3 * b) (length [10 :: hash_value]) [20, 30])
     \<lparr>commit_info = block_info_empty\<lparr>bi_version := 2,
        bi_executed_state_id := merkle_root (\<lambda>a b. 2 * a + 3 * b) ([10] @ [20, 30])\<rparr>,
      consensus_data_hash = 0\<rparr> =
   Ok (accumulator_of (\<lambda>a b. 2 * a + 3 * b) ([10] @ [20, 30]))"
  by (rule try_extend_with_proof_complete) (simp_all add: li_accessors)

end
