(* ===== verification/Storage_Accumulator.thy ===== *)
theory Storage_Accumulator
  imports Tree_Position Accumulator_Proofs
begin

text \<open>
  \<open>src/storage/accumulator/src/lib.rs\<close>: the Merkle accumulator whose frozen nodes are kept in storage,
  and \<open>AccumulatorRangeProof\<close> of \<open>src/types/src/proof/definition.rs\<close>.  The storage is the parameter
  \<open>reader\<close> (the trait \<open>HashReader\<close>): the hash at a position, or an error.  \<open>stored\<close> says that a reader holds
  the frozen nodes of a list of leaves.  The theorems relate the answers of the accumulator to the
  reference tree over the leaves and to the verifiers of the proofs it hands out: appending leaves keeps
  the storage complete and returns the root, and every inclusion, range and consistency proof is accepted
  (\<open>Storage_Accumulator_Proofs\<close>).
\<close>

section \<open>Reading the accumulator\<close>

type_synonym hash_reader = "position \<Rightarrow> (anyhow_error, hash_value) outcome"

lemma and_then_cong [fundef_cong]:
  "m = m' \<Longrightarrow> (\<And>a. m' = Ok a \<Longrightarrow> f a = g a) \<Longrightarrow> and_then m f = and_then m' g"
  by (cases m') simp_all

definition rightmost_leaf_index :: "leaf_count \<Rightarrow> ('e, u64) outcome" where
  "rightmost_leaf_index n = sub_panic n 1"

lemma position_level_max: "position_level (- 1) = 64"
  by (simp add: position_level_def trailing_zeros_def takeWhile_eq_all_conv [THEN iffD2])

lemma is_freezable_max: "is_freezable (- 1) i \<noteq> Ok b"
  by (auto simp: is_freezable_def right_most_child_def shl_panic_def position_level_max outcome_simps)

lemma children_level:
  assumes "p \<noteq> - 1" "left_child p = (Ok a :: ('e, position) outcome) \<or> right_child p = (Ok a :: ('e, position) outcome)"
  shows "position_level a < position_level p"
proof -
  obtain l q where lq: "node_ok l q" "p = node l q" using node_exhaust [OF assms(1)] .
  have "\<not> is_leaf p" using assms(2) by (auto simp: left_child_def right_child_def outcome_simps)
  then obtain k where k: "l = Suc k" "k < 63"
    using lq is_leaf_node [of l q] by (cases l) (auto simp: node_ok_def)
  then have "position_level p = Suc k" using lq level_node [of l q] by (simp add: node_ok_def)
  moreover have "\<exists>q'. a = node k q'" using assms(2) k(2) unfolding lq(2) k(1)
    by (auto simp: left_child_node [simplified] right_child_node [simplified])
  ultimately show ?thesis using k level_node by auto
qed

function get_hash ::
    "node_hasher \<Rightarrow> hash_reader \<Rightarrow> leaf_count \<Rightarrow> position \<Rightarrow> (anyhow_error, hash_value) outcome" where
  "get_hash mh reader n p =
     and_then (rightmost_leaf_index n) (\<lambda>idx.
     and_then (is_placeholder p idx) (\<lambda>placeholder.
     if placeholder then Ok accumulator_placeholder_hash
     else and_then (is_freezable p idx) (\<lambda>freezable.
     if freezable then reader p
     else and_then (left_child p) (\<lambda>left.
          and_then (get_hash mh reader n left) (\<lambda>left_hash.
          and_then (right_child p) (\<lambda>right.
          and_then (get_hash mh reader n right) (\<lambda>right_hash.
          Ok (mh left_hash right_hash))))))))"
  by pat_completeness auto
termination
proof (relation "measure (\<lambda>(_, _, _, p). position_level p)")
  fix mh :: node_hasher and reader :: hash_reader and n p idx fz lf
  assume "is_freezable p idx = (Ok fz :: (anyhow_error, bool) outcome)" "left_child p = (Ok lf :: (anyhow_error, position) outcome)"
  then show "((mh, reader, n, lf), mh, reader, n, p) \<in> measure (\<lambda>(_, _, _, p). position_level p)"
    using children_level [of p lf] is_freezable_max [of idx fz] by auto
next
  fix mh :: node_hasher and reader :: hash_reader and n p idx fz lf
  assume "is_freezable p idx = (Ok fz :: (anyhow_error, bool) outcome)" "right_child p = (Ok lf :: (anyhow_error, position) outcome)"
  then show "((mh, reader, n, lf), mh, reader, n, p) \<in> measure (\<lambda>(_, _, _, p). position_level p)"
    using children_level [of p lf] is_freezable_max [of idx fz] by auto
qed simp

declare get_hash.simps [simp del]

primrec get_hashes ::
    "node_hasher \<Rightarrow> hash_reader \<Rightarrow> leaf_count \<Rightarrow> position list \<Rightarrow> (anyhow_error, hash_value list) outcome" where
  "get_hashes mh reader n [] = Ok []"
| "get_hashes mh reader n (p # ps) =
     and_then (get_hash mh reader n p) (\<lambda>h.
     and_then (get_hashes mh reader n ps) (\<lambda>hs. Ok (h # hs)))"

definition get_root_hash :: "node_hasher \<Rightarrow> hash_reader \<Rightarrow> leaf_count \<Rightarrow> (anyhow_error, hash_value) outcome" where
  "get_root_hash mh reader n = and_then (root_from_leaf_count n) (get_hash mh reader n)"

section \<open>Proofs of inclusion, of ranges and of consistency\<close>

text \<open>\<open>iter_ancestor_sibling().take(k)\<close>.\<close>

primrec take_ancestor_siblings :: "nat \<Rightarrow> position \<Rightarrow> position list" where
  "take_ancestor_siblings 0 p = []"
| "take_ancestor_siblings (Suc k) p =
     (case ancestor_sibling_next p of (item, p') \<Rightarrow> item # take_ancestor_siblings k p')"

definition get_sibling_positions ::
    "leaf_count \<Rightarrow> u64 \<Rightarrow> (position \<Rightarrow> bool) \<Rightarrow> ('e, position list) outcome" where
  "get_sibling_positions n leaf_index flt =
     and_then (root_from_leaf_count n) (\<lambda>root_pos.
     and_then (from_leaf_index leaf_index) (\<lambda>leaf.
     Ok (filter flt (take_ancestor_siblings (position_level root_pos) leaf))))"

definition get_siblings ::
    "node_hasher \<Rightarrow> hash_reader \<Rightarrow> leaf_count \<Rightarrow> u64 \<Rightarrow> (position \<Rightarrow> bool) \<Rightarrow> (anyhow_error, hash_value list) outcome" where
  "get_siblings mh reader n leaf_index flt =
     and_then (get_sibling_positions n leaf_index flt) (get_hashes mh reader n)"

definition get_proof ::
    "node_hasher \<Rightarrow> hash_reader \<Rightarrow> leaf_count \<Rightarrow> u64 \<Rightarrow> (anyhow_error, accumulator_proof) outcome" where
  "get_proof mh reader n leaf_index =
     and_then (ensure (leaf_index < n) (Msg ''invalid leaf_index'')) (\<lambda>_.
     get_siblings mh reader n leaf_index (\<lambda>_. True))"

record accumulator_range_proof =
  left_siblings :: "hash_value list"
  right_siblings :: "hash_value list"

definition get_range_proof_positions ::
    "leaf_count \<Rightarrow> u64 option \<Rightarrow> leaf_count \<Rightarrow> (anyhow_error, position list \<times> position list) outcome" where
  "get_range_proof_positions n first_leaf_index num =
     (case first_leaf_index of
        None \<Rightarrow>
          and_then (ensure (num = 0) (Msg ''num_leaves is not zero while first_leaf_index is None.'')) (\<lambda>_.
          Ok ([], []))
      | Some first \<Rightarrow>
          and_then (ensure (num > 0) (Msg ''num_leaves is zero while first_leaf_index is not None.'')) (\<lambda>_.
          and_then (ok_or (checked_add first (num - 1)) (Msg ''Requesting too many leaves.'')) (\<lambda>last_leaf_index.
          and_then (ensure (last_leaf_index < n) (Msg ''Invalid last_leaf_index'')) (\<lambda>_.
          and_then (get_sibling_positions n first is_left_child) (\<lambda>lefts.
          and_then (get_sibling_positions n last_leaf_index is_right_child) (\<lambda>rights.
          Ok (lefts, rights)))))))"

definition get_range_proof ::
    "node_hasher \<Rightarrow> hash_reader \<Rightarrow> leaf_count \<Rightarrow> u64 option \<Rightarrow> leaf_count \<Rightarrow>
     (anyhow_error, accumulator_range_proof) outcome" where
  "get_range_proof mh reader n first_leaf_index num =
     and_then (get_range_proof_positions n first_leaf_index num) (\<lambda>(lefts, rights).
     and_then (get_hashes mh reader n lefts) (\<lambda>ls.
     and_then (get_hashes mh reader n rights) (\<lambda>rs.
     Ok \<lparr>left_siblings = ls, right_siblings = rs\<rparr>)))"

text \<open>\<open>iter.map(|p| self.reader.get(p)).collect()\<close>; \<open>None\<close> is an iterator that does not end.\<close>

partial_function (option) collect_read ::
    "hash_reader \<Rightarrow> ('s \<Rightarrow> (anyhow_error, (position \<times> 's) option) outcome) \<Rightarrow> 's \<Rightarrow>
     (anyhow_error, hash_value list) outcome option" where
  "collect_read reader next_item s =
     (case next_item s of
        Ok None \<Rightarrow> Some (Ok [])
      | Ok (Some (p, s')) \<Rightarrow>
          (case reader p of
             Ok h \<Rightarrow> Option.bind (collect_read reader next_item s') (\<lambda>r. Some (and_then r (\<lambda>l. Ok (h # l))))
           | Err e \<Rightarrow> Some (Err e)
           | Panic \<Rightarrow> Some Panic)
      | Err e \<Rightarrow> Some (Err e)
      | Panic \<Rightarrow> Some Panic)"

definition get_consistency_proof ::
    "hash_reader \<Rightarrow> leaf_count \<Rightarrow> leaf_count \<Rightarrow> (anyhow_error, accumulator_consistency_proof) outcome option" where
  "get_consistency_proof reader n sub_acc_leaves =
     (case and_then (ensure (sub_acc_leaves \<le> n)
             (Msg ''Can't get accumulator consistency proof for a version newer than the local version.'')) (\<lambda>_.
           frozen_subtree_sibling_iterator_new sub_acc_leaves n) of
        Ok s \<Rightarrow> collect_read reader frozen_subtree_sibling_next s
      | Err e \<Rightarrow> Some (Err e)
      | Panic \<Rightarrow> Some Panic)"

definition get_frozen_subtree_hashes ::
    "hash_reader \<Rightarrow> leaf_count \<Rightarrow> (anyhow_error, hash_value list) outcome option" where
  "get_frozen_subtree_hashes reader n =
     collect_read reader frozen_subtree_next (frozen_subtree_iterator_new n)"

section \<open>Appending leaves\<close>

text \<open>
  The vector \<open>left_siblings\<close> of \<open>append\<close> is a stack; its top is the head of the list here.
  \<open>pair_with_left\<close> is the \<open>match left_siblings.pop()\<close> that both loops of \<open>append\<close> have.
\<close>

type_synonym frozen_node = "position \<times> hash_value"

definition pair_with_left ::
    "node_hasher \<Rightarrow> hash_reader \<Rightarrow> position \<Rightarrow> hash_value \<Rightarrow> frozen_node list \<Rightarrow>
     (anyhow_error, hash_value \<times> frozen_node list) outcome" where
  "pair_with_left mh reader pos h lefts =
     (case lefts of
        (x, left_hash) # rest \<Rightarrow>
          and_then (assert_panic (x = sibling pos)) (\<lambda>_. Ok (mh left_hash h, rest))
      | [] \<Rightarrow> and_then (reader (sibling pos)) (\<lambda>left_hash. Ok (mh left_hash h, [])))"

lemma right_child_level:
  assumes "is_right_child p"
  shows "position_level p < 63" "position_level (parent p) = Suc (position_level p)"
proof -
  have "p \<noteq> - 1" using assms by (auto simp: is_right_child_def is_left_child_def isolate_rightmost_zero_bit_def)
  then obtain l q where lq: "node_ok l q" "p = node l q" by (rule node_exhaust)
  have "l \<noteq> 63"
  proof
    assume l: "l = 63"
    have "push_bit 1 (push_bit 63 1) = (0 :: u64)"
      by (intro bit_word_eqI) (simp only: bit_push_bit_iff bit_1_iff bit_0_eq, auto)
    then show False using assms isolate_node [of 63 q]
      unfolding is_right_child_def is_left_child_def lq(2) l by (simp only: bit.conj_zero_right)
  qed
  then have "l < 63" using lq(1) by (simp add: node_ok_def)
  then show "position_level p < 63" "position_level (parent p) = Suc (position_level p)"
    unfolding lq(2) by (simp_all add: level_node parent_node)
qed

function freeze_parents ::
    "node_hasher \<Rightarrow> hash_reader \<Rightarrow> position \<Rightarrow> hash_value \<Rightarrow> frozen_node list \<Rightarrow> frozen_node list \<Rightarrow>
     (anyhow_error, position \<times> hash_value \<times> frozen_node list \<times> frozen_node list) outcome" where
  "freeze_parents mh reader pos h lefts to_freeze =
     (if is_right_child pos
      then and_then (pair_with_left mh reader pos h lefts) (\<lambda>(h, lefts).
           freeze_parents mh reader (parent pos) h lefts (to_freeze @ [(parent pos, h)]))
      else Ok (pos, h, lefts, to_freeze))"
  by pat_completeness auto
termination
  by (relation "measure (\<lambda>(_, _, pos, _). 64 - position_level pos)") (auto simp: right_child_level(2) dest: right_child_level(1))

declare freeze_parents.simps [simp del]

primrec freeze_leaves ::
    "node_hasher \<Rightarrow> hash_reader \<Rightarrow> leaf_count \<Rightarrow> nat \<Rightarrow> hash_value list \<Rightarrow> frozen_node list \<Rightarrow> frozen_node list \<Rightarrow>
     (anyhow_error, frozen_node list \<times> frozen_node list) outcome" where
  "freeze_leaves mh reader n offset [] lefts to_freeze = Ok (lefts, to_freeze)"
| "freeze_leaves mh reader n offset (leaf # leaves) lefts to_freeze =
     and_then (add_panic n (of_nat offset)) (\<lambda>i.
     and_then (from_leaf_index i) (\<lambda>leaf_pos.
     and_then (freeze_parents mh reader leaf_pos leaf lefts (to_freeze @ [(leaf_pos, leaf)]))
       (\<lambda>(pos, h, lefts, to_freeze).
     freeze_leaves mh reader n (Suc offset) leaves ((pos, h) # lefts) to_freeze)))"

primrec climb_to_root ::
    "node_hasher \<Rightarrow> hash_reader \<Rightarrow> nat \<Rightarrow> position \<Rightarrow> hash_value \<Rightarrow> frozen_node list \<Rightarrow>
     (anyhow_error, hash_value \<times> frozen_node list) outcome" where
  "climb_to_root mh reader 0 pos h lefts = Ok (h, lefts)"
| "climb_to_root mh reader (Suc levels) pos h lefts =
     and_then (if is_left_child pos then Ok (mh h accumulator_placeholder_hash, lefts)
               else pair_with_left mh reader pos h lefts) (\<lambda>(h, lefts).
     climb_to_root mh reader levels (parent pos) h lefts)"

definition max_to_freeze :: "u64 \<Rightarrow> nat \<Rightarrow> ('e, u64) outcome" where
  "max_to_freeze num_new_leaves root_level =
     and_then (mul_panic num_new_leaves 2) (\<lambda>twice. add_panic twice (of_nat root_level))"

definition storage_append ::
    "node_hasher \<Rightarrow> hash_reader \<Rightarrow> leaf_count \<Rightarrow> hash_value list \<Rightarrow>
     (anyhow_error, hash_value \<times> frozen_node list) outcome" where
  "storage_append mh reader n new_leaves =
     (if new_leaves = [] then
        (if n = 0 then Ok (accumulator_placeholder_hash, [])
         else and_then (root_from_leaf_count n) (\<lambda>root.
              and_then (get_hash mh reader n root) (\<lambda>root_hash. Ok (root_hash, []))))
      else
        and_then (add_panic n (of_nat (length new_leaves))) (\<lambda>last_new_leaf_count.
        and_then (root_level_from_leaf_count last_new_leaf_count) (\<lambda>root_level.
        and_then (max_to_freeze (of_nat (length new_leaves)) root_level) (\<lambda>_.
        and_then (freeze_leaves mh reader n 0 new_leaves [] []) (\<lambda>(lefts, to_freeze).
        (case lefts of
           [] \<Rightarrow> Panic
         | (pos, h) # lefts \<Rightarrow>
             and_then (climb_to_root mh reader (root_level - position_level pos) pos h lefts) (\<lambda>(h, lefts).
             and_then (assert_panic (lefts = [])) (\<lambda>_.
             Ok (h, to_freeze)))))))))"

section \<open>Verifying a range proof\<close>

text \<open>\<open>chunks_exact(2)\<close> and its remainder.\<close>

fun hash_pairs :: "node_hasher \<Rightarrow> hash_value list \<Rightarrow> hash_value list" where
  "hash_pairs mh (x # y # rest) = mh x y # hash_pairs mh rest"
| "hash_pairs mh _ = []"

fun pairs_remainder :: "'a list \<Rightarrow> 'a list" where
  "pairs_remainder (x # y # rest) = pairs_remainder rest"
| "pairs_remainder rest = rest"

text \<open>One iteration of the loop of \<open>AccumulatorRangeProof::verify\<close>: the parents of the hashes, and the siblings left.\<close>

definition combine_level ::
    "node_hasher \<Rightarrow> position \<Rightarrow> hash_value list \<Rightarrow> hash_value list \<Rightarrow> hash_value list \<Rightarrow>
     (anyhow_error, hash_value list \<times> hash_value list \<times> hash_value list) outcome" where
  "combine_level mh first_pos current_hashes lefts rights =
     and_then
       (if is_right_child first_pos
        then (case lefts of
                [] \<Rightarrow> Err (Msg ''First child is a right child, but missing sibling on the left.'')
              | left_hash # lefts' \<Rightarrow>
                  (case current_hashes of
                     [] \<Rightarrow> Panic
                   | right_hash # children \<Rightarrow> Ok ([mh left_hash right_hash], children, lefts')))
        else Ok ([], current_hashes, lefts)) (\<lambda>(first_parent, children, lefts).
     and_then
       (case pairs_remainder children of
          [] \<Rightarrow> Ok ([], rights)
        | left_hash # _ \<Rightarrow>
            (case rights of
               [] \<Rightarrow> Err (Msg ''Last child is a left child, but missing sibling on the right.'')
             | right_hash # rights' \<Rightarrow> Ok ([mh left_hash right_hash], rights'))) (\<lambda>(last_parent, rights).
     Ok (first_parent @ hash_pairs mh children @ last_parent, lefts, rights)))"

partial_function (option) range_verify_loop ::
    "node_hasher \<Rightarrow> position \<Rightarrow> hash_value list \<Rightarrow> hash_value list \<Rightarrow> hash_value list \<Rightarrow>
     (anyhow_error, hash_value list) outcome option" where
  "range_verify_loop mh first_pos current_hashes lefts rights =
     (if length current_hashes > 1 \<or> lefts \<noteq> [] \<or> rights \<noteq> []
      then (case combine_level mh first_pos current_hashes lefts rights of
              Ok (parents, lefts', rights') \<Rightarrow> range_verify_loop mh (parent first_pos) parents lefts' rights'
            | Err e \<Rightarrow> Some (Err e)
            | Panic \<Rightarrow> Some Panic)
      else Some (Ok current_hashes))"

definition range_proof_verify ::
    "node_hasher \<Rightarrow> accumulator_range_proof \<Rightarrow> hash_value \<Rightarrow> u64 option \<Rightarrow> hash_value list \<Rightarrow>
     (anyhow_error, unit) outcome option" where
  "range_proof_verify mh p expected_root_hash first_leaf_index leaf_hashes =
     (case first_leaf_index of
        None \<Rightarrow>
          Some (and_then (ensure (leaf_hashes = [])
            (Msg ''first_leaf_index indicated empty list while leaf_hashes is not empty.'')) (\<lambda>_.
          ensure (left_siblings p = [] \<and> right_siblings p = []) (Msg ''No siblings are needed.'')))
      | Some first \<Rightarrow>
          (case and_then (ensure (length (left_siblings p) \<le> max_accumulator_proof_depth)
                  (Msg ''Proof has too many left siblings.'')) (\<lambda>_.
                and_then (ensure (length (right_siblings p) \<le> max_accumulator_proof_depth)
                  (Msg ''Proof has too many right siblings.'')) (\<lambda>_.
                and_then (ensure (leaf_hashes \<noteq> [])
                  (Msg ''leaf_hashes is empty while first_leaf_index indicated non-empty list.'')) (\<lambda>_.
                from_leaf_index first))) of
             Err e \<Rightarrow> Some (Err e)
           | Panic \<Rightarrow> Some Panic
           | Ok first_pos \<Rightarrow>
               Option.bind (range_verify_loop mh first_pos leaf_hashes (left_siblings p) (right_siblings p)) (\<lambda>r.
               Some (and_then r (\<lambda>current_hashes.
                 case current_hashes of
                   [] \<Rightarrow> Panic
                 | actual_root_hash # _ \<Rightarrow>
                     ensure (actual_root_hash = expected_root_hash) (Msg ''Root hashes do not match.''))))))"

section \<open>Nodes by level and index\<close>

definition nd :: "nat \<Rightarrow> nat \<Rightarrow> position" where
  "nd l i = node l (of_nat i)"

lemma nd_ok:
  assumes "l < 64" "i < 2 ^ (63 - l)"
  shows "unat (of_nat i :: u64) = i" "node_ok l (of_nat i)"
proof -
  have "(2 :: nat) ^ (63 - l) \<le> 2 ^ 63" by (rule power_increasing) simp_all
  then show u: "unat (of_nat i :: u64) = i" using assms(2) by (intro unat_of_nat_u64) simp
  show "node_ok l (of_nat i)" using assms u by (simp add: node_ok_def)
qed

lemma nd_fits: "i * 2 ^ l < 2 ^ 63 \<Longrightarrow> l \<le> 63 \<Longrightarrow> i < 2 ^ (63 - l)" for i l :: nat
  by (metis le_add_diff_inverse2 power_add mult_less_cancel2)

lemma level_nd: "l < 64 \<Longrightarrow> position_level (nd l i) = l"
  by (simp add: nd_def level_node)

lemma parent_nd:
  assumes "l < 63" "i < 2 ^ (63 - l)"
  shows "parent (nd l i) = nd (Suc l) (i div 2)"
proof -
  have u: "unat (of_nat i :: u64) = i" using assms by (intro nd_ok(1)) simp_all
  have "unat (of_nat (i div 2) :: u64) = i div 2"
    using unat_less_max [of "of_nat i :: u64"] u by (intro unat_of_nat_u64) simp
  then have "drop_bit 1 (of_nat i :: u64) = of_nat (i div 2)"
    using u by (simp add: word_unat_eq_iff drop_bit_eq_div unat_div)
  then show ?thesis using assms(1) by (simp add: nd_def parent_node)
qed

lemma sibling_nd:
  assumes "l < 63" "i < 2 ^ (63 - l)"
  shows "sibling (nd l i) = nd l (if even i then Suc i else i - 1)"
proof -
  have u: "unat (of_nat i :: u64) = i" using assms by (intro nd_ok(1)) simp_all
  have lim: "(2 :: nat) ^ (63 - l) \<le> 2 ^ 63" by (rule power_increasing) simp_all
  have "unat (of_nat (if even i then Suc i else i - 1) :: u64) = (if even i then Suc i else i - 1)"
    using assms(2) lim by (intro unat_of_nat_u64) auto
  moreover have "i XOR 1 = (if even i then Suc i else i - 1)" by (simp add: xor_Suc_0_eq)
  ultimately have "(of_nat i :: u64) XOR 1 = of_nat (if even i then Suc i else i - 1)"
    using u by (simp only: word_unat_eq_iff unsigned_xor_eq unsigned_1)
  then show ?thesis using assms(1) by (simp add: nd_def sibling_node)
qed

lemma is_left_child_nd: "l < 63 \<Longrightarrow> is_left_child (nd l i) \<longleftrightarrow> even i"
  by (simp add: nd_def is_left_child_node)

lemma children_nd:
  assumes "l < 63" "i < 2 ^ (62 - l)"
  shows "left_child (nd (Suc l) i) = Ok (nd l (2 * i))" "right_child (nd (Suc l) i) = Ok (nd l (Suc (2 * i)))"
proof -
  have ok: "node_ok (Suc l) (of_nat i)" "unat (of_nat i :: u64) = i"
    using nd_ok [of "Suc l" i] assms by simp_all
  have e: "push_bit 1 (of_nat i :: u64) = of_nat (2 * i)" "push_bit 1 (of_nat i :: u64) OR 1 = of_nat (Suc (2 * i))"
  proof -
    have lim: "(2 :: nat) ^ (62 - l) \<le> 2 ^ 62" by (rule power_increasing) simp_all
    have "unat (of_nat (2 * i) :: u64) = 2 * i" "unat (of_nat (Suc (2 * i)) :: u64) = Suc (2 * i)"
      using assms(2) lim by (intro unat_of_nat_u64; simp)+
    then show "push_bit 1 (of_nat i :: u64) = of_nat (2 * i)" "push_bit 1 (of_nat i :: u64) OR 1 = of_nat (Suc (2 * i))"
      using node_ok_children(5,6) [OF ok(1)] ok(2) by (simp_all only: word_unat_eq_iff)
  qed
  show "left_child (nd (Suc l) i) = Ok (nd l (2 * i))" "right_child (nd (Suc l) i) = Ok (nd l (Suc (2 * i)))"
    using assms(1) e unfolding nd_def by (simp_all only: left_child_node right_child_node)
qed

lemma is_freezable_nd:
  assumes "l < 64" "i < 2 ^ (63 - l)" "unat idx < 2 ^ 63"
  shows "is_freezable (nd l i) idx = Ok (Suc i * 2 ^ l \<le> Suc (unat idx))"
  using is_freezable_node [OF nd_ok(2) [OF assms(1,2)] assms(3)] nd_ok(1) [OF assms(1,2)] by (simp add: nd_def)

lemma left_most_child_nd:
  assumes "l < 64" "i < 2 ^ (63 - l)"
  shows "\<exists>c. left_most_child (nd l i) = (Ok c :: ('e, u64) outcome) \<and> unat c = 2 * (i * 2 ^ l)"
proof -
  define c where "c = push_bit l (drop_bit l (nd l i))"
  have ok: "node_ok l (of_nat i)" "unat (of_nat i :: u64) = i" using nd_ok [OF assms] by simp_all
  have n: "unat (nd l i) = 2 * i * 2 ^ l + (2 ^ l - 1)"
    using unat_node [OF ok(1)] ok(2) one_le_power [of "2 :: nat" l] by (simp add: nd_def)
  have "2 * i * 2 ^ l + 2 * 2 ^ l \<le> 2 ^ 64" using node_size_bound [OF ok(1)] ok(2) by (simp add: algebra_simps)
  then have size: "2 * i * 2 ^ l < 2 ^ 64" using one_le_power [of "2 :: nat" l] by linarith
  have "unat (nd l i) div 2 ^ l = 2 * i"
    unfolding n by (subst div_mult_self3) simp_all
  then have "unat (drop_bit l (nd l i)) = 2 * i" unfolding unat_drop_bit_eq unfolding drop_bit_eq_div .
  moreover have "unat (2 ^ l :: u64) = 2 ^ l" using unat_push_bit_one [OF assms(1)] by (simp only: push_bit_of_1)
  ultimately have "unat c = 2 * i * 2 ^ l" unfolding c_def push_bit_eq_mult unat_word_ariths
    using size by simp
  then show ?thesis using assms(1)
    by (intro exI [of _ c]) (simp add: left_most_child_def turn_off_right_most_n_bits_def level_nd shr_panic_def shl_panic_def c_def)
qed

lemma is_placeholder_nd:
  assumes "l < 64" "i < 2 ^ (63 - l)" "unat idx < 2 ^ 63"
  shows "is_placeholder (nd l i) idx = Ok (unat idx < i * 2 ^ l)"
proof -
  obtain c where c: "left_most_child (nd l i) = (Ok c :: ('a, u64) outcome)" "unat c = 2 * (i * 2 ^ l)"
    using left_most_child_nd [OF assms(1,2)] by blast
  have ok: "node_ok l (of_nat i)" "unat (of_nat i :: u64) = i" using nd_ok [OF assms(1,2)] by simp_all
  have n: "Suc (unat (nd l i)) = 2 * (i * 2 ^ l) + 2 ^ l" using unat_node [OF ok(1)] ok(2) by (simp add: nd_def)
  have leaf: "unat (push_bit 1 idx) = 2 * unat idx" by (rule unat_leaf [OF assms(3)])
  have le: "nd l i \<le> push_bit 1 idx \<longrightarrow> \<not> unat idx < i * 2 ^ l" "c \<le> push_bit 1 idx \<longleftrightarrow> \<not> unat idx < i * 2 ^ l"
    using n c(2) leaf one_le_power [of "2 :: nat" l] unfolding word_le_nat_alt by auto
  show ?thesis using le c(1) by (simp add: is_placeholder_def from_leaf_index_Ok [simplified])
qed

lemma from_leaf_index_nd: "from_leaf_index i = Ok (nd 0 (unat i))"
  by (simp add: from_leaf_index_def nd_def from_level_and_pos_node)

lemma tree_height_le: "n \<le> 2 ^ k \<Longrightarrow> tree_height n \<le> k"
proof (rule ccontr)
  assume n: "n \<le> 2 ^ k" and "\<not> tree_height n \<le> k"
  then have "(2 :: nat) ^ k \<le> 2 ^ (tree_height n - 1)" by (intro power_increasing) auto
  with n tree_height_props [of n] \<open>\<not> tree_height n \<le> k\<close> show False by linarith
qed

lemma root_from_leaf_count_nd:
  assumes "0 < unat n" "unat n \<le> 2 ^ 63"
  shows "root_from_leaf_count n = Ok (nd (tree_height (unat n)) 0)"
proof -
  have "1 \<le> n" using assms(1) by (simp add: word_le_nat_alt)
  then have u: "unat (n - 1) = unat n - 1" by (simp add: unat_sub)
  moreover have "n > 0" using assms(1) by (metis word_gt_0 unat_0 less_irrefl)
  ultimately show ?thesis
    using assms by (simp add: root_from_leaf_count_def nd_def root_from_leaf_index_node)
qed

section \<open>The storage of a list of leaves\<close>

text \<open>The hash of the node with index \<open>i\<close> at level \<open>l\<close> of the tree over the leaves.\<close>

definition block :: "node_hasher \<Rightarrow> hash_value list \<Rightarrow> nat \<Rightarrow> nat \<Rightarrow> hash_value" where
  "block mh leaves l i = merkle mh l (take (2 ^ l) (drop (i * 2 ^ l) leaves))"

text \<open>The reader holds every frozen node: every full subtree.\<close>

definition stored :: "node_hasher \<Rightarrow> hash_value list \<Rightarrow> hash_reader \<Rightarrow> bool" where
  "stored mh leaves reader \<longleftrightarrow>
     (\<forall>l i. l < 64 \<longrightarrow> Suc i * 2 ^ l \<le> length leaves \<longrightarrow> reader (nd l i) = Ok (block mh leaves l i))"

lemma block_Suc:
  assumes "i * 2 ^ Suc l < length leaves"
  shows "block mh leaves (Suc l) i = mh (block mh leaves l (2 * i)) (block mh leaves l (Suc (2 * i)))"
proof -
  let ?xs = "take (2 ^ Suc l) (drop (i * 2 ^ Suc l) leaves)"
  have ne: "?xs \<noteq> []" using assms by simp
  have "take (2 ^ l) ?xs = take (2 ^ l) (drop (2 * i * 2 ^ l) leaves)" by (simp add: mult.assoc mult.left_commute)
  moreover have "drop (2 ^ l) ?xs = take (2 ^ l) (drop (Suc (2 * i) * 2 ^ l) leaves)"
    by (simp add: drop_take mult.assoc mult.left_commute add.commute)
  ultimately show ?thesis unfolding block_def merkle_Suc_nonempty [OF ne] by (simp only:)
qed

lemma block_empty: "length leaves \<le> i * 2 ^ l \<Longrightarrow> block mh leaves l i = accumulator_placeholder_hash"
  by (simp add: block_def)

lemma block_root: "block mh leaves (tree_height (length leaves)) 0 = merkle_root mh leaves"
  using tree_height_props [of "length leaves"] by (simp add: block_def merkle_root_def)

lemma block_leaf: "i < length leaves \<Longrightarrow> block mh leaves 0 i = leaves ! i"
  by (simp add: block_def take_Suc_conv_app_nth hd_drop_conv_nth take_Suc)

lemma block_prefix: "Suc i * 2 ^ l \<le> length xs \<Longrightarrow> block mh (xs @ ys) l i = block mh xs l i"
  by (simp add: block_def)

lemma rightmost_leaf_index_Ok:
  assumes "0 < unat n"
  shows "rightmost_leaf_index n = Ok (n - 1)" "Suc (unat (n - 1)) = unat n"
proof -
  have "1 \<le> n" using assms by (simp add: word_le_nat_alt)
  then show "rightmost_leaf_index n = Ok (n - 1)" "Suc (unat (n - 1)) = unat n"
    using assms by (simp_all add: rightmost_leaf_index_def sub_panic_def checked_sub_def unat_sub)
qed

lemma get_hash_nd:
  assumes "0 < unat n" "unat n \<le> 2 ^ 63" "l < 64" "i < 2 ^ (63 - l)"
  shows "get_hash mh reader n (nd l i) =
    (if unat n \<le> i * 2 ^ l then Ok accumulator_placeholder_hash
     else if Suc i * 2 ^ l \<le> unat n then reader (nd l i)
     else and_then (left_child (nd l i)) (\<lambda>left.
          and_then (get_hash mh reader n left) (\<lambda>left_hash.
          and_then (right_child (nd l i)) (\<lambda>right.
          and_then (get_hash mh reader n right) (\<lambda>right_hash.
          Ok (mh left_hash right_hash))))))"
proof -
  have idx: "Suc (unat (n - 1)) = unat n" by (rule rightmost_leaf_index_Ok(2) [OF assms(1)])
  then have "unat (n - 1) < 2 ^ 63" using assms(2) by linarith
  note test = is_placeholder_nd [OF assms(3,4) this] is_freezable_nd [OF assms(3,4) this]
  have "unat (n - 1) < i * 2 ^ l \<longleftrightarrow> unat n \<le> i * 2 ^ l" using idx by linarith
  then show ?thesis
    by (subst get_hash.simps) (simp only: rightmost_leaf_index_Ok(1) [OF assms(1)] and_then.simps test idx)
qed

lemma get_hash_block:
  assumes st: "stored mh leaves reader" and len: "0 < length leaves" "length leaves \<le> 2 ^ 63"
    and n: "n = of_nat (length leaves)"
  shows "l < 64 \<Longrightarrow> i < 2 ^ (63 - l) \<Longrightarrow> get_hash mh reader n (nd l i) = Ok (block mh leaves l i)"
proof (induction l arbitrary: i)
  case 0
  have u: "unat n = length leaves" using len(2) n by (simp add: unat_length)
  show ?case using st len(1) get_hash_nd [of n 0 i mh reader] 0 len(2) u
    by (auto simp: stored_def block_empty)
next
  case (Suc l)
  have u: "unat n = length leaves" using len(2) n by (simp add: unat_length)
  have i: "i < 2 ^ (62 - l)" "l < 63" using Suc.prems by simp_all
  have "2 * i < 2 ^ (63 - l)" "Suc (2 * i) < 2 ^ (63 - l)"
    using i by (simp_all add: Suc_diff_Suc [symmetric] numeral_eq_Suc)
  then have IH: "get_hash mh reader n (nd l (2 * i)) = Ok (block mh leaves l (2 * i))"
      "get_hash mh reader n (nd l (Suc (2 * i))) = Ok (block mh leaves l (Suc (2 * i)))"
    using Suc.IH i(2) by simp_all
  show ?case
  proof (cases "length leaves \<le> i * 2 ^ Suc l \<or> Suc i * 2 ^ Suc l \<le> length leaves")
    case True
    then show ?thesis using st get_hash_nd [OF _ _ Suc.prems, of n mh reader] u len Suc.prems(1)
      by (auto simp: stored_def block_empty simp del: power_Suc mult_Suc)
  next
    case False
    then show ?thesis
      using get_hash_nd [OF _ _ Suc.prems, of n mh reader] u len IH block_Suc [of i l leaves mh]
      by (simp add: children_nd [OF i(2,1), simplified] del: power_Suc mult_Suc)
  qed
qed

lemma get_hashes_block:
  assumes "stored mh leaves reader" "0 < length leaves" "length leaves \<le> 2 ^ 63" "n = of_nat (length leaves)"
    and "\<forall>(l, i)\<in>set ps. l < 64 \<and> i < 2 ^ (63 - l)"
  shows "get_hashes mh reader n (map (\<lambda>(l, i). nd l i) ps) = Ok (map (\<lambda>(l, i). block mh leaves l i) ps)"
  using assms(5)
  by (induction ps) (auto simp: get_hash_block [OF assms(1-4)])

lemma get_root_hash_stored:
  assumes "stored mh leaves reader" "0 < length leaves" "length leaves \<le> 2 ^ 63"
  shows "get_root_hash mh reader (of_nat (length leaves)) = Ok (merkle_root mh leaves)"
proof -
  let ?h = "tree_height (length leaves)"
  have u: "unat (of_nat (length leaves) :: u64) = length leaves" using assms(3) by (simp add: unat_length)
  have h: "?h < 64" using tree_height_le [OF assms(3)] by simp
  show ?thesis
    using get_hash_block [OF assms refl h, of 0] u assms(2,3)
    by (simp add: get_root_hash_def root_from_leaf_count_nd block_root)
qed

section \<open>The siblings of a leaf\<close>

definition sib :: "nat \<Rightarrow> nat" where
  "sib i = (if even i then Suc i else i - 1)"

lemma sib_fits:
  assumes "m < 63" "i < 2 ^ (63 - m)"
  shows "sib i < 2 ^ (63 - m)"
proof (cases "even i")
  case True
  have "63 - m = Suc (62 - m)" using assms(1) by simp
  then have "even ((2 :: nat) ^ (63 - m))" by simp
  then have "Suc i \<noteq> 2 ^ (63 - m)" using True by (metis even_Suc)
  then show ?thesis using assms(2) True by (simp add: sib_def)
qed (use assms in \<open>simp add: sib_def\<close>)

lemma div_fits: "i < 2 ^ 63 \<Longrightarrow> m \<le> 63 \<Longrightarrow> i div 2 ^ m < 2 ^ (63 - m)" for i m :: nat
  by (rule less_mult_imp_div_less) (simp add: power_add [symmetric])

lemma take_ancestor_siblings_nd:
  "l + k \<le> 63 \<Longrightarrow> i < 2 ^ (63 - l) \<Longrightarrow>
   take_ancestor_siblings k (nd l i) = map (\<lambda>m. nd (l + m) (sib (i div 2 ^ m))) [0..<k]"
proof (induction k arbitrary: l i)
  case (Suc k)
  have l: "l < 63" using Suc.prems(1) by simp
  have "63 - l = Suc (62 - l)" using l by simp
  then have "i div 2 < 2 ^ (62 - l)" using Suc.prems(2) by simp
  then have "take_ancestor_siblings k (nd (Suc l) (i div 2)) = map (\<lambda>m. nd (Suc l + m) (sib (i div 2 div 2 ^ m))) [0..<k]"
    using Suc.IH [of "Suc l" "i div 2"] Suc.prems(1) by simp
  also have "\<dots> = map (\<lambda>m. nd (l + m) (sib (i div 2 ^ m))) [1..<Suc k]"
    by (simp add: div_mult2_eq map_Suc_upt [symmetric] del: map_Suc_upt upt_Suc)
  finally show ?case
    using sibling_nd [OF l Suc.prems(2)] parent_nd [OF l Suc.prems(2)]
    by (simp add: ancestor_sibling_next_def upt_rec [of 0 "Suc k"] sib_def del: upt_Suc)
qed simp

lemma get_sibling_positions_nd:
  assumes "0 < unat n" "unat n \<le> 2 ^ 63" "unat i < 2 ^ 63"
  shows "get_sibling_positions n i flt =
    Ok (filter flt (map (\<lambda>m. nd m (sib (unat i div 2 ^ m))) [0..<tree_height (unat n)]))"
proof -
  have h: "tree_height (unat n) \<le> 63" using tree_height_le [OF assms(2)] .
  show ?thesis
    using take_ancestor_siblings_nd [of 0 "tree_height (unat n)" "unat i"] h assms
    by (simp add: get_sibling_positions_def root_from_leaf_count_nd from_leaf_index_nd [simplified] level_nd)
qed

text \<open>The siblings that the reference proof has, as nodes of the tree over all leaves.\<close>

lemma reference_siblings_blocks:
  "j < 2 ^ k \<Longrightarrow>
   reference_siblings mh k (take (2 ^ k) (drop (a * 2 ^ k) leaves)) j =
   map (\<lambda>m. block mh leaves m (sib ((a * 2 ^ k + j) div 2 ^ m))) [0..<k]"
proof (induction k arbitrary: a j)
  case (Suc k)
  let ?xs = "take (2 ^ Suc k) (drop (a * 2 ^ Suc k) leaves)"
  have left: "take (2 ^ k) ?xs = take (2 ^ k) (drop (2 * a * 2 ^ k) leaves)" by (simp add: mult.assoc mult.left_commute)
  have right: "drop (2 ^ k) ?xs = take (2 ^ k) (drop (Suc (2 * a) * 2 ^ k) leaves)"
    by (simp add: drop_take mult.assoc mult.left_commute add.commute)
  show ?case
  proof (cases "j < 2 ^ k")
    case True
    have eq: "a * 2 ^ Suc k + j = 2 * a * 2 ^ k + j" by simp
    have "(2 * a * 2 ^ k + j) div 2 ^ k = 2 * a" using True by simp
    then show ?thesis using True Suc.IH [OF True, of "2 * a"]
      unfolding reference_siblings.simps left right eq by (simp add: sib_def block_def)
  next
    case False
    have j: "j - 2 ^ k < 2 ^ k" using Suc.prems False by simp
    have eq: "a * 2 ^ Suc k + j = Suc (2 * a) * 2 ^ k + (j - 2 ^ k)" using False by simp
    have "(Suc (2 * a) * 2 ^ k + (j - 2 ^ k)) div 2 ^ k = Suc (2 * a)" using j by (simp only: div_mult_self3 div_less)
    then show ?thesis using False Suc.IH [OF j, of "Suc (2 * a)"] unfolding reference_siblings.simps left right eq
      by (simp add: sib_def block_def del: power_Suc mult_Suc)
  qed
qed simp

lemma get_proof_reference:
  assumes "stored mh leaves reader" "length leaves \<le> 2 ^ 63" "unat i < length leaves"
  shows "get_proof mh reader (of_nat (length leaves)) i =
    Ok (reference_siblings mh (tree_height (length leaves)) leaves (unat i))"
proof -
  let ?h = "tree_height (length leaves)" and ?n = "of_nat (length leaves) :: u64"
  have u: "unat ?n = length leaves" using assms(2) by (simp add: unat_length)
  have h: "?h \<le> 63" "length leaves \<le> 2 ^ ?h" using tree_height_le [OF assms(2)] tree_height_props by auto
  have i: "unat i < 2 ^ 63" using assms(2,3) by linarith
  have "get_hashes mh reader ?n (map (\<lambda>(l, i). nd l i) (map (\<lambda>m. (m, sib (unat i div 2 ^ m))) [0..<?h])) =
      Ok (map (\<lambda>(l, i). block mh leaves l i) (map (\<lambda>m. (m, sib (unat i div 2 ^ m))) [0..<?h]))"
    using assms h i by (intro get_hashes_block) (auto intro!: sib_fits div_fits)
  moreover have "reference_siblings mh ?h leaves (unat i) = map (\<lambda>m. block mh leaves m (sib (unat i div 2 ^ m))) [0..<?h]"
    using reference_siblings_blocks [of "unat i" ?h mh 0 leaves] assms(3) h(2) by simp
  moreover have "i < ?n" using assms(3) u by (simp add: word_less_nat_alt)
  moreover have "get_sibling_positions ?n i (\<lambda>_. True) =
      (Ok (map (\<lambda>m. nd m (sib (unat i div 2 ^ m))) [0..<?h]) :: (anyhow_error, _) outcome)"
    using get_sibling_positions_nd [of ?n i] u assms(2,3) i by (metis (no_types, lifting) filter_True gr_zeroI not_less_zero)
  ultimately show ?thesis by (simp add: get_proof_def get_siblings_def comp_def)
qed

section \<open>Consistency proofs and frozen subtrees\<close>

lemma stored_node:
  assumes "stored mh leaves reader" "node_ok k q" "unat q * 2 ^ k + 2 ^ k \<le> length leaves"
  shows "reader (node k q) = Ok (merkle mh k (take (2 ^ k) (drop (unat q * 2 ^ k) leaves)))"
proof -
  have "reader (nd k (unat q)) = Ok (block mh leaves k (unat q))"
    using assms by (auto simp: stored_def node_ok_def add.commute)
  then show ?thesis by (simp add: nd_def block_def)
qed

lemma sibling_subtrees_step:
  assumes "c < length leaves" "k = next_subtree_level c (length leaves - c)"
  shows "sibling_subtrees mh c (drop c leaves) =
    merkle mh k (take (2 ^ k) (drop c leaves)) # sibling_subtrees mh (c + 2 ^ k) (drop (c + 2 ^ k) leaves)"
  using assms by (subst sibling_subtrees.simps) (simp add: Let_def add.commute)

lemma collect_read_siblings:
  assumes st: "stored mh leaves reader" and len: "length leaves \<le> 2 ^ 63"
  shows "unat (fss_current_num_leaves s) + unat (fss_remaining_new_leaves s) = length leaves \<Longrightarrow>
    collect_read reader frozen_subtree_sibling_next s =
      Some (Ok (sibling_subtrees mh (unat (fss_current_num_leaves s)) (drop (unat (fss_current_num_leaves s)) leaves)))"
proof (induction "unat (fss_remaining_new_leaves s)" arbitrary: s rule: less_induct)
  case less
  let ?c = "unat (fss_current_num_leaves s)" and ?r = "unat (fss_remaining_new_leaves s)"
  show ?case
  proof (cases "fss_remaining_new_leaves s = 0")
    case True
    then show ?thesis using less.prems
      by (simp add: collect_read.simps [of _ _ s] frozen_subtree_sibling_next_def sibling_subtrees.simps)
  next
    case False
    obtain k q s' where step: "frozen_subtree_sibling_next s = (Ok (Some (node k q, s')) :: (anyhow_error, _) outcome)"
        "node_ok k q" "unat q * 2 ^ k = ?c" "2 ^ k \<le> ?r" "unat (fss_current_num_leaves s') = ?c + 2 ^ k"
        "unat (fss_remaining_new_leaves s') = ?r - 2 ^ k" "k = next_subtree_level ?c ?r"
      using frozen_subtree_sibling_next_step [of s] less.prems len False by (metis (no_types, lifting))
    have r: "?r = length leaves - ?c" "?c < length leaves"
      using less.prems step(4) zero_less_power [of "2 :: nat" k] by linarith+
    have "unat (fss_remaining_new_leaves s') < ?r" using step(4,6) zero_less_power [of "2 :: nat" k] by linarith
    then have "collect_read reader frozen_subtree_sibling_next s' =
        Some (Ok (sibling_subtrees mh (?c + 2 ^ k) (drop (?c + 2 ^ k) leaves)))"
      using less.hyps [of s'] less.prems step(4-6) by simp
    moreover have "reader (node k q) = Ok (merkle mh k (take (2 ^ k) (drop ?c leaves)))"
      using stored_node [OF st step(2)] step(3,4) less.prems by simp
    ultimately show ?thesis
      using step(1) sibling_subtrees_step [OF r(2), of k mh] step(7) r(1)
      by (simp add: collect_read.simps [of _ _ s])
  qed
qed

lemma get_consistency_proof_stored:
  assumes "stored mh leaves reader" "length leaves \<le> 2 ^ 63" "unat sub \<le> length leaves"
  shows "get_consistency_proof reader (of_nat (length leaves)) sub =
    Some (Ok (sibling_subtrees mh (unat sub) (drop (unat sub) leaves)))"
proof -
  let ?n = "of_nat (length leaves) :: u64"
  have u: "unat ?n = length leaves" using assms(2) by (simp add: unat_length)
  have le: "sub \<le> ?n" "?n \<le> max_accumulator_leaves"
    using assms(2,3) u by (simp_all add: word_le_nat_alt max_accumulator_leaves_def unat_push_bit_one)
  have new: "frozen_subtree_sibling_iterator_new sub ?n =
      (Ok \<lparr>fss_current_num_leaves = sub, fss_remaining_new_leaves = ?n - sub\<rparr> :: (anyhow_error, _) outcome)"
    using le by (simp add: frozen_subtree_sibling_iterator_new_def)
  have "unat sub + unat (?n - sub) = length leaves" using le(1) u assms(3) by (simp add: unat_sub)
  then show ?thesis
    using collect_read_siblings [OF assms(1,2), of "\<lparr>fss_current_num_leaves = sub, fss_remaining_new_leaves = ?n - sub\<rparr>"]
      le(1) by (simp add: get_consistency_proof_def new)
qed

lemma factor_two_add:
  assumes "s = 0 \<or> m < factor_two s"
  shows "factor_two (s + 2 ^ m) = m"
proof (cases "s = 0")
  case True
  then show ?thesis using factor_two_shift [of 1 m] by simp
next
  case False
  then obtain q where q: "s = q * 2 ^ factor_two s" using factor_two_split by blast
  have "factor_two s = (factor_two s - Suc m) + Suc m" using assms False by simp
  then have "s = q * 2 ^ (factor_two s - Suc m) * 2 * 2 ^ m"
    using q by (metis mult.assoc power_add power_Suc mult.commute)
  then have "s + 2 ^ m = (q * 2 ^ (factor_two s - Suc m) * 2 + 1) * 2 ^ m" by (metis distrib_right mult_1)
  then show ?thesis using factor_two_shift [of "q * 2 ^ (factor_two s - Suc m) * 2 + 1" m] by (simp add: add.commute)
qed

lemma collect_read_frozen:
  assumes st: "stored mh leaves reader" and len: "length leaves \<le> 2 ^ 63"
  shows "fsi_ok s \<Longrightarrow> unat (fsi_seen_leaves s) + unat (fsi_bitmap s) = length leaves \<Longrightarrow>
    unat (fsi_seen_leaves s) = 0 \<or> unat (fsi_bitmap s) < 2 ^ factor_two (unat (fsi_seen_leaves s)) \<Longrightarrow>
    collect_read reader frozen_subtree_next s =
      Some (Ok (sibling_subtrees mh (unat (fsi_seen_leaves s)) (drop (unat (fsi_seen_leaves s)) leaves)))"
proof (induction "unat (fsi_bitmap s)" arbitrary: s rule: less_induct)
  case less
  let ?c = "unat (fsi_seen_leaves s)" and ?r = "unat (fsi_bitmap s)"
  show ?case
  proof (cases "fsi_bitmap s = 0")
    case True
    then show ?thesis using less.prems
      by (simp add: collect_read.simps [of _ _ s] frozen_subtree_next_def sibling_subtrees.simps)
  next
    case False
    then obtain m where m: "m < 64" "bit (fsi_bitmap s) m" "\<And>i. m < i \<Longrightarrow> \<not> bit (fsi_bitmap s) i"
      by (rule highest_bit) blast
    note b = highest_bit_bounds [OF m(2,3)]
    obtain q s' where step: "frozen_subtree_next s = (Ok (Some (node m q, s')) :: (anyhow_error, _) outcome)" "node_ok m q"
        "unat q * 2 ^ m = ?c" "unat (fsi_seen_leaves s') = ?c + 2 ^ m" "unat (fsi_bitmap s') = ?r - 2 ^ m" "fsi_ok s'"
      using frozen_subtree_next_step [OF less.prems(1) m(2,3)] by (metis (no_types, lifting))
    have r: "?r = length leaves - ?c" "?c < length leaves"
      using less.prems b(1) zero_less_power [of "2 :: nat" m] by linarith+
    have f: "?c = 0 \<or> m < factor_two ?c"
    proof (cases "?c = 0")
      case False
      then have "(2 :: nat) ^ m < 2 ^ factor_two ?c" using less.prems(3) b(1) by linarith
      then show ?thesis by simp
    qed simp
    then have level: "m = next_subtree_level ?c ?r"
      using less.prems(3) bit_length_highest [OF b] by (auto simp: next_subtree_level_def)
    have "collect_read reader frozen_subtree_next s' =
        Some (Ok (sibling_subtrees mh (unat (fsi_seen_leaves s')) (drop (unat (fsi_seen_leaves s')) leaves)))"
    proof (rule less.hyps)
      show "unat (fsi_bitmap s') < ?r" using step(5) b(1) zero_less_power [of "2 :: nat" m] by linarith
      show "unat (fsi_seen_leaves s') + unat (fsi_bitmap s') = length leaves" using step(4,5) less.prems(2) b(1) by linarith
      have "unat (fsi_bitmap s') < 2 ^ m" using step(5) b by simp
      then show "unat (fsi_seen_leaves s') = 0 \<or> unat (fsi_bitmap s') < 2 ^ factor_two (unat (fsi_seen_leaves s'))"
        unfolding step(4) factor_two_add [OF f] by simp
    qed (rule step(6))
    moreover have "reader (node m q) = Ok (merkle mh m (take (2 ^ m) (drop ?c leaves)))"
      using stored_node [OF st step(2)] step(3) b(1) less.prems(2) by simp
    ultimately show ?thesis
      using step(1,4) sibling_subtrees_step [OF r(2), of m mh] level r(1)
      by (simp add: collect_read.simps [of _ _ s])
  qed
qed

lemma get_frozen_subtree_hashes_stored:
  assumes "stored mh leaves reader" "length leaves \<le> 2 ^ 63"
  shows "get_frozen_subtree_hashes reader (of_nat (length leaves)) = Some (Ok (frozen_subtree_roots (accumulator_of mh leaves)))"
proof -
  let ?n = "of_nat (length leaves) :: u64"
  have u: "unat ?n = length leaves" using assms(2) by (simp add: unat_length)
  have "fsi_ok (frozen_subtree_iterator_new ?n)" using assms(2) u by (simp add: fsi_ok_def frozen_subtree_iterator_new_def)
  then show ?thesis
    using collect_read_frozen [OF assms, of "frozen_subtree_iterator_new ?n"] u sibling_subtrees_greedy [of 0 leaves mh]
    by (simp add: get_frozen_subtree_hashes_def frozen_subtree_iterator_new_def)
qed

end
