(* ===== verification/Storage_Accumulator_Proofs.thy ===== *)
theory Storage_Accumulator_Proofs
  imports Storage_Accumulator
begin

text \<open>
  The operations of \<open>Storage_Accumulator\<close> against the tree over the leaves: \<open>append\<close> returns the root and
  keeps the storage complete, and the verifiers of the three kinds of proof accept what the storage
  hands out.  The loops of \<open>append\<close> are described by the stack of left siblings (\<open>open_lefts\<close>), the loop of the
  range verifier by the hashes and siblings that are left at a level.
\<close>

section \<open>Appending keeps the storage complete\<close>

text \<open>
  The stack of \<open>append\<close> after \<open>c\<close> leaves, of which the first \<open>old\<close> were stored before: the full subtrees of level
  \<open>j\<close> and up that end after the stored leaves, and still wait for their right sibling.
\<close>

definition open_lefts :: "node_hasher \<Rightarrow> hash_value list \<Rightarrow> nat \<Rightarrow> nat \<Rightarrow> nat \<Rightarrow> frozen_node list" where
  "open_lefts mh leaves old c j =
     map (\<lambda>l. (nd l (c div 2 ^ l - 1), block mh leaves l (c div 2 ^ l - 1)))
       (filter (\<lambda>l. odd (c div 2 ^ l) \<and> old < c div 2 ^ l * 2 ^ l) [j..<64])"

text \<open>The nodes that become frozen with leaf \<open>c\<close>, bottom up.\<close>

definition frozen_at :: "node_hasher \<Rightarrow> hash_value list \<Rightarrow> nat \<Rightarrow> frozen_node list" where
  "frozen_at mh leaves c =
     map (\<lambda>m. (nd m (c div 2 ^ m), block mh leaves m (c div 2 ^ m))) [0..<Suc (factor_two (Suc c))]"

lemma open_lefts_step:
  assumes "j < 64"
  shows "open_lefts mh leaves old c j =
    (if odd (c div 2 ^ j) \<and> old < c div 2 ^ j * 2 ^ j
     then [(nd j (c div 2 ^ j - 1), block mh leaves j (c div 2 ^ j - 1))] else []) @ open_lefts mh leaves old c (Suc j)"
  using assms by (simp add: open_lefts_def upt_conv_Cons)

lemma div_mult_antimono: "l \<le> m \<Longrightarrow> c div 2 ^ m * 2 ^ m \<le> c div 2 ^ l * 2 ^ l" for c :: nat
proof -
  assume "l \<le> m"
  then obtain d where m: "m = l + d" using le_Suc_ex by blast
  have "c div 2 ^ l div 2 ^ d * 2 ^ d \<le> c div 2 ^ l" by (rule div_times_less_eq_dividend)
  then have "c div 2 ^ l div 2 ^ d * 2 ^ d * 2 ^ l \<le> c div 2 ^ l * 2 ^ l" by (rule mult_le_mono1)
  moreover have "c div 2 ^ m = c div 2 ^ l div 2 ^ d" by (simp only: m power_add div_mult2_eq)
  moreover have "(2 :: nat) ^ m = 2 ^ d * 2 ^ l" by (simp only: m power_add mult.commute)
  ultimately show ?thesis by (simp only: mult.assoc)
qed

lemma open_lefts_Nil:
  assumes "c div 2 ^ j * 2 ^ j \<le> old"
  shows "open_lefts mh leaves old c j = []"
  using assms div_mult_antimono [of j _ c] by (fastforce simp: open_lefts_def filter_empty_conv)

lemma pair_with_open_left:
  assumes "stored mh ls reader" "length ls = old" "leaves = ls @ news"
    and "l < 63" "c < 2 ^ 63" "odd (c div 2 ^ l)"
  shows "pair_with_left mh reader (nd l (c div 2 ^ l)) h (open_lefts mh leaves old c l) =
    Ok (mh (block mh leaves l (c div 2 ^ l - 1)) h, open_lefts mh leaves old c (Suc l))"
proof -
  let ?k = "c div 2 ^ l"
  have k: "?k < 2 ^ (63 - l)" using assms(4,5) by (intro div_fits) simp_all
  have sibling: "sibling (nd l ?k) = nd l (?k - 1)" using sibling_nd [OF assms(4) k] assms(6) by simp
  show ?thesis
  proof (cases "old < ?k * 2 ^ l")
    case True
    then show ?thesis using open_lefts_step [of l mh leaves old c] assms(4,6) sibling by (simp add: pair_with_left_def)
  next
    case False
    then have "open_lefts mh leaves old c l = []" "open_lefts mh leaves old c (Suc l) = []"
      using div_mult_antimono [of l "Suc l" c] by (auto intro!: open_lefts_Nil simp del: power_Suc)
    moreover have "Suc (?k - 1) * 2 ^ l \<le> length ls" using False assms(2,6) by (simp add: odd_pos)
    then have "reader (nd l (?k - 1)) = Ok (block mh leaves l (?k - 1))"
      using assms(1,3,4) by (simp add: stored_def block_prefix del: mult_Suc)
    ultimately show ?thesis by (simp add: pair_with_left_def sibling)
  qed
qed

text \<open>The subtrees that end with leaf \<open>c\<close>.\<close>

lemma ends_with:
  assumes "m \<le> factor_two (Suc c)"
  shows "Suc (c div 2 ^ m) * 2 ^ m = Suc c" "odd (c div 2 ^ m) \<longleftrightarrow> m < factor_two (Suc c)"
proof -
  let ?t = "factor_two (Suc c)"
  obtain r where r: "Suc c = r * 2 ^ ?t" "odd r" using factor_two_split [of "Suc c"] by blast
  have "(2 :: nat) ^ ?t = 2 ^ (?t - m) * 2 ^ m" using assms by (simp add: power_add [symmetric])
  then have c: "Suc c = r * 2 ^ (?t - m) * 2 ^ m" using r(1) by (simp add: mult.assoc)
  have pos: "0 < r * 2 ^ (?t - m)" using r(2) by (simp add: odd_pos)
  have "c = (r * 2 ^ (?t - m) - 1) * 2 ^ m + (2 ^ m - 1)"
  proof -
    obtain k where "r * 2 ^ (?t - m) = Suc k" using pos gr0_implies_Suc by blast
    then show ?thesis using c one_le_power [of "2 :: nat" m] by simp
  qed
  then have "c div 2 ^ m = r * 2 ^ (?t - m) - 1"
    by (metis add_cancel_right_right div_mult_self3 div_less diff_less zero_less_one zero_less_power zero_less_numeral power_not_zero zero_neq_numeral)
  then have k: "Suc (c div 2 ^ m) = r * 2 ^ (?t - m)" using pos by simp
  then show "Suc (c div 2 ^ m) * 2 ^ m = Suc c" using c by simp
  have "odd (c div 2 ^ m) \<longleftrightarrow> even (r * 2 ^ (?t - m))" using k by (metis even_Suc)
  then show "odd (c div 2 ^ m) \<longleftrightarrow> m < ?t" using r(2) by auto
qed

lemma factor_two_le: "0 < n \<Longrightarrow> n \<le> 2 ^ k \<Longrightarrow> factor_two n \<le> k"
proof -
  assume "0 < n" "n \<le> 2 ^ k"
  then obtain q where "n = q * 2 ^ factor_two n" "odd q" using factor_two_split by blast
  then have "2 ^ factor_two n \<le> n" by (metis mult_le_mono1 mult_1 odd_pos Suc_leI One_nat_def)
  then have "(2 :: nat) ^ factor_two n \<le> 2 ^ k" using \<open>n \<le> 2 ^ k\<close> by (rule le_trans)
  then show ?thesis by simp
qed

lemma freeze_parents_frozen:
  assumes st: "stored mh ls reader" "length ls = old" "leaves = ls @ news" and c: "c < length leaves" "length leaves \<le> 2 ^ 63"
  defines "t \<equiv> factor_two (Suc c)"
  shows "l \<le> t \<Longrightarrow>
    freeze_parents mh reader (nd l (c div 2 ^ l)) (block mh leaves l (c div 2 ^ l)) (open_lefts mh leaves old c l) to_freeze =
      Ok (nd t (c div 2 ^ t), block mh leaves t (c div 2 ^ t), open_lefts mh leaves old c t,
          to_freeze @ map (\<lambda>m. (nd m (c div 2 ^ m), block mh leaves m (c div 2 ^ m))) [Suc l..<Suc t])"
proof (induction "t - l" arbitrary: l to_freeze)
  case 0
  then have l: "l = t" by simp
  have t: "t \<le> 63" using factor_two_le [of "Suc c" 63] c by (simp add: t_def)
  have "\<not> is_right_child (nd t (c div 2 ^ t))"
  proof (cases "t = 63")
    case True
    then show ?thesis using right_child_level(1) [of "nd t (c div 2 ^ t)"] level_nd [of t] by auto
  next
    case False
    then show ?thesis using ends_with(2) [of t c] t by (simp add: is_right_child_def is_left_child_nd t_def)
  qed
  then show ?case by (simp add: l freeze_parents.simps)
next
  case (Suc d)
  then have lt: "l < t" by simp
  have d: "d = t - Suc l" using Suc.hyps(2) by simp
  have t: "t \<le> 63" using factor_two_le [of "Suc c" 63] c by (simp add: t_def)
  have l: "l < 63" "c < 2 ^ 63" using lt t c by simp_all
  have odd: "odd (c div 2 ^ l)" using ends_with(2) [of l c] lt by (simp add: t_def)
  then have half: "c div 2 ^ l - 1 = 2 * (c div 2 ^ Suc l)" "c div 2 ^ l = Suc (2 * (c div 2 ^ Suc l))"
    unfolding power_Suc2 div_mult2_eq by (simp_all add: odd_two_times_div_two_nat)
  have "c div 2 ^ Suc l * 2 ^ Suc l \<le> c" by (rule div_times_less_eq_dividend)
  then have "c div 2 ^ Suc l * 2 ^ Suc l < length leaves" using c(1) by (rule le_less_trans)
  from block_Suc [OF this, of mh]
  have block: "mh (block mh leaves l (c div 2 ^ l - 1)) (block mh leaves l (c div 2 ^ l)) = block mh leaves (Suc l) (c div 2 ^ Suc l)"
    unfolding half by simp
  have parent: "parent (nd l (c div 2 ^ l)) = nd (Suc l) (c div 2 ^ Suc l)"
    using parent_nd [of l "c div 2 ^ l"] l div_fits [of c l] by (simp add: div_mult2_eq [symmetric] mult.commute)
  have right: "is_right_child (nd l (c div 2 ^ l))" using odd l(1) by (simp add: is_right_child_def is_left_child_nd)
  have "[Suc l..<Suc t] = Suc l # [Suc (Suc l)..<Suc t]" using lt by (simp add: upt_conv_Cons del: upt_Suc)
  then show ?case
    using Suc.hyps(1) [OF d, of "to_freeze @ [(nd (Suc l) (c div 2 ^ Suc l), block mh leaves (Suc l) (c div 2 ^ Suc l))]"] lt
    by (subst freeze_parents.simps)
      (simp add: right pair_with_open_left [OF st l odd] block [unfolded One_nat_def] parent del: power_Suc upt_Suc)
qed

lemma last_index:
  assumes "0 < n" "factor_two n < l"
  shows "(n - 1) div 2 ^ l = n div 2 ^ l"
proof -
  obtain c where c: "n = Suc c" using assms(1) gr0_implies_Suc by blast
  obtain q where q: "n = q * 2 ^ factor_two n" "odd q" using factor_two_split [OF assms(1)] by blast
  have "\<not> 2 ^ l dvd n"
  proof
    assume "2 ^ l dvd n"
    then have "2 ^ Suc (factor_two n) dvd n" using assms(2) by (metis Suc_leI dvd_trans le_imp_power_dvd)
    then have "2 * 2 ^ factor_two n dvd q * 2 ^ factor_two n" using q(1) by simp
    then have "2 dvd q" by (metis dvd_mult_cancel2 dvd_times_right_cancel_iff power_not_zero zero_neq_numeral mult.commute)
    then show False using q(2) by simp
  qed
  then show ?thesis by (simp add: c div_Suc dvd_eq_mod_eq_0)
qed

lemma open_lefts_Suc:
  assumes "old \<le> c" "c < 2 ^ 63"
  defines "t \<equiv> factor_two (Suc c)"
  shows "open_lefts mh leaves old (Suc c) 0 =
    (nd t (c div 2 ^ t), block mh leaves t (c div 2 ^ t)) # open_lefts mh leaves old c t"
proof -
  have t: "t < 64" using factor_two_le [of "Suc c" 63] assms(2) by (simp add: t_def)
  have quot: "Suc c div 2 ^ l = Suc (c div 2 ^ l)" if "l \<le> t" for l
  proof -
    have "Suc c div 2 ^ l = Suc (c div 2 ^ l) * 2 ^ l div 2 ^ l" using ends_with(1) [of l c] that by (simp only: t_def)
    also have "\<dots> = Suc (c div 2 ^ l)" by (rule nonzero_mult_div_cancel_right) simp
    finally show ?thesis .
  qed
  have low: "even (Suc c div 2 ^ l)" if "l < t" for l
    using quot [of l] ends_with(2) [of l c] that by (simp add: t_def)
  have at: "Suc c div 2 ^ t = Suc (c div 2 ^ t)" "even (c div 2 ^ t)" "Suc (c div 2 ^ t) * 2 ^ t = Suc c"
    using ends_with [of t c] quot [of t] unfolding t_def by blast+
  have high: "Suc c div 2 ^ l = c div 2 ^ l" if "t < l" for l
    using last_index [of "Suc c" l] that by (simp add: t_def)
  have "[0..<64] = [0..<t] @ t # [Suc t..<64]" using t upt_add_eq_append [of 0 t "64 - t"] upt_conv_Cons [of t 64] by simp
  moreover have "filter (\<lambda>l. odd (Suc c div 2 ^ l) \<and> old < Suc c div 2 ^ l * 2 ^ l) [0..<t] = []"
    using low by (simp add: filter_empty_conv)
  moreover have "odd (Suc c div 2 ^ t)" "old < Suc c div 2 ^ t * 2 ^ t" "Suc c div 2 ^ t - 1 = c div 2 ^ t"
    using at assms(1) unfolding at(1) by simp_all
  moreover have "open_lefts mh leaves old (Suc c) (Suc t) = open_lefts mh leaves old c (Suc t)"
    unfolding open_lefts_def using high by (intro map_cong filter_cong) auto
  ultimately have "open_lefts mh leaves old (Suc c) 0 =
      (nd t (c div 2 ^ t), block mh leaves t (c div 2 ^ t)) # open_lefts mh leaves old c (Suc t)"
    unfolding open_lefts_def by (simp only: filter_append filter.simps append_Nil map_append list.map if_True conj_absorb simp_thms)
  then show ?thesis using open_lefts_step [OF t, of mh leaves old c] at(2) by simp
qed

lemma freeze_leaves_frozen:
  assumes st: "stored mh ls reader" "length ls = old" "leaves = ls @ news" and len: "length leaves \<le> 2 ^ 63"
  shows "leaves = pre @ rest \<Longrightarrow> length pre = unat n + off \<Longrightarrow> old \<le> length pre \<Longrightarrow>
    freeze_leaves mh reader n off rest (open_lefts mh leaves old (length pre) 0) to_freeze =
      Ok (open_lefts mh leaves old (length leaves) 0,
          to_freeze @ concat (map (frozen_at mh leaves) [length pre..<length leaves]))"
proof (induction rest arbitrary: pre off to_freeze)
  case (Cons x rest)
  let ?c = "length pre"
  have c: "?c < length leaves" using Cons.prems(1) by simp
  have "?c < 2 ^ 64" "off < 2 ^ 64" using c len Cons.prems(2) by simp_all
  then have u: "unat (of_nat ?c :: u64) = ?c" "unat (of_nat off :: u64) = off" by (simp_all only: unat_of_nat_u64)
  have i: "add_panic n (of_nat off) = (Ok (of_nat ?c) :: (anyhow_error, u64) outcome)"
    using u Cons.prems(2) by (intro panic_arith(2)) simp
  have x: "block mh leaves 0 ?c = x" using block_leaf [OF c] Cons.prems(1) by simp
  have "freeze_parents mh reader (nd 0 ?c) x (open_lefts mh leaves old ?c 0) (to_freeze @ [(nd 0 ?c, x)]) =
      Ok (nd (factor_two (Suc ?c)) (?c div 2 ^ factor_two (Suc ?c)),
          block mh leaves (factor_two (Suc ?c)) (?c div 2 ^ factor_two (Suc ?c)),
          open_lefts mh leaves old ?c (factor_two (Suc ?c)), to_freeze @ frozen_at mh leaves ?c)"
    using freeze_parents_frozen [OF st c len, of 0 "to_freeze @ [(nd 0 ?c, x)]"] x
    by (simp add: frozen_at_def upt_rec [of 0 "Suc _"] del: upt_Suc)
  moreover have "open_lefts mh leaves old (Suc ?c) 0 =
      (nd (factor_two (Suc ?c)) (?c div 2 ^ factor_two (Suc ?c)),
       block mh leaves (factor_two (Suc ?c)) (?c div 2 ^ factor_two (Suc ?c))) # open_lefts mh leaves old ?c (factor_two (Suc ?c))"
    using Cons.prems(3) c len by (intro open_lefts_Suc) simp_all
  moreover have "[?c..<length leaves] = ?c # [Suc ?c..<length leaves]" using c by (rule upt_conv_Cons)
  ultimately show ?case
    using Cons.IH [of "pre @ [x]" "Suc off" "to_freeze @ frozen_at mh leaves ?c"] Cons.prems u
    by (simp add: i from_leaf_index_nd [simplified])
qed simp

lemma block_Suc_last:
  assumes "j = (length leaves - 1) div 2 ^ l" "even j" "leaves \<noteq> []"
  shows "block mh leaves (Suc l) (j div 2) = mh (block mh leaves l j) accumulator_placeholder_hash"
proof -
  have j: "2 * (j div 2) = j" using assms(2) by simp
  have "j * 2 ^ l \<le> length leaves - 1" unfolding assms(1) by (rule div_times_less_eq_dividend)
  then have "j div 2 * 2 ^ Suc l < length leaves"
    using assms(3) j by (metis One_nat_def Suc_pred le_imp_less_Suc length_greater_0_conv mult.assoc mult.commute power_Suc)
  moreover have "length leaves - 1 < Suc j * 2 ^ l" unfolding assms(1) using dividend_less_times_div [of "2 ^ l" "length leaves - 1"]
    by (simp add: mult.commute)
  then have "length leaves \<le> Suc j * 2 ^ l" using assms(3) by simp
  ultimately show ?thesis using block_Suc [of "j div 2" l leaves mh] block_empty [of leaves "Suc j" l mh] j by simp
qed

lemma climb_to_root_blocks:
  assumes st: "stored mh ls reader" "length ls = old" "leaves = ls @ news" and len: "length leaves \<le> 2 ^ 63" "leaves \<noteq> []"
  defines "t \<equiv> factor_two (length leaves)"
  shows "t \<le> l \<Longrightarrow> l + k \<le> 63 \<Longrightarrow>
    climb_to_root mh reader k (nd l ((length leaves - 1) div 2 ^ l)) (block mh leaves l ((length leaves - 1) div 2 ^ l))
      (open_lefts mh leaves old (length leaves) (max l (Suc t))) =
    Ok (block mh leaves (l + k) ((length leaves - 1) div 2 ^ (l + k)), open_lefts mh leaves old (length leaves) (max (l + k) (Suc t)))"
proof (induction k arbitrary: l)
  case (Suc k)
  let ?n = "length leaves" and ?j = "(length leaves - 1) div 2 ^ l"
  have l: "l < 63" using Suc.prems by simp
  have n: "0 < ?n" "?n - 1 < 2 ^ 63"
  proof -
    show "0 < ?n" using len(2) by simp
    then show "?n - 1 < 2 ^ 63" using len(1) by linarith
  qed
  have parent: "parent (nd l ?j) = nd (Suc l) ((?n - 1) div 2 ^ Suc l)" and half: "(?n - 1) div 2 ^ Suc l = ?j div 2"
    using parent_nd [of l ?j] l n(2) div_fits [of "?n - 1" l] by (simp_all add: div_mult2_eq [symmetric] mult.commute)
  have "(if is_left_child (nd l ?j) then Ok (mh (block mh leaves l ?j) accumulator_placeholder_hash, open_lefts mh leaves old ?n (max l (Suc t)))
       else pair_with_left mh reader (nd l ?j) (block mh leaves l ?j) (open_lefts mh leaves old ?n (max l (Suc t)))) =
      Ok (block mh leaves (Suc l) (?j div 2), open_lefts mh leaves old ?n (max (Suc l) (Suc t)))" (is "?step = _")
  proof (cases "even ?j")
    case True
    have "open_lefts mh leaves old ?n (max l (Suc t)) = open_lefts mh leaves old ?n (max (Suc l) (Suc t))"
    proof (cases "l = t")
      case False
      then have lt: "t < l" using Suc.prems(1) by simp
      then have "even (?n div 2 ^ l)" "max l (Suc t) = l" "max (Suc l) (Suc t) = Suc l"
        using last_index [of ?n l] n(1) True by (simp_all add: t_def)
      then show ?thesis using open_lefts_step [of l mh leaves old ?n] l by (simp only:) simp
    qed simp
    then show ?thesis using True l block_Suc_last [OF refl True len(2), of mh] by (simp add: is_left_child_nd)
  next
    case False
    have "even ((?n - 1) div 2 ^ t)"
      using ends_with(2) [of t "?n - 1"] n(1) by (simp add: t_def)
    then have lt: "t < l" using False Suc.prems(1) by (metis le_neq_implies_less)
    then have j: "?j = ?n div 2 ^ l" using last_index [of ?n l] n(1) by (simp add: t_def)
    have max: "max l (Suc t) = l" "max (Suc l) (Suc t) = Suc l" using lt by simp_all
    have "?n < 2 ^ 63"
    proof (rule ccontr)
      assume "\<not> ?n < 2 ^ 63"
      then have "t = 63" using len(1) factor_two_shift [of 1 63] by (simp add: t_def le_antisym)
      then show False using lt l by simp
    qed
    then have "pair_with_left mh reader (nd l ?j) (block mh leaves l ?j) (open_lefts mh leaves old ?n l) =
        Ok (mh (block mh leaves l (?j - 1)) (block mh leaves l ?j), open_lefts mh leaves old ?n (Suc l))"
      unfolding j using pair_with_open_left [OF st l] False unfolding j by blast
    moreover have "?j = Suc (2 * (?j div 2))" using False by simp
    then have "mh (block mh leaves l (?j - 1)) (block mh leaves l ?j) = block mh leaves (Suc l) (?j div 2)"
      using block_Suc [of "?j div 2" l leaves mh] n(1) div_times_less_eq_dividend [of "?n - 1" "2 ^ Suc l"] unfolding half
      by (metis Suc_pred diff_Suc_1 le_imp_less_Suc)
    ultimately show ?thesis using False l unfolding max by (simp add: is_left_child_nd)
  qed
  then show ?case
    using Suc.IH [of "Suc l"] Suc.prems unfolding climb_to_root.simps parent half by simp
qed simp

lemma root_level_Ok:
  assumes "0 < unat n" "unat n \<le> 2 ^ 63"
  shows "root_level_from_leaf_count n = Ok (tree_height (unat n))"
proof -
  have n: "n > 0" "Suc (unat (n - 1)) = unat n"
    using rightmost_leaf_index_Ok(2) [OF assms(1)] assms(1) by (auto simp: word_gt_0)
  have "64 - leading_zeros (n - 1) = tree_height (unat n)"
  proof (cases "n - 1 = 0")
    case True
    then have "unat n = 1" using n(2) by simp
    moreover have "leading_zeros 0 = 64" by (simp add: leading_zeros_def takeWhile_eq_all_conv [THEN iffD2])
    ultimately show ?thesis using True by (simp add: tree_height.simps)
  next
    case False
    obtain m where m: "m < 64" "bit (n - 1) m" "\<And>j. m < j \<Longrightarrow> \<not> bit (n - 1) j" using highest_bit [OF False] by blast
    note b = highest_bit_bounds [OF m(2,3)]
    have "tree_height (unat n) = Suc m" using b n(2) by (intro tree_height_eqI) simp_all
    then show ?thesis using leading_zeros_highest [OF m(2,3)] m(1) by simp
  qed
  then show ?thesis using n(1) by (simp add: root_level_from_leaf_count_def max_accumulator_proof_depth_def)
qed

lemma max_to_freeze_Ok:
  assumes "m < 2 ^ 62" "k \<le> 63"
  shows "\<exists>cap. max_to_freeze (of_nat m) k = (Ok cap :: ('e, u64) outcome)"
proof -
  have u: "unat (of_nat m :: u64) = m" "unat (of_nat k :: u64) = k" "unat (of_nat (2 * m) :: u64) = 2 * m"
    "unat (of_nat (2 * m + k) :: u64) = 2 * m + k"
    using assms by (auto intro!: unat_of_nat_u64 simp del: of_nat_add of_nat_mult)
  have "mul_panic (of_nat m) 2 = (Ok (of_nat (2 * m)) :: ('e, u64) outcome)"
    using u(1) assms(1) by (simp add: mul_panic_def checked_mul_def)
  moreover have "add_panic (of_nat (2 * m)) (of_nat k) = (Ok (of_nat (2 * m + k)) :: ('e, u64) outcome)"
    using u by (intro panic_arith(2)) simp
  ultimately show ?thesis by (simp add: max_to_freeze_def)
qed

lemma open_lefts_top:
  assumes "0 < n" "n \<le> 2 ^ 63" "old < n"
  defines "t \<equiv> factor_two n"
  shows "open_lefts mh leaves old n 0 =
    (nd t ((n - 1) div 2 ^ t), block mh leaves t ((n - 1) div 2 ^ t)) # open_lefts mh leaves old n (Suc t)"
proof -
  obtain c where c: "n = Suc c" using assms(1) gr0_implies_Suc by blast
  have t: "t < 64" using factor_two_le [OF assms(1,2)] by (simp add: t_def)
  have high: "Suc c div 2 ^ l = c div 2 ^ l" if "t < l" for l
    using last_index [of "Suc c" l] that c by (simp add: t_def)
  have "even (c div 2 ^ t)" using ends_with(2) [of t c] c by (simp add: t_def)
  then have "open_lefts mh leaves old c t = open_lefts mh leaves old c (Suc t)"
    using open_lefts_step [OF t, of mh leaves old c] by simp
  also have "\<dots> = open_lefts mh leaves old n (Suc t)"
    unfolding open_lefts_def c using high by (intro map_cong filter_cong) auto
  finally show ?thesis using open_lefts_Suc [of old c mh leaves] assms(2,3) c by (simp add: t_def)
qed

lemma open_lefts_done:
  assumes "0 < n"
  shows "open_lefts mh leaves old n (max (tree_height n) (Suc (factor_two n))) = []"
proof (rule open_lefts_Nil)
  let ?j = "max (tree_height n) (Suc (factor_two n))"
  have "n < 2 ^ ?j"
  proof (cases "n = 2 ^ tree_height n")
    case True
    then have "factor_two n = tree_height n" using factor_two_shift [of 1 "tree_height n"] by simp
    then have "(2 :: nat) ^ tree_height n < 2 ^ ?j" by (intro power_strict_increasing) simp_all
    with True show ?thesis by (rule ord_eq_less_trans)
  next
    case False
    then have "n < 2 ^ tree_height n" using tree_height_props [of n] by simp
    also have "\<dots> \<le> 2 ^ ?j" by (intro power_increasing) simp_all
    finally show ?thesis .
  qed
  then show "n div 2 ^ ?j * 2 ^ ?j \<le> old" by simp
qed

lemma storage_append_frozen:
  assumes st: "stored mh ls reader" and len: "length ls + length news \<le> 2 ^ 63" "length news < 2 ^ 62" and ne: "news \<noteq> []"
  shows "storage_append mh reader (of_nat (length ls)) news =
    Ok (merkle_root mh (ls @ news), concat (map (frozen_at mh (ls @ news)) [length ls..<length (ls @ news)]))"
proof -
  let ?L = "ls @ news" and ?n = "of_nat (length ls) :: u64" and ?m = "of_nat (length news) :: u64"
  let ?T = "length (ls @ news)" and ?t = "factor_two (length (ls @ news))"
  have u: "unat ?n = length ls" "unat ?m = length news" "unat (of_nat ?T :: u64) = ?T"
    using len(1) by (auto intro!: unat_of_nat_u64 simp del: of_nat_add)
  have T: "0 < ?T" "?T \<le> 2 ^ 63" "?L \<noteq> []" using len(1) ne by simp_all
  have total: "add_panic ?n ?m = (Ok (of_nat ?T) :: (anyhow_error, u64) outcome)"
    using u by (intro panic_arith(2)) simp
  have h: "tree_height ?T \<le> 63" "?T \<le> 2 ^ tree_height ?T" using tree_height_le [OF T(2)] tree_height_props by auto
  have level: "root_level_from_leaf_count (of_nat ?T) = (Ok (tree_height ?T) :: (anyhow_error, nat) outcome)"
    using root_level_Ok [of "of_nat ?T"] T u(3) by simp
  obtain cap where cap: "max_to_freeze ?m (tree_height ?T) = (Ok cap :: (anyhow_error, u64) outcome)"
    using max_to_freeze_Ok [of "length news" "tree_height ?T"] len(2) h(1) by blast
  have freeze: "freeze_leaves mh reader ?n 0 news [] [] =
      Ok (open_lefts mh ?L (length ls) ?T 0, concat (map (frozen_at mh ?L) [length ls..<?T]))"
    using freeze_leaves_frozen [OF st refl refl T(2), of ls news ?n 0 "[]"] u(1)
    by (simp add: open_lefts_Nil)
  have top: "open_lefts mh ?L (length ls) ?T 0 =
      (nd ?t ((?T - 1) div 2 ^ ?t), block mh ?L ?t ((?T - 1) div 2 ^ ?t)) # open_lefts mh ?L (length ls) ?T (Suc ?t)"
    using open_lefts_top [OF T(1,2), of "length ls"] ne by simp
  have z: "(?T - 1) div 2 ^ tree_height ?T = 0" using h(2) T(1) by (intro div_less) linarith
  have "?t \<le> tree_height ?T" using factor_two_le [OF T(1) h(2)] .
  then have climb: "climb_to_root mh reader (tree_height ?T - ?t) (nd ?t ((?T - 1) div 2 ^ ?t)) (block mh ?L ?t ((?T - 1) div 2 ^ ?t))
      (open_lefts mh ?L (length ls) ?T (Suc ?t)) =
      Ok (block mh ?L (tree_height ?T) 0, open_lefts mh ?L (length ls) ?T (max (tree_height ?T) (Suc ?t)))"
    using climb_to_root_blocks [OF st refl refl T(2,3) order_refl, of "tree_height ?T - ?t"] h(1) z by simp
  have "?t < 64" using factor_two_le [OF T(1,2)] by simp
  then show ?thesis
    using ne by (simp only: storage_append_def if_False and_then.simps total level cap freeze top prod.case list.case level_nd climb
        block_root open_lefts_done [OF T(1)] assert_panic_simps simp_thms)
qed

text \<open>The storage after the frozen nodes have been written to it.\<close>

definition write_nodes :: "hash_reader \<Rightarrow> frozen_node list \<Rightarrow> hash_reader" where
  "write_nodes reader nodes p = (case map_of nodes p of Some h \<Rightarrow> Ok h | None \<Rightarrow> reader p)"

lemma nd_inject:
  assumes "nd l i = nd m k" "l < 64" "i < 2 ^ (63 - l)" "m < 64" "k < 2 ^ (63 - m)"
  shows "l = m \<and> i = k"
  using node_inject [OF nd_ok(2) nd_ok(2)] nd_ok(1) assms unfolding nd_def by metis

lemma frozen_at_iff:
  "(p, h) \<in> set (frozen_at mh leaves c) \<longleftrightarrow>
    (\<exists>m\<le>factor_two (Suc c). p = nd m (c div 2 ^ m) \<and> h = block mh leaves m (c div 2 ^ m))"
  by (auto simp: frozen_at_def less_Suc_eq_le simp del: upt_Suc)

lemma in_frozen_at:
  assumes "(p, h) \<in> set (frozen_at mh leaves c)" "c < 2 ^ 63"
  obtains m where "m < 64" "c div 2 ^ m < 2 ^ (63 - m)" "p = nd m (c div 2 ^ m)" "h = block mh leaves m (c div 2 ^ m)"
proof -
  obtain m where m: "m \<le> factor_two (Suc c)" "p = nd m (c div 2 ^ m)" "h = block mh leaves m (c div 2 ^ m)"
    using assms(1) by (auto simp: frozen_at_iff)
  moreover have "m \<le> 63" using m(1) factor_two_le [of "Suc c" 63] assms(2) by simp
  ultimately show thesis using div_fits [OF assms(2), of m] that [of m] by simp
qed

lemma new_node_frozen:
  assumes "Suc i * 2 ^ l \<le> n" "old < Suc i * 2 ^ l"
  obtains c where "c \<in> {old..<n}" "(nd l i, block mh leaves l i) \<in> set (frozen_at mh leaves c)"
proof -
  have "0 < Suc i * 2 ^ l" by simp
  then obtain c where c: "Suc i * 2 ^ l = Suc c" using gr0_implies_Suc by blast
  have l: "l \<le> factor_two (Suc c)" using factor_two_shift [of "Suc i" l] unfolding c by simp
  have "Suc (c div 2 ^ l) * 2 ^ l = Suc i * 2 ^ l" using ends_with(1) [OF l] unfolding c .
  then have "c div 2 ^ l = i" by (simp only: mult_cancel2) simp
  then have "(nd l i, block mh leaves l i) \<in> set (frozen_at mh leaves c)"
    using l unfolding frozen_at_iff by (intro exI [of _ l]) simp
  moreover have "c \<in> {old..<n}" using assms unfolding c by simp
  ultimately show thesis using that by blast
qed

lemma stored_after_write:
  assumes st: "stored mh ls reader" and len: "length (ls @ news) \<le> 2 ^ 63"
  shows "stored mh (ls @ news) (write_nodes reader (concat (map (frozen_at mh (ls @ news)) [length ls..<length (ls @ news)])))"
proof -
  let ?L = "ls @ news" and ?new = "concat (map (frozen_at mh (ls @ news)) [length ls..<length (ls @ news)])"
  have "write_nodes reader ?new (nd l i) = Ok (block mh ?L l i)" if l: "l < 64" "Suc i * 2 ^ l \<le> length ?L" for l i
  proof -
    have "i * 2 ^ l + 2 ^ l \<le> length ?L" using l(2) by simp
    then have "i * 2 ^ l < 2 ^ 63" using len one_le_power [of "2 :: nat" l] by linarith
    then have i: "i < 2 ^ (63 - l)" using l(1) by (intro nd_fits) simp_all
    have hash: "h = block mh ?L l i" if "(nd l i, h) \<in> set ?new" for h
    proof -
      obtain c where c: "c < length ?L" "(nd l i, h) \<in> set (frozen_at mh ?L c)" using \<open>(nd l i, h) \<in> set ?new\<close> by auto
      obtain m where m: "m < 64" "c div 2 ^ m < 2 ^ (63 - m)" "nd l i = nd m (c div 2 ^ m)" "h = block mh ?L m (c div 2 ^ m)"
        using in_frozen_at [OF c(2) less_le_trans [OF c(1) len]] .
      then show ?thesis using nd_inject [OF m(3) l(1) i m(1,2)] by simp
    qed
    show ?thesis
    proof (cases "map_of ?new (nd l i)")
      case None
      then have "nd l i \<notin> fst ` set ?new" by (simp add: map_of_eq_None_iff)
      have old: "Suc i * 2 ^ l \<le> length ls"
      proof (rule ccontr)
        assume "\<not> Suc i * 2 ^ l \<le> length ls"
        then obtain c where "c \<in> {length ls..<length ?L}" "(nd l i, block mh ?L l i) \<in> set (frozen_at mh ?L c)"
          using new_node_frozen [OF l(2), of "length ls" mh ?L] by (metis not_le)
        then have "(nd l i, block mh ?L l i) \<in> set ?new" by auto
        then show False using \<open>nd l i \<notin> fst ` set ?new\<close> by (metis fst_conv image_eqI)
      qed
      then show ?thesis using st l(1) None by (simp add: write_nodes_def stored_def block_prefix del: mult_Suc)
    next
      case (Some h)
      then show ?thesis using hash [OF map_of_SomeD [OF Some]] by (simp add: write_nodes_def)
    qed
  qed
  then show ?thesis by (simp add: stored_def)
qed

text \<open>The nodes are frozen in post-order: the next leaf comes right after the last node frozen with the leaf before.\<close>

lemma postorder_first_leaf:
  "l < 63 \<Longrightarrow> q < 2 ^ (63 - l) \<Longrightarrow> postorder l q = postorder 0 (q * 2 ^ l) + (2 ^ Suc l - 2)"
proof (induction l arbitrary: q)
  case (Suc l)
  then have "q < 2 ^ (62 - l)" "63 - l = Suc (62 - l)" by simp_all
  moreover from this have "2 * q < 2 ^ (63 - l)" by simp
  ultimately have "postorder (Suc l) q = postorder 0 (2 * q * 2 ^ l) + (2 ^ Suc l - 2) + 2 ^ Suc l"
    using postorder_children [of l q] Suc.IH [of "2 * q"] Suc.prems(1) by simp
  moreover have e: "q * 2 ^ Suc l = 2 * q * 2 ^ l" by simp
  moreover have "(2 :: nat) ^ Suc (Suc l) = 2 * 2 ^ Suc l" "(2 :: nat) \<le> 2 ^ Suc l" by simp_all
  ultimately show ?case unfolding e by linarith
qed simp

lemma postorder_ending:
  assumes "c < 2 ^ 62" "m \<le> factor_two (Suc c)" "factor_two (Suc c) < 62"
  shows "postorder m (c div 2 ^ m) = postorder 0 c + m"
  using assms(2)
proof (induction m)
  case (Suc m)
  have "odd (c div 2 ^ m)" using ends_with(2) [of m c] Suc.prems by simp
  then have half: "c div 2 ^ m = 2 * (c div 2 ^ Suc m) + 1"
    unfolding power_Suc2 div_mult2_eq by simp
  have e: "(2 :: nat) ^ (62 - m) * 2 ^ Suc m = 2 ^ 63" using Suc.prems assms(3) by (subst power_add [symmetric]) simp
  have "c < 2 ^ (62 - m) * 2 ^ Suc m" unfolding e using assms(1) by simp
  then have "c div 2 ^ Suc m < 2 ^ (62 - m)" by (rule less_mult_imp_div_less)
  then have "postorder (Suc m) (c div 2 ^ Suc m) = Suc (postorder m (c div 2 ^ m))"
    using postorder_children [of m "c div 2 ^ Suc m"] Suc.prems assms(3) unfolding half by simp
  then show ?case using Suc by simp
qed simp

lemma postorder_next_leaf:
  assumes "Suc c < 2 ^ 62"
  shows "postorder 0 (Suc c) = postorder 0 c + Suc (factor_two (Suc c))"
proof -
  define t where "t = factor_two (Suc c)"
  have "t \<le> 62" using factor_two_le [of "Suc c" 62] assms by (simp add: t_def)
  moreover have "t \<noteq> 62"
    using ends_with(1) [of t c] assms by (auto simp: t_def)
  ultimately have t: "t < 62" by simp
  have "even (c div 2 ^ t)" and ends: "Suc (c div 2 ^ t) * 2 ^ t = Suc c" using ends_with [of t c] by (auto simp: t_def)
  then obtain Q where Q: "c div 2 ^ t = 2 * Q" by blast
  have "Suc (2 * Q) * 2 ^ t < 2 ^ (62 - t) * 2 ^ t" using ends assms t unfolding Q by (simp add: power_add [symmetric])
  then have "Suc (2 * Q) < 2 ^ (62 - t)" by (simp only: mult_less_cancel2)
  moreover have "(2 :: nat) ^ (62 - t) \<le> 2 ^ (63 - t)" by (intro power_increasing) simp_all
  ultimately have fit: "Q < 2 ^ (62 - t)" "Suc (2 * Q) < 2 ^ (63 - t)" by linarith+
  have "postorder t (2 * Q) = postorder 0 c + t"
    using postorder_ending [of c t] assms t Q by (simp add: t_def)
  moreover have "Suc (postorder t (Suc (2 * Q))) = postorder t (2 * Q) + 2 ^ Suc t"
    using postorder_children [of t Q] t fit(1) by simp
  moreover have "postorder t (Suc (2 * Q)) = postorder 0 (Suc c) + (2 ^ Suc t - 2)"
    using postorder_first_leaf [of t "Suc (2 * Q)"] t fit(2) ends unfolding Q by simp
  moreover have "(2 :: nat) \<le> 2 ^ Suc t" by simp
  ultimately show ?thesis by (simp only: t_def [symmetric])
qed

lemma frozen_at_postorder:
  assumes "Suc c < 2 ^ 62"
  shows "map (to_postorder_index \<circ> fst) (frozen_at mh leaves c) =
    map (\<lambda>i. Ok (of_nat i) :: ('e, u64) outcome) [postorder 0 c..<postorder 0 (Suc c)]"
proof -
  let ?t = "factor_two (Suc c)"
  have "?t < 62"
    using factor_two_le [of "Suc c" 62] ends_with(1) [of ?t c] assms by (cases "?t = 62") auto
  have "to_postorder_index (nd m (c div 2 ^ m)) = (Ok (of_nat (postorder 0 c + m)) :: ('e, u64) outcome)" if "m \<le> ?t" for m
  proof -
    have m: "m < 63" "c < 2 ^ 63" using that \<open>?t < 62\<close> assms by simp_all
    have i: "c div 2 ^ m < 2 ^ (63 - m)" using m by (intro div_fits) simp_all
    have "node_ok m (of_nat (c div 2 ^ m))" "unat (of_nat (c div 2 ^ m) :: u64) = c div 2 ^ m"
      using nd_ok [OF _ i] m(1) by simp_all
    then have "to_postorder_index (nd m (c div 2 ^ m)) = (Ok (of_nat (postorder m (c div 2 ^ m))) :: ('e, u64) outcome)"
      using m(1) unfolding nd_def by (subst postorder_round_trip(1)) simp_all
    then show ?thesis using postorder_ending [of c m] that \<open>?t < 62\<close> assms by simp
  qed
  moreover have "[postorder 0 c..<postorder 0 c + Suc ?t] = map (\<lambda>m. postorder 0 c + m) [0..<Suc ?t]"
    using map_add_upt [of "postorder 0 c" "Suc ?t"] by (simp only: add.commute)
  ultimately show ?thesis
    unfolding frozen_at_def postorder_next_leaf [OF assms] by (simp del: upt_Suc of_nat_add)
qed

lemma frozen_postorder:
  assumes "n < 2 ^ 62"
  shows "old \<le> n \<Longrightarrow> map (to_postorder_index \<circ> fst) (concat (map (frozen_at mh leaves) [old..<n])) =
    map (\<lambda>i. Ok (of_nat i) :: ('e, u64) outcome) [postorder 0 old..<postorder 0 n] \<and> postorder 0 old \<le> postorder 0 n"
  using assms
proof (induction n)
  case (Suc n)
  show ?case
  proof (cases "old = Suc n")
    case False
    then have le: "old \<le> n" using Suc.prems(1) by simp
    note IH = Suc.IH [OF le Suc_lessD [OF Suc.prems(2)]]
    then have "[postorder 0 old..<postorder 0 (Suc n)] = [postorder 0 old..<postorder 0 n] @ [postorder 0 n..<postorder 0 (Suc n)]"
      unfolding postorder_next_leaf [OF Suc.prems(2)] by (intro upt_add_eq_append) blast
    moreover have "[old..<Suc n] = [old..<n] @ [n]" using le by simp
    ultimately show ?thesis
      using IH frozen_at_postorder [OF Suc.prems(2), of mh leaves] postorder_next_leaf [OF Suc.prems(2)]
      by (simp only: map_append concat_append concat.simps list.map append_Nil2) simp
  qed simp
qed simp

section \<open>Range proofs\<close>

lemma pairs_of_range:
  "even a \<Longrightarrow> a \<le> b \<Longrightarrow>
   hash_pairs mh (map f [a..<b]) = map (\<lambda>i. mh (f (2 * i)) (f (Suc (2 * i)))) [a div 2..<b div 2] \<and>
   pairs_remainder (map f [a..<b]) = (if even b then [] else [f (b - 1)])"
proof (induction "b - a" arbitrary: a rule: less_induct)
  case less
  consider "b = a" | "b = Suc a" | "Suc (Suc a) \<le> b" using less.prems(2) by linarith
  then show ?case
  proof cases
    case 3
    then have e: "[a..<b] = a # Suc a # [Suc (Suc a)..<b]" by (simp add: upt_conv_Cons)
    have "Suc (Suc a) div 2 \<le> b div 2" using 3 by (rule div_le_mono)
    then have d: "[a div 2..<b div 2] = a div 2 # [Suc (Suc a) div 2..<b div 2]" by (simp add: upt_conv_Cons)
    have a: "2 * (a div 2) = a" using less.prems(1) by simp
    show ?thesis unfolding e d using less.hyps [of "Suc (Suc a)"] 3 less.prems a by simp
  qed (use less.prems in simp_all)
qed

text \<open>The hashes and siblings that are left at level \<open>l\<close> of the tree of height \<open>h\<close>.\<close>

definition level_hashes :: "node_hasher \<Rightarrow> hash_value list \<Rightarrow> nat \<Rightarrow> nat \<Rightarrow> nat \<Rightarrow> hash_value list" where
  "level_hashes mh leaves fst_index lst_index l = map (block mh leaves l) [fst_index div 2 ^ l..<Suc (lst_index div 2 ^ l)]"

definition left_path :: "node_hasher \<Rightarrow> hash_value list \<Rightarrow> nat \<Rightarrow> nat \<Rightarrow> nat \<Rightarrow> hash_value list" where
  "left_path mh leaves h i l = map (\<lambda>m. block mh leaves m (i div 2 ^ m - 1)) (filter (\<lambda>m. odd (i div 2 ^ m)) [l..<h])"

definition right_path :: "node_hasher \<Rightarrow> hash_value list \<Rightarrow> nat \<Rightarrow> nat \<Rightarrow> nat \<Rightarrow> hash_value list" where
  "right_path mh leaves h i l = map (\<lambda>m. block mh leaves m (Suc (i div 2 ^ m))) (filter (\<lambda>m. even (i div 2 ^ m)) [l..<h])"

lemma paths_step:
  assumes "l < h"
  shows "left_path mh leaves h i l = (if odd (i div 2 ^ l) then [block mh leaves l (i div 2 ^ l - 1)] else []) @ left_path mh leaves h i (Suc l)"
    and "right_path mh leaves h i l = (if even (i div 2 ^ l) then [block mh leaves l (Suc (i div 2 ^ l))] else []) @ right_path mh leaves h i (Suc l)"
  using assms by (simp_all add: left_path_def right_path_def upt_conv_Cons)

lemma combine_level_blocks:
  assumes "l < h" "h \<le> 63" "i \<le> j" "j < length leaves" "length leaves \<le> 2 ^ 63"
  shows "combine_level mh (nd l (i div 2 ^ l)) (level_hashes mh leaves i j l) (left_path mh leaves h i l) (right_path mh leaves h j l) =
    Ok (level_hashes mh leaves i j (Suc l), left_path mh leaves h i (Suc l), right_path mh leaves h j (Suc l))"
proof -
  define f g where "f = i div 2 ^ l" and "g = j div 2 ^ l"
  have fg: "f \<le> g" unfolding f_def g_def using assms(3) by (rule div_le_mono)
  have half: "i div 2 ^ Suc l = f div 2" "j div 2 ^ Suc l = g div 2"
    unfolding f_def g_def by (simp_all add: div_mult2_eq [symmetric] mult.commute)
  have up: "mh (block mh leaves l (2 * k)) (block mh leaves l (Suc (2 * k))) = block mh leaves (Suc l) k" if "k \<le> g div 2" for k
  proof -
    have "k * 2 ^ Suc l \<le> j div 2 ^ Suc l * 2 ^ Suc l" using that unfolding half by (rule mult_le_mono1)
    also have "\<dots> \<le> j" by (rule div_times_less_eq_dividend)
    finally show ?thesis using block_Suc [of k l leaves mh] assms(4) by simp
  qed
  have right: "is_right_child (nd l f) \<longleftrightarrow> odd f" using assms(1,2) by (simp add: is_right_child_def is_left_child_nd)
  have last: "(case (if even (Suc g) then [] else [block mh leaves l g]) of
        [] \<Rightarrow> Ok ([], right_path mh leaves h j l)
      | left_hash # _ \<Rightarrow>
          (case right_path mh leaves h j l of
             [] \<Rightarrow> Err (Msg ''Last child is a left child, but missing sibling on the right.'')
           | right_hash # rights' \<Rightarrow> Ok ([mh left_hash right_hash], rights'))) =
      Ok (if even g then [block mh leaves (Suc l) (g div 2)] else [], right_path mh leaves h j (Suc l))"
    using paths_step(2) [OF assms(1), of mh leaves j] up [of "g div 2"] by (auto simp: g_def [symmetric])
  have pairs: "hash_pairs mh (map (block mh leaves l) [a..<Suc g]) = map (block mh leaves (Suc l)) [a div 2..<Suc g div 2]"
      "pairs_remainder (map (block mh leaves l) [a..<Suc g]) = (if even (Suc g) then [] else [block mh leaves l g])"
    if "even a" "a \<le> Suc g" for a
  proof -
    have "map (\<lambda>k. mh (block mh leaves l (2 * k)) (block mh leaves l (Suc (2 * k)))) [a div 2..<Suc g div 2] =
        map (block mh leaves (Suc l)) [a div 2..<Suc g div 2]"
      by (intro map_cong refl up) (auto simp: less_Suc_eq_le)
    then show "hash_pairs mh (map (block mh leaves l) [a..<Suc g]) = map (block mh leaves (Suc l)) [a div 2..<Suc g div 2]"
      "pairs_remainder (map (block mh leaves l) [a..<Suc g]) = (if even (Suc g) then [] else [block mh leaves l g])"
      using pairs_of_range [OF that, of mh "block mh leaves l"] by simp_all
  qed
  have hashes: "level_hashes mh leaves i j l = map (block mh leaves l) [f..<Suc g]" by (simp only: level_hashes_def f_def g_def)
  show ?thesis
  proof (cases "even f")
    case True
    then have "combine_level mh (nd l f) (level_hashes mh leaves i j l) (left_path mh leaves h i l) (right_path mh leaves h j l) =
        Ok (map (block mh leaves (Suc l)) ([f div 2..<Suc g div 2] @ (if even g then [g div 2] else [])),
            left_path mh leaves h i (Suc l), right_path mh leaves h j (Suc l))"
      using paths_step(1) [OF assms(1), of mh leaves i] pairs [of f] fg right last
      unfolding combine_level_def hashes f_def [symmetric]
      by (simp del: upt_Suc even_Suc)
    moreover have "[f div 2..<Suc g div 2] @ (if even g then [g div 2] else []) = [f div 2..<Suc (g div 2)]"
      using div_le_mono [OF fg, of 2] by auto
    ultimately show ?thesis by (simp only: f_def [symmetric] level_hashes_def half)
  next
    case False
    have "level_hashes mh leaves i j l = block mh leaves l f # map (block mh leaves l) [Suc f..<Suc g]"
      using fg by (simp add: hashes upt_conv_Cons del: upt_Suc)
    moreover have "mh (block mh leaves l (f - 1)) (block mh leaves l f) = block mh leaves (Suc l) (f div 2)"
      using up [of "f div 2"] div_le_mono [OF fg, of 2] False by (simp add: odd_two_times_div_two_nat)
    ultimately have "combine_level mh (nd l f) (level_hashes mh leaves i j l) (left_path mh leaves h i l) (right_path mh leaves h j l) =
        Ok (map (block mh leaves (Suc l)) (f div 2 # [Suc f div 2..<Suc g div 2] @ (if even g then [g div 2] else [])),
            left_path mh leaves h i (Suc l), right_path mh leaves h j (Suc l))"
      using paths_step(1) [OF assms(1), of mh leaves i] pairs [of "Suc f"] fg right last False
      unfolding combine_level_def f_def [symmetric]
      by (simp del: upt_Suc)
    moreover have "f div 2 # [Suc f div 2..<Suc g div 2] @ (if even g then [g div 2] else []) = [f div 2..<Suc (g div 2)]"
    proof (cases "even g")
      case True
      then have "Suc (f div 2) \<le> g div 2" using False fg by (elim evenE oddE) simp
      then show ?thesis using True False by (simp add: upt_conv_Cons)
    next
      case odd: False
      then show ?thesis using False div_le_mono [OF fg, of 2] by (simp add: upt_conv_Cons)
    qed
    ultimately show ?thesis by (simp only: f_def [symmetric] level_hashes_def half)
  qed
qed

lemma range_verify_loop_blocks:
  assumes "i \<le> j" "j < length leaves" "length leaves \<le> 2 ^ 63"
  defines "h \<equiv> tree_height (length leaves)"
  shows "l \<le> h \<Longrightarrow>
    range_verify_loop mh (nd l (i div 2 ^ l)) (level_hashes mh leaves i j l) (left_path mh leaves h i l) (right_path mh leaves h j l) =
      Some (Ok [merkle_root mh leaves])"
proof (induction "h - l" arbitrary: l)
  case 0
  have h: "h \<le> 63" "length leaves \<le> 2 ^ h" using tree_height_le [OF assms(3)] tree_height_props by (auto simp: h_def)
  have "l = h" using 0 by simp
  moreover have "i div 2 ^ h = 0" "j div 2 ^ h = 0" using assms(1,2) h(2) by simp_all
  ultimately have "level_hashes mh leaves i j l = [merkle_root mh leaves]" "left_path mh leaves h i l = []" "right_path mh leaves h j l = []"
    using block_root [of mh leaves] by (simp_all add: level_hashes_def left_path_def right_path_def h_def)
  then show ?case by (simp add: range_verify_loop.simps)
next
  case (Suc d)
  have h: "h \<le> 63" using tree_height_le [OF assms(3)] by (simp add: h_def)
  have l: "l < h" "d = h - Suc l" using Suc.hyps(2) by simp_all
  have more: "length (level_hashes mh leaves i j l) > 1 \<or> left_path mh leaves h i l \<noteq> [] \<or> right_path mh leaves h j l \<noteq> []"
  proof (cases "i div 2 ^ l = j div 2 ^ l")
    case True
    then show ?thesis using paths_step [OF l(1), of mh leaves] by simp
  next
    case False
    then have "i div 2 ^ l < j div 2 ^ l" using div_le_mono [OF assms(1), of "2 ^ l"] by simp
    then show ?thesis by (simp add: level_hashes_def)
  qed
  have "parent (nd l (i div 2 ^ l)) = nd (Suc l) (i div 2 ^ Suc l)"
    using parent_nd [of l "i div 2 ^ l"] l h assms(1-3) div_fits [of i l] by (simp add: div_mult2_eq [symmetric] mult.commute)
  moreover have "Suc l \<le> h" using l(1) by simp
  ultimately show ?case
    using Suc.hyps(1) [OF l(2)] combine_level_blocks [OF l(1) h assms(1-3), of mh] more
    by (simp add: range_verify_loop.simps [of mh "nd l (i div 2 ^ l)"] del: power_Suc)
qed

lemma sibling_paths:
  assumes "h \<le> 63"
  shows "filter is_left_child (map (\<lambda>m. nd m (sib (i div 2 ^ m))) [0..<h]) =
      map (\<lambda>(l, k). nd l k) (map (\<lambda>m. (m, i div 2 ^ m - 1)) (filter (\<lambda>m. odd (i div 2 ^ m)) [0..<h]))"
    and "filter is_right_child (map (\<lambda>m. nd m (sib (i div 2 ^ m))) [0..<h]) =
      map (\<lambda>(l, k). nd l k) (map (\<lambda>m. (m, Suc (i div 2 ^ m))) (filter (\<lambda>m. even (i div 2 ^ m)) [0..<h]))"
  using assms
  by (auto simp: filter_map comp_def is_right_child_def is_left_child_nd sib_def intro!: map_cong filter_cong)

lemma get_range_proof_stored:
  assumes st: "stored mh leaves reader" and len: "length leaves \<le> 2 ^ 63"
    and num: "0 < unat num" "unat first + unat num \<le> length leaves"
  defines "h \<equiv> tree_height (length leaves)" and "j \<equiv> unat first + unat num - 1"
  shows "get_range_proof mh reader (of_nat (length leaves)) (Some first) num =
    Ok \<lparr>left_siblings = left_path mh leaves h (unat first) 0, right_siblings = right_path mh leaves h j 0\<rparr>"
proof -
  let ?n = "of_nat (length leaves) :: u64"
  have u: "unat ?n = length leaves" using len by (simp add: unat_length)
  have n: "0 < unat ?n" "unat ?n \<le> 2 ^ 63" "0 < length leaves" using num len unfolding u by linarith+
  have h: "h \<le> 63" using tree_height_le [OF len] by (simp add: h_def)
  have "1 \<le> num" using num(1) by (simp add: word_le_nat_alt)
  then have "unat (num - 1) = unat num - 1" by (simp add: unat_sub)
  then have "unat (first + (num - 1)) = j" "checked_add first (num - 1) = Some (first + (num - 1))"
    using num len by (simp_all add: j_def unat_word_ariths checked_add_def)
  then obtain last where last: "unat last = j" "checked_add first (num - 1) = Some last" by blast
  have ij: "unat first < 2 ^ 63" "j < 2 ^ 63" "j < length leaves" using num len by (simp_all add: j_def)
  have pos: "get_sibling_positions ?n first is_left_child =
        (Ok (map (\<lambda>(l, k). nd l k) (map (\<lambda>m. (m, unat first div 2 ^ m - 1)) (filter (\<lambda>m. odd (unat first div 2 ^ m)) [0..<h]))) :: (anyhow_error, _) outcome)"
      "get_sibling_positions ?n last is_right_child =
        (Ok (map (\<lambda>(l, k). nd l k) (map (\<lambda>m. (m, Suc (j div 2 ^ m))) (filter (\<lambda>m. even (j div 2 ^ m)) [0..<h]))) :: (anyhow_error, _) outcome)"
    using get_sibling_positions_nd [OF n(1,2), of first is_left_child] get_sibling_positions_nd [OF n(1,2), of last is_right_child]
      ij last(1) sibling_paths [OF h] u by (simp_all add: h_def)
  have fit: "m < 64 \<and> unat first div 2 ^ m - 1 < 2 ^ (63 - m)" "even (j div 2 ^ m) \<Longrightarrow> m < 64 \<and> Suc (j div 2 ^ m) < 2 ^ (63 - m)"
    if "m < h" for m
    using that h div_fits [OF ij(1), of m] div_fits [OF ij(2), of m] sib_fits [of m "j div 2 ^ m"] by (auto simp: sib_def)
  have "num > 0" "last < ?n" using num(1) last(1) ij(3) u by (auto simp: word_gt_0 word_less_nat_alt)
  then have "get_range_proof_positions ?n (Some first) num =
      Ok (map (\<lambda>(l, k). nd l k) (map (\<lambda>m. (m, unat first div 2 ^ m - 1)) (filter (\<lambda>m. odd (unat first div 2 ^ m)) [0..<h])),
          map (\<lambda>(l, k). nd l k) (map (\<lambda>m. (m, Suc (j div 2 ^ m))) (filter (\<lambda>m. even (j div 2 ^ m)) [0..<h])))"
    unfolding get_range_proof_positions_def by (simp only: option.case ensure_simps and_then.simps last(2) ok_or_simps pos)
  moreover have "get_hashes mh reader ?n (map (\<lambda>(l, k). nd l k) (map (\<lambda>m. (m, unat first div 2 ^ m - 1)) (filter (\<lambda>m. odd (unat first div 2 ^ m)) [0..<h]))) =
      Ok (left_path mh leaves h (unat first) 0)"
    by (subst get_hashes_block [OF st n(3) len refl]) (use fit(1) in \<open>auto simp: left_path_def comp_def\<close>)
  moreover have "get_hashes mh reader ?n (map (\<lambda>(l, k). nd l k) (map (\<lambda>m. (m, Suc (j div 2 ^ m))) (filter (\<lambda>m. even (j div 2 ^ m)) [0..<h]))) =
      Ok (right_path mh leaves h j 0)"
    by (subst get_hashes_block [OF st n(3) len refl]) (use fit(2) in \<open>auto simp: right_path_def comp_def\<close>)
  ultimately show ?thesis unfolding get_range_proof_def by (simp only: and_then.simps prod.case)
qed

lemma range_proof_verify_blocks:
  assumes "length leaves \<le> 2 ^ 63" "0 < k" "unat first + k \<le> length leaves"
  defines "h \<equiv> tree_height (length leaves)" and "j \<equiv> unat first + k - 1"
  shows "range_proof_verify mh \<lparr>left_siblings = left_path mh leaves h (unat first) 0, right_siblings = right_path mh leaves h j 0\<rparr>
    (merkle_root mh leaves) (Some first) (take k (drop (unat first) leaves)) = Some (Ok ())"
proof -
  have h: "h \<le> 63" using tree_height_le [OF assms(1)] by (simp add: h_def)
  have "length (left_path mh leaves h i 0) \<le> h" "length (right_path mh leaves h i 0) \<le> h" for i
    using length_filter_le [of _ "[0..<h]"] by (simp_all add: left_path_def right_path_def)
  then have size: "length (left_path mh leaves h i 0) \<le> 63" "length (right_path mh leaves h i 0) \<le> 63" for i
    using h le_trans by blast+
  have "level_hashes mh leaves (unat first) j 0 = take k (drop (unat first) leaves)"
  proof -
    have "[unat first..<Suc j] = [unat first..<unat first + k]" using assms(2) by (simp add: j_def)
    moreover have "map (block mh leaves 0) [unat first..<unat first + k] = map ((!) leaves) [unat first..<unat first + k]"
      using assms(3) by (intro map_cong refl block_leaf) auto
    ultimately show ?thesis using assms(3) by (simp add: level_hashes_def list_eq_iff_nth_eq)
  qed
  then have "range_verify_loop mh (nd 0 (unat first)) (take k (drop (unat first) leaves)) (left_path mh leaves h (unat first) 0)
      (right_path mh leaves h j 0) = Some (Ok [merkle_root mh leaves])"
    using range_verify_loop_blocks [of "unat first" j leaves 0 mh] assms by (simp add: h_def j_def)
  moreover have "take k (drop (unat first) leaves) \<noteq> []" using assms(2,3) by simp
  ultimately show ?thesis
    using size by (simp add: range_proof_verify_def max_accumulator_proof_depth_def from_leaf_index_nd [simplified])
qed

section \<open>Properties\<close>

text \<open>A storage that holds the nodes of a given list of leaves.\<close>

definition reader_of :: "node_hasher \<Rightarrow> hash_value list \<Rightarrow> hash_reader" where
  "reader_of mh leaves p =
     Ok (block mh leaves (position_level p) (unat (drop_bit (Suc (position_level p)) p)))"

lemma stored_reader_of: "length leaves \<le> 2 ^ 63 \<Longrightarrow> stored mh leaves (reader_of mh leaves)"
proof -
  assume len: "length leaves \<le> 2 ^ 63"
  have "reader_of mh leaves (nd l i) = Ok (block mh leaves l i)" if l: "l < 64" "Suc i * 2 ^ l \<le> length leaves" for l i
  proof -
    have "i * 2 ^ l + 2 ^ l \<le> length leaves" using l(2) by simp
    then have "i * 2 ^ l < 2 ^ 63" using len one_le_power [of "2 :: nat" l] by linarith
    then have "i < 2 ^ (63 - l)" using l(1) by (intro nd_fits) simp_all
    note ok = nd_ok [OF l(1) this]
    then show ?thesis using l(1) drop_bit_node [OF ok(2)] by (simp add: reader_of_def level_nd) (simp add: nd_def)
  qed
  then show ?thesis by (simp add: stored_def)
qed

text \<open>
  C16: Appending leaves refines extending the list of leaves.  From a storage that holds the frozen nodes of
  the accumulator, \<open>append\<close> returns the root of the tree over the old and the new leaves, and the storage with
  the returned nodes written to it holds the frozen nodes of the longer accumulator.
\<close>
theorem append_refines_tree:
  assumes "stored mh leaves reader" "length leaves + length new_leaves \<le> 2 ^ 63" "length new_leaves < 2 ^ 62"
  shows "\<exists>nodes. storage_append mh reader (of_nat (length leaves)) new_leaves =
      Ok (merkle_root mh (leaves @ new_leaves), nodes) \<and>
    stored mh (leaves @ new_leaves) (write_nodes reader nodes)"
proof (cases "new_leaves = []")
  case False
  then show ?thesis
    using storage_append_frozen [OF assms] stored_after_write [OF assms(1)] assms(2) by auto
next
  case True
  have u: "unat (of_nat (length leaves) :: u64) = length leaves" using assms(2) by (simp add: unat_length)
  have "write_nodes reader [] = reader" by (simp add: write_nodes_def fun_eq_iff)
  moreover have "storage_append mh reader (of_nat (length leaves)) [] = Ok (merkle_root mh leaves, [])"
  proof (cases "leaves = []")
    case False
    then have "(of_nat (length leaves) :: u64) \<noteq> 0" using u by (metis length_0_conv unsigned_0)
    moreover have "get_root_hash mh reader (of_nat (length leaves)) = Ok (merkle_root mh leaves)"
      using False assms(1,2) by (intro get_root_hash_stored) simp_all
    ultimately show ?thesis by (auto simp: storage_append_def get_root_hash_def and_then_eq_Ok)
  qed (simp add: storage_append_def merkle_root_def)
  ultimately show ?thesis using True assms(1) by (intro exI [of _ "[]"]) simp
qed

theorem append_refines_tree_witness:
  "\<exists>nodes. storage_append (\<lambda>a b. 2 * a + 3 * b) (reader_of (\<lambda>a b. 2 * a + 3 * b) [10, 20, 30]) (of_nat (length [10, 20, 30 :: hash_value])) [40, 50] =
      Ok (merkle_root (\<lambda>a b. 2 * a + 3 * b) ([10, 20, 30] @ [40, 50]), nodes) \<and>
    stored (\<lambda>a b. 2 * a + 3 * b) ([10, 20, 30] @ [40, 50]) (write_nodes (reader_of (\<lambda>a b. 2 * a + 3 * b) [10, 20, 30]) nodes)"
  by (rule append_refines_tree) (simp_all add: stored_reader_of)

text \<open>
  C17: The nodes that \<open>append\<close> freezes have consecutive post-order indices, which continue where those of the
  earlier leaves end: the storage is append-only and has no gaps.
\<close>
theorem append_extends_postorder:
  assumes "stored mh leaves reader" "length leaves + length new_leaves < 2 ^ 62"
    and "storage_append mh reader (of_nat (length leaves)) new_leaves = Ok (root, nodes)"
  shows "map (to_postorder_index \<circ> fst) nodes =
    map (\<lambda>i. Ok (of_nat i) :: ('e, u64) outcome) [postorder 0 (length leaves)..<postorder 0 (length (leaves @ new_leaves))]"
proof (cases "new_leaves = []")
  case True
  then have "nodes = []" using assms(3) by (auto simp: storage_append_def outcome_simps split: if_splits)
  then show ?thesis using True by simp
next
  case False
  have "nodes = concat (map (frozen_at mh (leaves @ new_leaves)) [length leaves..<length (leaves @ new_leaves)])"
    using storage_append_frozen [OF assms(1) _ _ False] assms(2,3) by simp
  then show ?thesis
    unfolding \<open>nodes = _\<close> by (intro frozen_postorder [THEN conjunct1]) (use assms(2) in simp_all)
qed

theorem append_extends_postorder_witness:
  "map (to_postorder_index \<circ> fst) [(nd 0 0, 7 :: hash_value)] =
    map (\<lambda>i. Ok (of_nat i) :: (unit, u64) outcome) [postorder 0 (length ([] :: hash_value list))..<postorder 0 (length ([] @ [7 :: hash_value]))]"
proof (rule append_extends_postorder)
  have "storage_append (\<lambda>a b. 2 * a + 3 * b) (reader_of (\<lambda>a b. 2 * a + 3 * b) []) (of_nat (length ([] :: hash_value list))) [7] =
      Ok (merkle_root (\<lambda>a b. 2 * a + 3 * b) ([] @ [7]), concat (map (frozen_at (\<lambda>a b. 2 * a + 3 * b) ([] @ [7])) [0..<1]))"
    using storage_append_frozen [OF stored_reader_of, of "[]" "[7]"] by simp
  then show "storage_append (\<lambda>a b. 2 * a + 3 * b) (reader_of (\<lambda>a b. 2 * a + 3 * b) []) (of_nat (length ([] :: hash_value list))) [7] =
      Ok (7, [(nd 0 0, 7)])"
    by (simp add: frozen_at_def merkle_root_def tree_height.simps block_def)
qed (simp_all add: stored_reader_of)

text \<open>
  C18: Every inclusion proof that the storage hands out is accepted: for a leaf of the accumulator, \<open>get_proof\<close>
  and \<open>get_root_hash\<close> succeed, and \<open>AccumulatorProof::verify\<close> accepts the leaf at its index against that root.
\<close>
theorem stored_proofs_accepted:
  assumes "stored mh leaves reader" "length leaves \<le> 2 ^ 63" "unat index < length leaves"
  shows "\<exists>siblings root. get_proof mh reader (of_nat (length leaves)) index = Ok siblings \<and>
    get_root_hash mh reader (of_nat (length leaves)) = Ok root \<and>
    accumulator_proof_verify mh siblings root (leaves ! unat index) index = Ok ()"
proof -
  let ?h = "tree_height (length leaves)"
  have h: "?h \<le> 63" "length leaves \<le> 2 ^ ?h" using tree_height_le [OF assms(2)] tree_height_props by auto
  have "unat index = unat index mod 2 ^ ?h" using h(2) assms(3) by simp
  from reference_proof_folds_to_root [OF this assms(3) h(2), of mh]
  have "accumulator_proof_verify mh (reference_siblings mh ?h leaves (unat index)) (merkle_root mh leaves) (leaves ! unat index) index = Ok ()"
    using h(1) by (simp add: accumulator_proof_verify_Ok merkle_root_def)
  moreover have "0 < length leaves" using assms(3) by linarith
  ultimately show ?thesis
    using get_proof_reference [OF assms] get_root_hash_stored [OF assms(1) _ assms(2)] by blast
qed

theorem stored_proofs_accepted_witness:
  "\<exists>siblings root. get_proof (\<lambda>a b. 2 * a + 3 * b) (reader_of (\<lambda>a b. 2 * a + 3 * b) [10, 20, 30]) (of_nat (length [10, 20, 30 :: hash_value])) 2 = Ok siblings \<and>
    get_root_hash (\<lambda>a b. 2 * a + 3 * b) (reader_of (\<lambda>a b. 2 * a + 3 * b) [10, 20, 30]) (of_nat (length [10, 20, 30 :: hash_value])) = Ok root \<and>
    accumulator_proof_verify (\<lambda>a b. 2 * a + 3 * b) siblings root ([10, 20, 30] ! unat (2 :: u64)) 2 = Ok ()"
  by (rule stored_proofs_accepted) (simp_all add: stored_reader_of)

text \<open>
  C19: Consistency proofs are accepted.  For any earlier number of leaves, \<open>get_consistency_proof\<close> ends with the
  subtrees that take the in-memory accumulator over the earlier leaves to the one over all leaves, and
  \<open>get_frozen_subtree_hashes\<close> ends with the frozen subtree roots of the latter.
\<close>
theorem stored_consistency_accepted:
  assumes "stored mh leaves reader" "length leaves \<le> 2 ^ 63" "unat sub \<le> length leaves"
  shows "\<exists>subtrees. get_consistency_proof reader (of_nat (length leaves)) sub = Some (Ok subtrees) \<and>
    append_subtrees mh (accumulator_of mh (take (unat sub) leaves)) subtrees (of_nat (length leaves - unat sub)) =
      Ok (accumulator_of mh leaves) \<and>
    get_frozen_subtree_hashes reader (of_nat (length leaves)) = Some (Ok (frozen_subtree_roots (accumulator_of mh leaves)))"
proof -
  have "append_subtrees mh (accumulator_of mh (take (unat sub) leaves))
      (sibling_subtrees mh (unat sub) (drop (unat sub) leaves)) (of_nat (length leaves - unat sub)) = Ok (accumulator_of mh leaves)"
    using append_subtrees_reference [of "take (unat sub) leaves" "drop (unat sub) leaves" mh] assms(2,3) by simp
  then show ?thesis
    using get_consistency_proof_stored [OF assms] get_frozen_subtree_hashes_stored [OF assms(1,2)] by blast
qed

theorem stored_consistency_accepted_witness:
  "\<exists>subtrees. get_consistency_proof (reader_of (\<lambda>a b. 2 * a + 3 * b) [10, 20, 30]) (of_nat (length [10, 20, 30 :: hash_value])) 1 = Some (Ok subtrees) \<and>
    append_subtrees (\<lambda>a b. 2 * a + 3 * b) (accumulator_of (\<lambda>a b. 2 * a + 3 * b) (take (unat (1 :: u64)) [10, 20, 30])) subtrees
      (of_nat (length [10, 20, 30 :: hash_value] - unat (1 :: u64))) = Ok (accumulator_of (\<lambda>a b. 2 * a + 3 * b) [10, 20, 30]) \<and>
    get_frozen_subtree_hashes (reader_of (\<lambda>a b. 2 * a + 3 * b) [10, 20, 30]) (of_nat (length [10, 20, 30 :: hash_value])) =
      Some (Ok (frozen_subtree_roots (accumulator_of (\<lambda>a b. 2 * a + 3 * b) [10, 20, 30])))"
  by (rule stored_consistency_accepted) (simp_all add: stored_reader_of)

text \<open>
  C20: Range proofs are accepted.  For a non-empty range of leaves, \<open>get_range_proof\<close> succeeds, and the loop of
  \<open>AccumulatorRangeProof::verify\<close> ends and accepts the leaves of the range against the root of the tree.
\<close>
theorem stored_range_proofs_accepted:
  assumes "stored mh leaves reader" "length leaves \<le> 2 ^ 63"
    and "0 < unat num" "unat first + unat num \<le> length leaves"
  shows "\<exists>p. get_range_proof mh reader (of_nat (length leaves)) (Some first) num = Ok p \<and>
    range_proof_verify mh p (merkle_root mh leaves) (Some first) (take (unat num) (drop (unat first) leaves)) = Some (Ok ())"
  using get_range_proof_stored [OF assms] range_proof_verify_blocks [OF assms(2-4)] by blast

theorem stored_range_proofs_accepted_witness:
  "\<exists>p. get_range_proof (\<lambda>a b. 2 * a + 3 * b) (reader_of (\<lambda>a b. 2 * a + 3 * b) [10, 20, 30]) (of_nat (length [10, 20, 30 :: hash_value])) (Some 1) 2 = Ok p \<and>
    range_proof_verify (\<lambda>a b. 2 * a + 3 * b) p (merkle_root (\<lambda>a b. 2 * a + 3 * b) [10, 20, 30]) (Some 1)
      (take (unat (2 :: u64)) (drop (unat (1 :: u64)) [10, 20, 30])) = Some (Ok ())"
  by (rule stored_range_proofs_accepted) (simp_all add: stored_reader_of)

end
