(* ===== verification/Epoch_Change.thy ===== *)
theory Epoch_Change
  imports Accumulator_Proofs
begin

text \<open>
  How a client moves its trust forward: the \<open>Verifier\<close> trait and \<open>EpochChangeProof\<close> of
  \<open>src/types/src/epoch_change.rs\<close>, its implementations for \<open>EpochState\<close> and \<open>Waypoint\<close>, and the
  light client's \<open>TrustedState\<close> of \<open>src/types/src/trusted_state.rs\<close>.

  The trait object \<open>&dyn Verifier\<close> is the record of its three methods.  The law that the
  verification loop relies on (a verified ledger info is never stale) is the locale
  \<open>epoch_verifier\<close>; it is interpreted on the three implementations.
\<close>

section \<open>The Verifier trait and its implementations\<close>

record verifier =
  vf_verify :: "ledger_info_with_signatures \<Rightarrow> (anyhow_error, unit) outcome"
  vf_epoch_change_verification_required :: "u64 \<Rightarrow> bool"
  vf_is_ledger_info_stale :: "ledger_info \<Rightarrow> bool"

definition epoch_state_verify ::
    "'z li_crypto_scheme \<Rightarrow> epoch_state \<Rightarrow> ledger_info_with_signatures \<Rightarrow> (anyhow_error, unit) outcome" where
  "epoch_state_verify cr es lis =
     and_then (ensure (es_epoch es = li_epoch (lis_ledger_info lis))
       (Msg ''LedgerInfo has unexpected epoch'')) (\<lambda>_.
     lift_verify (lis_verify_signatures cr lis (es_verifier es)))"

definition epoch_state_verifier :: "'z li_crypto_scheme \<Rightarrow> epoch_state \<Rightarrow> verifier" where
  "epoch_state_verifier cr es =
     \<lparr>vf_verify = epoch_state_verify cr es,
      vf_epoch_change_verification_required = (\<lambda>epoch. es_epoch es < epoch),
      vf_is_ledger_info_stale = (\<lambda>li. li_epoch li < es_epoch es)\<rparr>"

definition waypoint_verifier :: "'z li_crypto_scheme \<Rightarrow> waypoint \<Rightarrow> verifier" where
  "waypoint_verifier cr w =
     \<lparr>vf_verify = (\<lambda>lis. waypoint_verify cr w (lis_ledger_info lis)),
      vf_epoch_change_verification_required = (\<lambda>epoch. True),
      vf_is_ledger_info_stale = (\<lambda>li. li_version li < wp_version w)\<rparr>"

section \<open>Epoch change proofs\<close>

record epoch_change_proof =
  ledger_info_with_sigs :: "ledger_info_with_signatures list"
  ecp_more :: bool

definition epoch_change_proof_epoch :: "epoch_change_proof \<Rightarrow> (anyhow_error, u64) outcome" where
  "epoch_change_proof_epoch p =
     (case ledger_info_with_sigs p of
        [] \<Rightarrow> Err (Msg ''Empty EpochChangeProof'')
      | lis # _ \<Rightarrow> Ok (li_epoch (lis_ledger_info lis)))"

primrec verify_epoch_changes ::
    "'z li_crypto_scheme \<Rightarrow> ledger_info_with_signatures list \<Rightarrow> verifier \<Rightarrow> (anyhow_error, unit) outcome" where
  "verify_epoch_changes cr [] verifier_ref = Ok ()"
| "verify_epoch_changes cr (lis # rest) verifier_ref =
     and_then (vf_verify verifier_ref lis) (\<lambda>_.
     and_then (ok_or (li_next_epoch_state (lis_ledger_info lis))
       (Msg ''LedgerInfo doesn't carry a ValidatorSet'')) (\<lambda>es.
     verify_epoch_changes cr rest (epoch_state_verifier cr es)))"

definition epoch_change_proof_verify ::
    "'z li_crypto_scheme \<Rightarrow> epoch_change_proof \<Rightarrow> verifier \<Rightarrow>
     (anyhow_error, ledger_info_with_signatures) outcome" where
  "epoch_change_proof_verify cr p vf =
     and_then (ensure (ledger_info_with_sigs p \<noteq> []) (Msg ''The EpochChangeProof is empty'')) (\<lambda>_.
     and_then (ensure
         (\<not> vf_is_ledger_info_stale vf (lis_ledger_info (last (ledger_info_with_sigs p))))
         (Msg ''The EpochChangeProof is stale'')) (\<lambda>_.
     and_then (verify_epoch_changes cr
         (dropWhile (\<lambda>lis. vf_is_ledger_info_stale vf (lis_ledger_info lis)) (ledger_info_with_sigs p))
         vf) (\<lambda>_.
     Ok (last (ledger_info_with_sigs p)))))"

section \<open>Trusted states of light clients\<close>

datatype trusted_state =
    EpochWaypoint waypoint
  | EpochState (ts_waypoint: waypoint) (ts_epoch_state: epoch_state)

datatype trusted_state_change =
    Version_Change trusted_state
  | Epoch_Change trusted_state ledger_info_with_signatures
  | NoChange

record state_proof =
  latest_li_w_sigs :: ledger_info_with_signatures
  epoch_changes :: epoch_change_proof

definition from_epoch_waypoint :: "waypoint \<Rightarrow> trusted_state" where
  "from_epoch_waypoint w = EpochWaypoint w"

definition try_from_epoch_change_li ::
    "'z li_crypto_scheme \<Rightarrow> ledger_info \<Rightarrow> transaction_accumulator_summary \<Rightarrow>
     (anyhow_error, trusted_state) outcome" where
  "try_from_epoch_change_li cr epoch_change_li acc =
     and_then (verify_consistency acc epoch_change_li) (\<lambda>_.
     and_then (ok_or (li_next_epoch_state epoch_change_li)
       (Msg ''No EpochState in LedgerInfo'')) (\<lambda>es.
     and_then (waypoint_new_epoch_boundary cr epoch_change_li) (\<lambda>w.
     Ok (EpochState w es))))"


fun trusted_state_waypoint :: "trusted_state \<Rightarrow> waypoint" where
  "trusted_state_waypoint (EpochWaypoint w) = w"
| "trusted_state_waypoint (EpochState w es) = w"

definition trusted_state_version :: "trusted_state \<Rightarrow> version" where
  "trusted_state_version ts = wp_version (trusted_state_waypoint ts)"

fun trusted_state_verifier :: "'z li_crypto_scheme \<Rightarrow> trusted_state \<Rightarrow> verifier" where
  "trusted_state_verifier cr (EpochWaypoint w) = waypoint_verifier cr w"
| "trusted_state_verifier cr (EpochState w es) = epoch_state_verifier cr es"

definition verify_and_ratchet_inner ::
    "'z li_crypto_scheme \<Rightarrow> trusted_state \<Rightarrow> ledger_info_with_signatures \<Rightarrow> epoch_change_proof \<Rightarrow>
     (anyhow_error, trusted_state_change) outcome" where
  "verify_and_ratchet_inner cr ts latest_li ecp =
     and_then (ensure (li_version (lis_ledger_info latest_li) \<ge> trusted_state_version ts)
       (Msg ''The target latest ledger info version is stale'')) (\<lambda>_.
     if vf_epoch_change_verification_required (trusted_state_verifier cr ts)
          (li_next_block_epoch (lis_ledger_info latest_li))
     then
       and_then (epoch_change_proof_verify cr ecp (trusted_state_verifier cr ts)) (\<lambda>epoch_change_li.
       and_then (ok_or (li_next_epoch_state (lis_ledger_info epoch_change_li))
         (Msg ''A valid EpochChangeProof will never return a non-epoch change ledger info''))
         (\<lambda>new_epoch_state.
       and_then
         (if epoch_change_li = latest_li then Ok latest_li
          else if li_epoch (lis_ledger_info latest_li) = es_epoch new_epoch_state
          then and_then (epoch_state_verify cr new_epoch_state latest_li) (\<lambda>_. Ok latest_li)
          else if li_epoch (lis_ledger_info latest_li) > es_epoch new_epoch_state \<and> ecp_more ecp
          then Ok epoch_change_li
          else Err (Msg ''Inconsistent epoch change proof and latest ledger info''))
         (\<lambda>verified_ledger_info.
       Ok (Epoch_Change
             (EpochState (waypoint_new_any cr (lis_ledger_info verified_ledger_info)) new_epoch_state)
             epoch_change_li))))
     else
       (case ts of
          EpochWaypoint _ \<Rightarrow> Err (Msg ''EpochWaypoint can only verify an epoch change ledger info'')
        | EpochState curr_waypoint curr_epoch_state \<Rightarrow>
            (let new_waypoint = waypoint_new_any cr (lis_ledger_info latest_li)
             in if wp_version new_waypoint = wp_version curr_waypoint
                then and_then (ensure (new_waypoint = curr_waypoint)
                       (Msg ''LedgerInfo doesn't match verified state'')) (\<lambda>_. Ok NoChange)
                else and_then (epoch_state_verify cr curr_epoch_state latest_li) (\<lambda>_.
                     Ok (Version_Change (EpochState new_waypoint curr_epoch_state))))))"

definition verify_and_ratchet ::
    "'z li_crypto_scheme \<Rightarrow> trusted_state \<Rightarrow> state_proof \<Rightarrow> (anyhow_error, trusted_state_change) outcome" where
  "verify_and_ratchet cr ts sp = verify_and_ratchet_inner cr ts (latest_li_w_sigs sp) (epoch_changes sp)"

fun new_state :: "trusted_state_change \<Rightarrow> trusted_state option" where
  "new_state (Version_Change s) = Some s"
| "new_state (Epoch_Change s _) = Some s"
| "new_state NoChange = None"


fun is_no_change :: "trusted_state_change \<Rightarrow> bool" where
  "is_no_change NoChange = True"
| "is_no_change _ = False"

section \<open>What a verified chain of epoch changes is\<close>

text \<open>
  \<open>epoch_chain cr vf lis\<close>: the first ledger info is accepted by \<open>vf\<close>, each ends its epoch, and each
  later one is signed by the validators that its predecessor announces.
\<close>

fun epoch_chain :: "'z li_crypto_scheme \<Rightarrow> verifier \<Rightarrow> ledger_info_with_signatures list \<Rightarrow> bool" where
  "epoch_chain cr vf [] = True"
| "epoch_chain cr vf (lis # rest) =
     (vf_verify vf lis = Ok () \<and>
      (case li_next_epoch_state (lis_ledger_info lis) of
         None \<Rightarrow> False
       | Some es \<Rightarrow> epoch_chain cr (epoch_state_verifier cr es) rest))"

text \<open>
  The ledger infos that a client is entitled to trust: those that its own state verifies, and those
  signed by the validators of an epoch that a trusted ledger info announces.
\<close>

inductive trusts :: "'z li_crypto_scheme \<Rightarrow> verifier \<Rightarrow> ledger_info_with_signatures \<Rightarrow> bool"
  for cr vf where
  trusts_direct: "vf_verify vf lis = Ok () \<Longrightarrow> trusts cr vf lis"
| trusts_next: "trusts cr vf lis \<Longrightarrow> li_next_epoch_state (lis_ledger_info lis) = Some es \<Longrightarrow>
    epoch_state_verify cr es lis' = Ok () \<Longrightarrow> trusts cr vf lis'"

lemma verify_epoch_changes_chain: "verify_epoch_changes cr lis vf = Ok () \<longleftrightarrow> epoch_chain cr vf lis"
  by (induction lis arbitrary: vf) (auto simp: outcome_simps split: option.splits)

lemma epoch_chain_trusts:
  "epoch_chain cr vf' lis \<Longrightarrow> (\<And>x. vf_verify vf' x = Ok () \<Longrightarrow> trusts cr vf x) \<Longrightarrow>
   x \<in> set lis \<Longrightarrow> trusts cr vf x"
proof (induction lis arbitrary: vf')
  case (Cons lis rest)
  from Cons.prems(1) obtain es where v: "vf_verify vf' lis = Ok ()"
    and es: "li_next_epoch_state (lis_ledger_info lis) = Some es"
    and ch: "epoch_chain cr (epoch_state_verifier cr es) rest"
    by (auto split: option.splits)
  have t: "trusts cr vf lis" using v by (rule Cons.prems(2))
  show ?case
  proof (cases "x = lis")
    case False
    with Cons.prems(3) have "x \<in> set rest" by simp
    moreover have "trusts cr vf y" if "vf_verify (epoch_state_verifier cr es) y = Ok ()" for y
      using trusts_next [OF t es] that by (simp add: epoch_state_verifier_def)
    ultimately show ?thesis using Cons.IH [OF ch] by blast
  qed (use t in simp)
qed simp

section \<open>The contract of a verifier\<close>

text \<open>
  The law that \<open>EpochChangeProof::verify\<close> relies on when it skips stale ledger infos: a ledger info
  that the verifier accepts is not stale.
\<close>

locale epoch_verifier =
  fixes vf :: verifier
  assumes accepted_not_stale:
    "vf_verify vf lis = Ok () \<Longrightarrow> \<not> vf_is_ledger_info_stale vf (lis_ledger_info lis)"
begin

lemma skips_to_chain:
  assumes "\<forall>x\<in>set pre. vf_is_ledger_info_stale vf (lis_ledger_info x)" "epoch_chain cr vf suf"
  shows "dropWhile (\<lambda>x. vf_is_ledger_info_stale vf (lis_ledger_info x)) (pre @ suf) = suf"
proof -
  have "dropWhile (\<lambda>x. vf_is_ledger_info_stale vf (lis_ledger_info x)) suf = suf"
    using assms(2) accepted_not_stale by (cases suf) (auto split: option.splits)
  with assms(1) show ?thesis by (simp add: dropWhile_append2)
qed

lemma verify_iff_chain:
  "epoch_change_proof_verify cr p vf = Ok li \<longleftrightarrow>
     (\<exists>pre suf. ledger_info_with_sigs p = pre @ suf \<and> suf \<noteq> [] \<and>
        (\<forall>x\<in>set pre. vf_is_ledger_info_stale vf (lis_ledger_info x)) \<and>
        epoch_chain cr vf suf \<and> \<not> vf_is_ledger_info_stale vf (lis_ledger_info (last suf)) \<and>
        li = last suf)"
  (is "?ok \<longleftrightarrow> (\<exists>pre suf. ?split pre suf)")
proof
  let ?stale = "\<lambda>x. vf_is_ledger_info_stale vf (lis_ledger_info x)"
  let ?lis = "ledger_info_with_sigs p"
  assume ?ok
  then have ne: "?lis \<noteq> []" and fresh: "\<not> ?stale (last ?lis)" and li: "li = last ?lis"
    and chain: "epoch_chain cr vf (dropWhile ?stale ?lis)"
    by (auto simp: epoch_change_proof_verify_def outcome_simps verify_epoch_changes_chain)
  have suf: "dropWhile ?stale ?lis \<noteq> []"
    using ne fresh by (metis dropWhile_eq_Nil_conv last_in_set)
  then have "last (dropWhile ?stale ?lis) = last ?lis"
    by (metis last_appendR takeWhile_dropWhile_id)
  with suf chain fresh li have "?split (takeWhile ?stale ?lis) (dropWhile ?stale ?lis)"
    by (auto dest: set_takeWhileD)
  then show "\<exists>pre suf. ?split pre suf" by blast
next
  assume "\<exists>pre suf. ?split pre suf"
  then obtain pre suf where s: "?split pre suf" by blast
  then have "dropWhile (\<lambda>x. vf_is_ledger_info_stale vf (lis_ledger_info x)) (pre @ suf) = suf"
    using skips_to_chain by blast
  with s show ?ok
    by (simp add: epoch_change_proof_verify_def verify_epoch_changes_chain [THEN iffD2])
qed

lemma verified_is_trusted:
  assumes "epoch_change_proof_verify cr p vf = Ok li"
  shows "trusts cr vf li \<and> li \<in> set (ledger_info_with_sigs p) \<and>
    (\<exists>es. li_next_epoch_state (lis_ledger_info li) = Some es)"
proof -
  from assms obtain pre suf where s: "ledger_info_with_sigs p = pre @ suf" "suf \<noteq> []"
    "epoch_chain cr vf suf" "li = last suf"
    using verify_iff_chain by blast
  have "trusts cr vf li"
    using epoch_chain_trusts [OF s(3), of vf li] s(2,4) by (auto intro: trusts_direct)
  moreover have "\<exists>es. li_next_epoch_state (lis_ledger_info (last suf)) = Some es"
    if "epoch_chain cr v suf" "suf \<noteq> []" for v suf
    using that by (induction suf arbitrary: v) (auto split: option.splits)
  ultimately show ?thesis using s by auto
qed

end

interpretation esv: epoch_verifier "epoch_state_verifier cr es" for cr es
  by unfold_locales (auto simp: epoch_state_verifier_def epoch_state_verify_def outcome_simps)

interpretation wpv: epoch_verifier "waypoint_verifier cr w" for cr w
  by unfold_locales (auto simp: waypoint_verifier_def waypoint_verify_def outcome_simps)

interpretation tsv: epoch_verifier "trusted_state_verifier cr ts" for cr ts
  by (cases ts) (simp_all add: esv.epoch_verifier_axioms wpv.epoch_verifier_axioms)

lemma ratchet_with_epoch_change:
  assumes "verify_and_ratchet cr ts sp = Ok change"
    and "vf_epoch_change_verification_required (trusted_state_verifier cr ts)
      (li_next_block_epoch (lis_ledger_info (latest_li_w_sigs sp)))"
  obtains eli es lis where
    "trusted_state_version ts \<le> li_version (lis_ledger_info (latest_li_w_sigs sp))"
    "epoch_change_proof_verify cr (epoch_changes sp) (trusted_state_verifier cr ts) = Ok eli"
    "li_next_epoch_state (lis_ledger_info eli) = Some es"
    "lis = eli \<or> epoch_state_verify cr es lis = Ok ()"
    "lis = latest_li_w_sigs sp \<or> lis = eli \<and> ecp_more (epoch_changes sp)"
    "change = Epoch_Change (EpochState (waypoint_new_any cr (lis_ledger_info lis)) es) eli"
proof -
  let ?latest = "latest_li_w_sigs sp"
  from assms obtain eli es lis where
    a: "trusted_state_version ts \<le> li_version (lis_ledger_info ?latest)"
    and b: "epoch_change_proof_verify cr (epoch_changes sp) (trusted_state_verifier cr ts) = Ok eli"
    and c: "li_next_epoch_state (lis_ledger_info eli) = Some es"
    and d: "(if eli = ?latest then Ok ?latest
          else if li_epoch (lis_ledger_info ?latest) = es_epoch es
          then and_then (epoch_state_verify cr es ?latest) (\<lambda>_. Ok ?latest)
          else if li_epoch (lis_ledger_info ?latest) > es_epoch es \<and> ecp_more (epoch_changes sp)
          then Ok eli
          else Err (Msg ''Inconsistent epoch change proof and latest ledger info'')) = Ok lis"
    and e: "change = Epoch_Change (EpochState (waypoint_new_any cr (lis_ledger_info lis)) es) eli"
    by (simp add: verify_and_ratchet_def verify_and_ratchet_inner_def outcome_simps) blast
  from d have "lis = eli \<or> epoch_state_verify cr es lis = Ok ()"
    "lis = ?latest \<or> lis = eli \<and> ecp_more (epoch_changes sp)"
    by (auto simp: outcome_simps split: if_splits)
  with a b c e show thesis by (intro that)
qed

section \<open>A concrete client\<close>

text \<open>
  A waypoint client, the ledger info that ends epoch 0 and announces four validators, and a ledger
  info of epoch 1 signed by three of them.
\<close>

definition sample_li_crypto :: li_crypto where
  "sample_li_crypto =
     \<lparr>vsig_ledger_info = (\<lambda>pk li sig. sig = pk), hash_waypoint = (\<lambda>c. ucast (l2w_version c))\<rparr>"

definition sample_epoch_li :: ledger_info_with_signatures where
  "sample_epoch_li = lis_new
     \<lparr>commit_info = block_info_empty\<lparr>bi_version := 5,
        bi_next_epoch_state := Some \<lparr>es_epoch = 1, es_verifier = four_verifier\<rparr>\<rparr>,
      consensus_data_hash = 0\<rparr> fmempty"

definition sample_latest_li :: ledger_info_with_signatures where
  "sample_latest_li = lis_new
     \<lparr>commit_info = block_info_empty\<lparr>bi_epoch := 1, bi_version := 9\<rparr>, consensus_data_hash = 0\<rparr>
     (fmupd 1 [1] (fmupd 2 [2] (fmupd 3 [3] fmempty)))"

definition sample_trusted_state :: trusted_state where
  "sample_trusted_state = EpochWaypoint (waypoint_new_any sample_li_crypto (lis_ledger_info sample_epoch_li))"

definition sample_state_proof :: state_proof where
  "sample_state_proof =
     \<lparr>latest_li_w_sigs = sample_latest_li,
      epoch_changes = \<lparr>ledger_info_with_sigs = [sample_epoch_li], ecp_more = False\<rparr>\<rparr>"

lemmas sample_client_defs = sample_li_crypto_def sample_epoch_li_def sample_latest_li_def
  sample_trusted_state_def sample_state_proof_def

lemma sample_latest_verifies:
  "epoch_state_verify sample_li_crypto \<lparr>es_epoch = 1, es_verifier = four_verifier\<rparr> sample_latest_li = Ok ()"
  by (simp add: epoch_state_verify_def sample_client_defs li_accessors lis_verify_signatures_Ok
      four_verifier_public_key four_verifier_simps check_voting_power_four bt_len_def)

lemma sample_proof_verifies:
  "epoch_change_proof_verify sample_li_crypto (epoch_changes sample_state_proof)
     (trusted_state_verifier sample_li_crypto sample_trusted_state) = Ok sample_epoch_li"
  by (simp add: epoch_change_proof_verify_def sample_state_proof_def sample_trusted_state_def
      waypoint_verifier_def) (simp add: sample_epoch_li_def li_accessors)

lemma sample_ratchet:
  "verify_and_ratchet sample_li_crypto sample_trusted_state sample_state_proof =
     Ok (Epoch_Change
          (EpochState (waypoint_new_any sample_li_crypto (lis_ledger_info sample_latest_li))
             \<lparr>es_epoch = 1, es_verifier = four_verifier\<rparr>) sample_epoch_li)"
proof -
  have "li_next_epoch_state (lis_ledger_info sample_epoch_li) =
      Some \<lparr>es_epoch = 1, es_verifier = four_verifier\<rparr>"
    "sample_epoch_li \<noteq> sample_latest_li" "li_epoch (lis_ledger_info sample_latest_li) = 1"
    "trusted_state_version sample_trusted_state \<le> li_version (lis_ledger_info sample_latest_li)"
    "vf_epoch_change_verification_required (trusted_state_verifier sample_li_crypto sample_trusted_state) e"
    for e
    by (simp_all add: sample_client_defs li_accessors lis_new_def trusted_state_version_def
        waypoint_new_any_def waypoint_verifier_def block_info_empty_def)
  then show ?thesis
    using sample_proof_verifies sample_latest_verifies
    by (simp add: verify_and_ratchet_def verify_and_ratchet_inner_def sample_state_proof_def)
qed

section \<open>Properties\<close>

text \<open>C4: a light client only moves along the chain of trust.  Whenever \<open>verify_and_ratchet\<close> returns
  a new state, its waypoint commits to a ledger info that the old state is entitled to trust, and its
  validator set is the old one or one that a trusted ledger info announces.\<close>

theorem ratchet_follows_chain_of_trust:
  assumes "verify_and_ratchet cr ts sp = Ok change" "new_state change = Some ts'"
  shows "\<exists>lis es. ts' = EpochState (waypoint_new_any cr (lis_ledger_info lis)) es \<and>
    trusts cr (trusted_state_verifier cr ts) lis \<and>
    ((\<exists>w. ts = EpochState w es) \<or>
     (\<exists>eli. trusts cr (trusted_state_verifier cr ts) eli \<and>
        li_next_epoch_state (lis_ledger_info eli) = Some es))"
proof (cases "vf_epoch_change_verification_required (trusted_state_verifier cr ts)
    (li_next_block_epoch (lis_ledger_info (latest_li_w_sigs sp)))")
  case True
  from ratchet_with_epoch_change [OF assms(1) this] assms(2) obtain eli es lis where
    v: "epoch_change_proof_verify cr (epoch_changes sp) (trusted_state_verifier cr ts) = Ok eli"
    and es: "li_next_epoch_state (lis_ledger_info eli) = Some es"
    and lis: "lis = eli \<or> epoch_state_verify cr es lis = Ok ()"
    and ts': "ts' = EpochState (waypoint_new_any cr (lis_ledger_info lis)) es"
    by (metis new_state.simps(2) option.inject)
  from tsv.verified_is_trusted [OF v] have t: "trusts cr (trusted_state_verifier cr ts) eli" by simp
  moreover from lis t es have "trusts cr (trusted_state_verifier cr ts) lis"
    by (auto intro: trusts_next)
  ultimately show ?thesis using ts' es by blast
next
  case False
  with assms obtain w es where ts: "ts = EpochState w es"
    and v: "epoch_state_verify cr es (latest_li_w_sigs sp) = Ok ()"
    and ts': "ts' = EpochState (waypoint_new_any cr (lis_ledger_info (latest_li_w_sigs sp))) es"
    by (auto simp: verify_and_ratchet_def verify_and_ratchet_inner_def outcome_simps Let_def
        split: if_splits trusted_state.splits)
  have "trusts cr (trusted_state_verifier cr ts) (latest_li_w_sigs sp)"
    by (rule trusts_direct) (simp add: ts epoch_state_verifier_def v)
  with ts ts' show ?thesis by blast
qed

theorem ratchet_follows_chain_of_trust_witness:
  "\<exists>lis es. EpochState (waypoint_new_any sample_li_crypto (lis_ledger_info sample_latest_li))
      \<lparr>es_epoch = 1, es_verifier = four_verifier\<rparr> =
      EpochState (waypoint_new_any sample_li_crypto (lis_ledger_info lis)) es \<and>
    trusts sample_li_crypto (trusted_state_verifier sample_li_crypto sample_trusted_state) lis \<and>
    ((\<exists>w. sample_trusted_state = EpochState w es) \<or>
     (\<exists>eli. trusts sample_li_crypto (trusted_state_verifier sample_li_crypto sample_trusted_state) eli \<and>
        li_next_epoch_state (lis_ledger_info eli) = Some es))"
  by (rule ratchet_follows_chain_of_trust [OF sample_ratchet]) simp



text \<open>C37: \<open>EpochChangeProof::verify\<close> accepts exactly the proofs that consist of a stale prefix and a
  non-empty chain in which the client verifies the first ledger info and the validators announced by
  each sign the next; it returns the last.\<close>

theorem epoch_change_proof_verify_iff:
  "epoch_change_proof_verify cr p (trusted_state_verifier cr ts) = Ok li \<longleftrightarrow>
     (\<exists>pre suf. ledger_info_with_sigs p = pre @ suf \<and> suf \<noteq> [] \<and>
        (\<forall>x\<in>set pre. vf_is_ledger_info_stale (trusted_state_verifier cr ts) (lis_ledger_info x)) \<and>
        epoch_chain cr (trusted_state_verifier cr ts) suf \<and>
        \<not> vf_is_ledger_info_stale (trusted_state_verifier cr ts) (lis_ledger_info (last suf)) \<and>
        li = last suf)"
  by (rule tsv.verify_iff_chain)

theorem epoch_change_proof_verify_iff_witness:
  "\<exists>pre suf. [sample_epoch_li] = pre @ suf \<and> suf \<noteq> [] \<and>
     (\<forall>x\<in>set pre. vf_is_ledger_info_stale
        (trusted_state_verifier sample_li_crypto sample_trusted_state) (lis_ledger_info x)) \<and>
     epoch_chain sample_li_crypto (trusted_state_verifier sample_li_crypto sample_trusted_state) suf \<and>
     \<not> vf_is_ledger_info_stale (trusted_state_verifier sample_li_crypto sample_trusted_state)
          (lis_ledger_info (last suf)) \<and> sample_epoch_li = last suf"
  using sample_proof_verifies unfolding epoch_change_proof_verify_iff
  by (simp add: sample_state_proof_def)

end
