(* ===== verification/Consensus_Types.thy ===== *)
theory Consensus_Types
  imports Epoch_Change
begin

text \<open>
  The data and the state-independent checks of \<open>src/consensus/consensus-types/src\<close>: vote data, quorum
  certificates, blocks, timeouts and timeout certificates, votes, sync infos and the messages that
  carry them.

  The record \<open>crypto\<close> extends \<open>li_crypto\<close> by the hashes and signature schemes of the other signed
  structures; signing and verification of a structure are separated by its type, as the seeds of
  \<open>CryptoHasher\<close> do.  A transaction is its encoding, which consensus never inspects.  The wall clock
  of \<open>duration_since_epoch\<close> is an argument.
\<close>

type_synonym signed_transaction = "u8 list"
type_synonym proof_of_store = "u8 list"

section \<open>Vote data and quorum certificates\<close>

record vote_data =
  vd_proposed :: block_info
  vd_parent :: block_info

definition vote_data_verify :: "vote_data \<Rightarrow> (anyhow_error, unit) outcome" where
  "vote_data_verify vd =
     and_then (ensure (bi_epoch (vd_parent vd) = bi_epoch (vd_proposed vd))
       (Msg ''Parent and proposed epochs do not match'')) (\<lambda>_.
     and_then (ensure (bi_round (vd_parent vd) < bi_round (vd_proposed vd))
       (Msg ''Proposed round is less than parent round'')) (\<lambda>_.
     and_then (ensure (bi_timestamp_usecs (vd_parent vd) \<le> bi_timestamp_usecs (vd_proposed vd))
       (Msg ''Proposed happened before parent'')) (\<lambda>_.
     ensure (bi_version (vd_proposed vd) = 0 \<or> bi_version (vd_parent vd) \<le> bi_version (vd_proposed vd))
       (Msg ''Proposed version is less than parent version''))))"

definition is_for_nil :: "vote_data \<Rightarrow> bool" where
  "is_for_nil vd = (bi_timestamp_usecs (vd_proposed vd) = bi_timestamp_usecs (vd_parent vd))"

record quorum_cert =
  qc_vote_data :: vote_data
  qc_signed_ledger_info :: ledger_info_with_signatures

definition certified_block :: "quorum_cert \<Rightarrow> block_info" where
  "certified_block qc = vd_proposed (qc_vote_data qc)"

definition parent_block :: "quorum_cert \<Rightarrow> block_info" where
  "parent_block qc = vd_parent (qc_vote_data qc)"

definition qc_commit_info :: "quorum_cert \<Rightarrow> block_info" where
  "qc_commit_info qc = commit_info (lis_ledger_info (qc_signed_ledger_info qc))"

definition qc_ends_epoch :: "quorum_cert \<Rightarrow> bool" where
  "qc_ends_epoch qc = li_ends_epoch (lis_ledger_info (qc_signed_ledger_info qc))"

section \<open>Blocks\<close>

datatype payload =
    DirectMempool "signed_transaction list"
  | InQuorumStore "proof_of_store list"

definition payload_new_empty :: payload where
  "payload_new_empty = DirectMempool []"

fun payload_len :: "payload \<Rightarrow> ('e, nat) outcome" where
  "payload_len (DirectMempool txns) = Ok (length txns)"
| "payload_len (InQuorumStore poavs) = Panic"

fun payload_is_empty :: "payload \<Rightarrow> ('e, bool) outcome" where
  "payload_is_empty (DirectMempool txns) = Ok (txns = [])"
| "payload_is_empty (InQuorumStore poavs) = Panic"

datatype block_type =
    Proposal payload author "(round \<times> author) list"
  | NilBlock "(round \<times> author) list"
  | Genesis

record block_data =
  bd_epoch :: u64
  bd_round :: round
  bd_timestamp_usecs :: u64
  bd_quorum_cert :: quorum_cert
  bd_block_type :: block_type

record block =
  blk_id :: hash_value
  blk_block_data :: block_data
  blk_signature :: "signature option"

section \<open>Timeouts\<close>

record two_chain_timeout =
  tct_epoch :: u64
  tct_round :: round
  tct_quorum_cert :: quorum_cert

record timeout_signing_repr =
  tsr_epoch :: u64
  tsr_round :: round
  tsr_hqc_round :: round

record two_chain_timeout_certificate =
  tcc_timeout :: two_chain_timeout
  tcc_signatures :: "(author, round \<times> signature) btree_map"

section \<open>Cryptography\<close>

record crypto = li_crypto +
  hash_ledger_info :: "ledger_info \<Rightarrow> hash_value"
  hash_vote_data :: "vote_data \<Rightarrow> hash_value"
  hash_block_data :: "block_data \<Rightarrow> hash_value"
  vsig_block_data :: "public_key \<Rightarrow> block_data \<Rightarrow> signature \<Rightarrow> bool"
  vsig_timeout :: "public_key \<Rightarrow> timeout_signing_repr \<Rightarrow> signature \<Rightarrow> bool"
  sign_ledger_info :: "private_key \<Rightarrow> ledger_info \<Rightarrow> signature"
  sign_block_data :: "private_key \<Rightarrow> block_data \<Rightarrow> signature"
  sign_timeout :: "private_key \<Rightarrow> timeout_signing_repr \<Rightarrow> signature"
  public_key_of :: "private_key \<Rightarrow> public_key"
  txn_accumulator_hasher :: node_hasher

record validator_signer =
  vs_author :: author
  vs_private_key :: private_key

section \<open>Checks of quorum certificates\<close>

definition certificate_for_genesis_from_ledger_info ::
    "'z crypto_scheme \<Rightarrow> ledger_info \<Rightarrow> hash_value \<Rightarrow> ('e, quorum_cert) outcome" where
  "certificate_for_genesis_from_ledger_info cr li genesis_id =
     and_then (expect (checked_add (li_epoch li) 1)) (\<lambda>e.
     let ancestor = \<lparr>bi_epoch = e, bi_round = 0, bi_id = genesis_id,
           bi_executed_state_id = transaction_accumulator_hash li, bi_version = li_version li,
           bi_timestamp_usecs = li_timestamp_usecs li, bi_next_epoch_state = None\<rparr>;
         vd = \<lparr>vd_proposed = ancestor, vd_parent = ancestor\<rparr>
     in Ok \<lparr>qc_vote_data = vd,
            qc_signed_ledger_info =
              lis_new \<lparr>commit_info = ancestor, consensus_data_hash = hash_vote_data cr vd\<rparr> fmempty\<rparr>)"

definition qc_verify ::
    "'z crypto_scheme \<Rightarrow> quorum_cert \<Rightarrow> validator_verifier \<Rightarrow> (anyhow_error, unit) outcome" where
  "qc_verify cr qc v =
     and_then (ensure (consensus_data_hash (lis_ledger_info (qc_signed_ledger_info qc)) =
         hash_vote_data cr (qc_vote_data qc)) (Msg ''Quorum Cert's hash mismatch LedgerInfo'')) (\<lambda>_.
     if bi_round (certified_block qc) = 0
     then
       and_then (ensure (parent_block qc = certified_block qc)
         (Msg ''Genesis QC has inconsistent parent block with certified block'')) (\<lambda>_.
       and_then (ensure (certified_block qc = qc_commit_info qc)
         (Msg ''Genesis QC has inconsistent commit block with certified block'')) (\<lambda>_.
       ensure (lis_signatures (qc_signed_ledger_info qc) = fmempty)
         (Msg ''Genesis QC should not carry signatures'')))
     else
       and_then (anyhow_context ''Fail to verify QuorumCert''
         (lift_verify (lis_verify_signatures cr (qc_signed_ledger_info qc) v))) (\<lambda>_.
       vote_data_verify (qc_vote_data qc)))"

definition create_merged_with_executed_state ::
    "quorum_cert \<Rightarrow> ledger_info_with_signatures \<Rightarrow> (anyhow_error, quorum_cert) outcome" where
  "create_merged_with_executed_state qc executed =
     and_then (ensure (match_ordered_only (qc_commit_info qc) (lis_commit_info executed))
       (Msg ''Block info from QC and executed LI need to match'')) (\<lambda>_.
     Ok \<lparr>qc_vote_data = qc_vote_data qc, qc_signed_ledger_info = executed\<rparr>)"

section \<open>Block data\<close>

definition bd_author :: "block_data \<Rightarrow> author option" where
  "bd_author bd = (case bd_block_type bd of Proposal _ a _ \<Rightarrow> Some a | _ \<Rightarrow> None)"

definition bd_parent_id :: "block_data \<Rightarrow> hash_value" where
  "bd_parent_id bd = bi_id (certified_block (bd_quorum_cert bd))"

definition bd_payload :: "block_data \<Rightarrow> payload option" where
  "bd_payload bd = (case bd_block_type bd of Proposal p _ _ \<Rightarrow> Some p | _ \<Rightarrow> None)"

definition is_genesis_block :: "block_data \<Rightarrow> bool" where
  "is_genesis_block bd = (bd_block_type bd = Genesis)"

definition is_nil_block :: "block_data \<Rightarrow> bool" where
  "is_nil_block bd = (case bd_block_type bd of NilBlock _ \<Rightarrow> True | _ \<Rightarrow> False)"

definition bd_failed_authors :: "block_data \<Rightarrow> (round \<times> author) list option" where
  "bd_failed_authors bd =
     (case bd_block_type bd of
        Proposal _ _ failed \<Rightarrow> Some failed | NilBlock failed \<Rightarrow> Some failed | Genesis \<Rightarrow> None)"

definition bd_new_genesis :: "u64 \<Rightarrow> quorum_cert \<Rightarrow> ('e, block_data) outcome" where
  "bd_new_genesis ts qc =
     and_then (add_panic (bi_epoch (certified_block qc)) 1) (\<lambda>e.
     Ok \<lparr>bd_epoch = e, bd_round = 0, bd_timestamp_usecs = ts, bd_quorum_cert = qc,
         bd_block_type = Genesis\<rparr>)"

definition new_genesis_from_ledger_info :: "ledger_info \<Rightarrow> ('e, block_data) outcome" where
  "new_genesis_from_ledger_info li =
     and_then (assert_panic (li_ends_epoch li)) (\<lambda>_.
     let ancestor = \<lparr>bi_epoch = li_epoch li, bi_round = 0, bi_id = hash_zero,
           bi_executed_state_id = transaction_accumulator_hash li, bi_version = li_version li,
           bi_timestamp_usecs = li_timestamp_usecs li, bi_next_epoch_state = None\<rparr>
     in bd_new_genesis (li_timestamp_usecs li)
          \<lparr>qc_vote_data = \<lparr>vd_proposed = ancestor, vd_parent = ancestor\<rparr>,
           qc_signed_ledger_info =
             lis_new \<lparr>commit_info = ancestor, consensus_data_hash = hash_zero\<rparr> fmempty\<rparr>)"

definition bd_new_nil :: "round \<Rightarrow> quorum_cert \<Rightarrow> (round \<times> author) list \<Rightarrow> block_data" where
  "bd_new_nil r qc failed =
     \<lparr>bd_epoch = bi_epoch (certified_block qc), bd_round = r,
      bd_timestamp_usecs = bi_timestamp_usecs (certified_block qc), bd_quorum_cert = qc,
      bd_block_type = NilBlock failed\<rparr>"

definition bd_new_proposal ::
    "payload \<Rightarrow> author \<Rightarrow> (round \<times> author) list \<Rightarrow> round \<Rightarrow> u64 \<Rightarrow> quorum_cert \<Rightarrow> block_data" where
  "bd_new_proposal p a failed r ts qc =
     \<lparr>bd_epoch = bi_epoch (certified_block qc), bd_round = r, bd_timestamp_usecs = ts,
      bd_quorum_cert = qc, bd_block_type = Proposal p a failed\<rparr>"

definition is_reconfiguration_suffix :: "block_data \<Rightarrow> bool" where
  "is_reconfiguration_suffix bd = has_reconfiguration (certified_block (bd_quorum_cert bd))"

section \<open>Blocks\<close>

abbreviation blk_epoch :: "block \<Rightarrow> u64" where
  "blk_epoch b \<equiv> bd_epoch (blk_block_data b)"

abbreviation blk_round :: "block \<Rightarrow> round" where
  "blk_round b \<equiv> bd_round (blk_block_data b)"

abbreviation blk_quorum_cert :: "block \<Rightarrow> quorum_cert" where
  "blk_quorum_cert b \<equiv> bd_quorum_cert (blk_block_data b)"

abbreviation blk_timestamp_usecs :: "block \<Rightarrow> u64" where
  "blk_timestamp_usecs b \<equiv> bd_timestamp_usecs (blk_block_data b)"

definition blk_parent_id :: "block \<Rightarrow> hash_value" where
  "blk_parent_id b = bi_id (certified_block (blk_quorum_cert b))"

definition gen_block_info ::
    "block \<Rightarrow> hash_value \<Rightarrow> version \<Rightarrow> epoch_state option \<Rightarrow> block_info" where
  "gen_block_info b executed_state_id v next_epoch_state =
     \<lparr>bi_epoch = blk_epoch b, bi_round = blk_round b, bi_id = blk_id b,
      bi_executed_state_id = executed_state_id, bi_version = v,
      bi_timestamp_usecs = blk_timestamp_usecs b, bi_next_epoch_state = next_epoch_state\<rparr>"

definition make_genesis_block_from_ledger_info ::
    "'z crypto_scheme \<Rightarrow> ledger_info \<Rightarrow> ('e, block) outcome" where
  "make_genesis_block_from_ledger_info cr li =
     and_then (new_genesis_from_ledger_info li) (\<lambda>bd.
     Ok \<lparr>blk_id = hash_block_data cr bd, blk_block_data = bd, blk_signature = None\<rparr>)"

definition block_new_nil ::
    "'z crypto_scheme \<Rightarrow> round \<Rightarrow> quorum_cert \<Rightarrow> (round \<times> author) list \<Rightarrow> block" where
  "block_new_nil cr r qc failed =
     (let bd = bd_new_nil r qc failed
      in \<lparr>blk_id = hash_block_data cr bd, blk_block_data = bd, blk_signature = None\<rparr>)"

definition new_proposal_from_block_data_and_signature ::
    "'z crypto_scheme \<Rightarrow> block_data \<Rightarrow> signature \<Rightarrow> block" where
  "new_proposal_from_block_data_and_signature cr bd sig =
     \<lparr>blk_id = hash_block_data cr bd, blk_block_data = bd, blk_signature = Some sig\<rparr>"

definition new_proposal_from_block_data ::
    "'z crypto_scheme \<Rightarrow> block_data \<Rightarrow> validator_signer \<Rightarrow> block" where
  "new_proposal_from_block_data cr bd signer =
     new_proposal_from_block_data_and_signature cr bd (sign_block_data cr (vs_private_key signer) bd)"

definition block_new_proposal ::
    "'z crypto_scheme \<Rightarrow> payload \<Rightarrow> round \<Rightarrow> u64 \<Rightarrow> quorum_cert \<Rightarrow> validator_signer \<Rightarrow>
     (round \<times> author) list \<Rightarrow> block" where
  "block_new_proposal cr p r ts qc signer failed =
     new_proposal_from_block_data cr (bd_new_proposal p (vs_author signer) failed r ts qc) signer"

definition validate_signature ::
    "'z crypto_scheme \<Rightarrow> block \<Rightarrow> validator_verifier \<Rightarrow> (anyhow_error, unit) outcome" where
  "validate_signature cr b v =
     (case bd_block_type (blk_block_data b) of
        Genesis \<Rightarrow> Err (Msg ''We should not accept genesis from others'')
      | NilBlock _ \<Rightarrow> qc_verify cr (blk_quorum_cert b) v
      | Proposal _ a _ \<Rightarrow>
          and_then (ok_or (blk_signature b) (Msg ''Missing signature in Proposal'')) (\<lambda>sig.
          and_then (lift_verify (verifier_verify (vsig_block_data cr) v a (blk_block_data b) sig)) (\<lambda>_.
          qc_verify cr (blk_quorum_cert b) v)))"

primrec check_failed_authors ::
    "round \<Rightarrow> round \<Rightarrow> (round \<times> author) list \<Rightarrow> (anyhow_error, unit) outcome" where
  "check_failed_authors succ_round bound [] = Ok ()"
| "check_failed_authors succ_round bound (ra # rest) =
     and_then (ensure (bound < fst ra \<and> fst ra < succ_round)
       (Msg ''Incorrect round in failed authors'')) (\<lambda>_.
     check_failed_authors succ_round (fst ra) rest)"

definition block_timebound :: u64 where
  "block_timebound = 300000000"

definition verify_well_formed :: "u64 \<Rightarrow> block \<Rightarrow> (anyhow_error, unit) outcome" where
  "verify_well_formed current_ts b =
     (let bd = blk_block_data b; qc = blk_quorum_cert b; parent = certified_block qc
      in
      and_then (ensure (\<not> is_genesis_block bd) (Msg ''We must not accept genesis from others'')) (\<lambda>_.
      and_then (ensure (bi_round parent < blk_round b)
        (Msg ''Block must have a greater round than parent's block'')) (\<lambda>_.
      and_then (ensure (bi_epoch parent = blk_epoch b)
        (Msg ''block's parent should be in the same epoch'')) (\<lambda>_.
      and_then
        (if has_reconfiguration parent
         then and_then (case bd_payload bd of None \<Rightarrow> Ok True | Some p \<Rightarrow> payload_is_empty p) (\<lambda>empty.
              ensure empty (Msg ''Reconfiguration suffix should not carry payload''))
         else Ok ()) (\<lambda>_.
      and_then
        (case bd_failed_authors bd of
           None \<Rightarrow> Ok ()
         | Some failed_authors \<Rightarrow>
             and_then (add_panic (blk_round b) (if is_nil_block bd then 1 else 0)) (\<lambda>succ_round.
             and_then (add_panic (bi_round parent) 1) (\<lambda>next_round.
             and_then (ok_or (checked_sub succ_round next_round)
               (Msg ''Block round is smaller than block's parent round'')) (\<lambda>skipped_rounds.
             and_then (ensure (length failed_authors \<le> unat skipped_rounds)
               (Msg ''Block has more failed authors than missed rounds'')) (\<lambda>_.
             check_failed_authors succ_round (bi_round parent) failed_authors))))) (\<lambda>_.
      and_then
        (if is_nil_block bd \<or> has_reconfiguration parent
         then ensure (blk_timestamp_usecs b = bi_timestamp_usecs parent)
                (Msg ''Nil/reconfig suffix block must have same timestamp as parent'')
         else and_then (ensure (blk_timestamp_usecs b > bi_timestamp_usecs parent)
                (Msg ''Blocks must have strictly increasing timestamps'')) (\<lambda>_.
              ensure (blk_timestamp_usecs b \<le> saturating_add current_ts block_timebound)
                (Msg ''Blocks must not be too far in the future''))) (\<lambda>_.
      ensure (\<not> qc_ends_epoch qc)
        (Msg ''Block cannot be proposed in an epoch that has ended''))))))))"

section \<open>Block metadata\<close>

record block_metadata =
  bm_id :: hash_value
  bm_epoch :: u64
  bm_round :: u64
  bm_previous_block_votes :: "bool list"
  bm_proposer :: account_address
  bm_failed_proposer_indices :: "u32 list"
  bm_timestamp_usecs :: u64

type_synonym write_set_payload = "u8 list"

datatype transaction =
    UserTransaction signed_transaction
  | GenesisTransaction write_set_payload
  | BlockMetadata block_metadata
  | StateCheckpoint hash_value

definition voters_to_bitmap ::
    "account_address list \<Rightarrow> (account_address, 'a) btree_map \<Rightarrow> bool list" where
  "voters_to_bitmap validators voters = map (\<lambda>a. a |\<in>| fmdom voters) validators"

fun list_position :: "'a \<Rightarrow> 'a list \<Rightarrow> nat option" where
  "list_position x [] = None"
| "list_position x (y # ys) = (if y = x then Some 0 else map_option Suc (list_position x ys))"

primrec failed_authors_to_indices ::
    "account_address list \<Rightarrow> (round \<times> author) list \<Rightarrow> ('e, u32 list) outcome" where
  "failed_authors_to_indices validators [] = Ok []"
| "failed_authors_to_indices validators (ra # rest) =
     and_then (expect (list_position (snd ra) validators)) (\<lambda>index.
     and_then (expect (if index < 2 ^ 32 then Some (of_nat index) else None)) (\<lambda>i.
     and_then (failed_authors_to_indices validators rest) (\<lambda>is. Ok (i # is))))"

definition new_block_metadata :: "block \<Rightarrow> account_address list \<Rightarrow> ('e, block_metadata) outcome" where
  "new_block_metadata b validators =
     and_then
       (case bd_failed_authors (blk_block_data b) of
          None \<Rightarrow> Ok []
        | Some failed \<Rightarrow> failed_authors_to_indices validators failed) (\<lambda>failed_indices.
     Ok \<lparr>bm_id = blk_id b, bm_epoch = blk_epoch b, bm_round = blk_round b,
         bm_previous_block_votes =
           voters_to_bitmap validators (lis_signatures (qc_signed_ledger_info (blk_quorum_cert b))),
         bm_proposer = (case bd_author (blk_block_data b) of None \<Rightarrow> 0 | Some a \<Rightarrow> a),
         bm_failed_proposer_indices = failed_indices,
         bm_timestamp_usecs = blk_timestamp_usecs b\<rparr>)"

fun payload_into_iter :: "payload \<Rightarrow> ('e, signed_transaction list) outcome" where
  "payload_into_iter (DirectMempool txns) = Ok txns"
| "payload_into_iter (InQuorumStore poavs) = Panic"

definition transactions_to_execute :: "block \<Rightarrow> account_address list \<Rightarrow> ('e, transaction list) outcome" where
  "transactions_to_execute b validators =
     and_then (new_block_metadata b validators) (\<lambda>bm.
     and_then (payload_into_iter
       (case bd_payload (blk_block_data b) of None \<Rightarrow> payload_new_empty | Some p \<Rightarrow> p)) (\<lambda>txns.
     Ok (BlockMetadata bm # map UserTransaction txns @ [StateCheckpoint (blk_id b)])))"

section \<open>Lemmas\<close>

lemma vote_data_verify_Ok:
  "vote_data_verify vd = Ok u \<longleftrightarrow>
     bi_epoch (vd_parent vd) = bi_epoch (vd_proposed vd) \<and>
     bi_round (vd_parent vd) < bi_round (vd_proposed vd) \<and>
     bi_timestamp_usecs (vd_parent vd) \<le> bi_timestamp_usecs (vd_proposed vd) \<and>
     (bi_version (vd_proposed vd) = 0 \<or> bi_version (vd_parent vd) \<le> bi_version (vd_proposed vd))"
  by (simp add: vote_data_verify_def outcome_simps)

lemma qc_verify_Ok:
  "qc_verify cr qc v = Ok u \<longleftrightarrow>
     consensus_data_hash (lis_ledger_info (qc_signed_ledger_info qc)) = hash_vote_data cr (qc_vote_data qc) \<and>
     (if bi_round (certified_block qc) = 0
      then parent_block qc = certified_block qc \<and> certified_block qc = qc_commit_info qc \<and>
           lis_signatures (qc_signed_ledger_info qc) = fmempty
      else lis_verify_signatures cr (qc_signed_ledger_info qc) v = Ok () \<and>
           vote_data_verify (qc_vote_data qc) = Ok ())"
  by (simp add: qc_verify_def outcome_simps)

lemma qc_verify_round_order:
  assumes "qc_verify cr qc v = Ok u" "bi_round (certified_block qc) \<noteq> 0"
  shows "bi_round (parent_block qc) < bi_round (certified_block qc)"
    and "bi_epoch (parent_block qc) = bi_epoch (certified_block qc)"
  using assms by (simp_all add: qc_verify_Ok vote_data_verify_Ok certified_block_def parent_block_def)

lemma verify_well_formed_Ok:
  assumes "verify_well_formed now b = Ok u"
  shows "\<not> is_genesis_block (blk_block_data b)"
    and "bi_round (certified_block (blk_quorum_cert b)) < blk_round b"
    and "bi_epoch (certified_block (blk_quorum_cert b)) = blk_epoch b"
    and "bi_timestamp_usecs (certified_block (blk_quorum_cert b)) \<le> blk_timestamp_usecs b"
    and "\<not> qc_ends_epoch (blk_quorum_cert b)"
  using assms by (auto simp: verify_well_formed_def Let_def outcome_simps split: if_splits)

lemma validate_signature_qc:
  "validate_signature cr b v = Ok u \<Longrightarrow> qc_verify cr (blk_quorum_cert b) v = Ok ()"
  by (auto simp: validate_signature_def outcome_simps split: block_type.splits)

lemma check_failed_authors_Ok:
  "check_failed_authors succ_round bound fs = Ok u \<longleftrightarrow>
     sorted_wrt (<) (bound # map fst fs) \<and> (\<forall>r\<in>fst ` set fs. r < succ_round)"
proof (induction fs arbitrary: bound)
  case (Cons ra fs)
  then show ?case by (auto simp: outcome_simps)
qed simp

end
