(* ===== verification/Consensus_Messages.thy ===== *)
theory Consensus_Messages
  imports Consensus_Types
begin

text \<open>
  Timeouts and timeout certificates, votes, sync infos, and the vote and proposal messages of
  \<open>src/consensus/consensus-types/src\<close>, with the data that the safety rules persist.
\<close>

section \<open>Timeouts and timeout certificates\<close>

definition hqc_round :: "two_chain_timeout \<Rightarrow> round" where
  "hqc_round t = bi_round (certified_block (tct_quorum_cert t))"

definition signing_format :: "two_chain_timeout \<Rightarrow> timeout_signing_repr" where
  "signing_format t = \<lparr>tsr_epoch = tct_epoch t, tsr_round = tct_round t, tsr_hqc_round = hqc_round t\<rparr>"

definition timeout_sign :: "'z crypto_scheme \<Rightarrow> two_chain_timeout \<Rightarrow> validator_signer \<Rightarrow> signature" where
  "timeout_sign cr t signer = sign_timeout cr (vs_private_key signer) (signing_format t)"

definition timeout_verify ::
    "'z crypto_scheme \<Rightarrow> two_chain_timeout \<Rightarrow> validator_verifier \<Rightarrow> (anyhow_error, unit) outcome" where
  "timeout_verify cr t v =
     and_then (ensure (hqc_round t < tct_round t)
       (Msg ''Timeout round should be larger than the QC round'')) (\<lambda>_.
     qc_verify cr (tct_quorum_cert t) v)"

definition tc_new :: "two_chain_timeout \<Rightarrow> two_chain_timeout_certificate" where
  "tc_new t = \<lparr>tcc_timeout = t, tcc_signatures = fmempty\<rparr>"

primrec tc_verify_signatures ::
    "'z crypto_scheme \<Rightarrow> two_chain_timeout \<Rightarrow> validator_verifier \<Rightarrow> round \<Rightarrow>
     (author \<times> round \<times> signature) list \<Rightarrow> (anyhow_error, round) outcome" where
  "tc_verify_signatures cr t v signed_round [] = Ok signed_round"
| "tc_verify_signatures cr t v signed_round (e # rest) =
     (case e of (a, qc_round, sig) \<Rightarrow>
        and_then (anyhow_context ''Failed to verify TimeoutSigningRepr''
          (lift_verify (verifier_verify (vsig_timeout cr) v a
             \<lparr>tsr_epoch = tct_epoch t, tsr_round = tct_round t, tsr_hqc_round = qc_round\<rparr> sig))) (\<lambda>_.
        tc_verify_signatures cr t v (max signed_round qc_round) rest))"

definition tc_verify ::
    "'z crypto_scheme \<Rightarrow> two_chain_timeout_certificate \<Rightarrow> validator_verifier \<Rightarrow>
     (anyhow_error, unit) outcome" where
  "tc_verify cr tc v =
     and_then (timeout_verify cr (tcc_timeout tc) v) (\<lambda>_.
     and_then (lift_verify (check_voting_power v (bt_keys (tcc_signatures tc)))) (\<lambda>_.
     and_then (tc_verify_signatures cr (tcc_timeout tc) v 0 (bt_iter (tcc_signatures tc))) (\<lambda>signed_round.
     ensure (hqc_round (tcc_timeout tc) = signed_round) (Msg ''Inconsistent hqc round''))))"

definition tc_epoch :: "two_chain_timeout_certificate \<Rightarrow> u64" where
  "tc_epoch tc = tct_epoch (tcc_timeout tc)"

definition tc_round :: "two_chain_timeout_certificate \<Rightarrow> round" where
  "tc_round tc = tct_round (tcc_timeout tc)"

definition highest_hqc_round :: "two_chain_timeout_certificate \<Rightarrow> round" where
  "highest_hqc_round tc = hqc_round (tcc_timeout tc)"

definition tc_signers :: "two_chain_timeout_certificate \<Rightarrow> author list" where
  "tc_signers tc = bt_keys (tcc_signatures tc)"

definition tc_add ::
    "two_chain_timeout_certificate \<Rightarrow> author \<Rightarrow> two_chain_timeout \<Rightarrow> signature \<Rightarrow>
     two_chain_timeout_certificate" where
  "tc_add tc a t sig =
     \<lparr>tcc_timeout = (if hqc_round t > hqc_round (tcc_timeout tc) then t else tcc_timeout tc),
      tcc_signatures = fmupd a (hqc_round t, sig) (tcc_signatures tc)\<rparr>"

section \<open>Votes\<close>

record vote =
  vote_vote_data :: vote_data
  vote_author :: author
  vote_ledger_info :: ledger_info
  vote_signature :: signature
  vote_two_chain_timeout :: "(two_chain_timeout \<times> signature) option"

definition vote_new_with_signature ::
    "vote_data \<Rightarrow> author \<Rightarrow> ledger_info \<Rightarrow> signature \<Rightarrow> vote" where
  "vote_new_with_signature vd a li sig =
     \<lparr>vote_vote_data = vd, vote_author = a, vote_ledger_info = li, vote_signature = sig,
      vote_two_chain_timeout = None\<rparr>"

definition vote_new ::
    "'z crypto_scheme \<Rightarrow> vote_data \<Rightarrow> author \<Rightarrow> ledger_info \<Rightarrow> validator_signer \<Rightarrow> vote" where
  "vote_new cr vd a li_placeholder signer =
     (let li = li_placeholder\<lparr>consensus_data_hash := hash_vote_data cr vd\<rparr>
      in vote_new_with_signature vd a li (sign_ledger_info cr (vs_private_key signer) li))"

definition add_2chain_timeout :: "two_chain_timeout \<Rightarrow> signature \<Rightarrow> vote \<Rightarrow> vote" where
  "add_2chain_timeout t sig vt = vt\<lparr>vote_two_chain_timeout := Some (t, sig)\<rparr>"

abbreviation vote_proposed :: "vote \<Rightarrow> block_info" where
  "vote_proposed vt \<equiv> vd_proposed (vote_vote_data vt)"

definition vote_epoch :: "vote \<Rightarrow> u64" where
  "vote_epoch vt = bi_epoch (vote_proposed vt)"

definition generate_2chain_timeout :: "vote \<Rightarrow> quorum_cert \<Rightarrow> two_chain_timeout" where
  "generate_2chain_timeout vt qc =
     \<lparr>tct_epoch = bi_epoch (vote_proposed vt), tct_round = bi_round (vote_proposed vt),
      tct_quorum_cert = qc\<rparr>"

definition is_timeout :: "vote \<Rightarrow> bool" where
  "is_timeout vt = (vote_two_chain_timeout vt \<noteq> None)"

definition vote_verify ::
    "'z crypto_scheme \<Rightarrow> vote \<Rightarrow> validator_verifier \<Rightarrow> (anyhow_error, unit) outcome" where
  "vote_verify cr vt v =
     and_then (ensure (consensus_data_hash (vote_ledger_info vt) = hash_vote_data cr (vote_vote_data vt))
       (Msg ''Vote's hash mismatch with LedgerInfo'')) (\<lambda>_.
     and_then (anyhow_context ''Failed to verify Vote''
       (lift_verify (verifier_verify (vsig_ledger_info cr) v (vote_author vt) (vote_ledger_info vt)
          (vote_signature vt)))) (\<lambda>_.
     and_then
       (case vote_two_chain_timeout vt of
          None \<Rightarrow> Ok ()
        | Some (t, sig) \<Rightarrow>
            and_then (ensure ((tct_epoch t, tct_round t) = (vote_epoch vt, bi_round (vote_proposed vt)))
              (Msg ''2-chain timeout has different (epoch, round) than Vote'')) (\<lambda>_.
            and_then (timeout_verify cr t v) (\<lambda>_.
            anyhow_context ''Failed to verify 2-chain timeout signature''
              (lift_verify (verifier_verify (vsig_timeout cr) v (vote_author vt) (signing_format t) sig))))) (\<lambda>_.
     vote_data_verify (vote_vote_data vt))))"

section \<open>Sync info\<close>

record sync_info =
  si_highest_quorum_cert :: quorum_cert
  si_highest_ordered_cert :: "quorum_cert option"
  si_highest_commit_cert :: quorum_cert
  si_highest_2chain_timeout_cert :: "two_chain_timeout_certificate option"

definition option_filter :: "('a \<Rightarrow> bool) \<Rightarrow> 'a option \<Rightarrow> 'a option" where
  "option_filter P m = (case m of Some x \<Rightarrow> if P x then Some x else None | None \<Rightarrow> None)"

definition sync_info_new_decoupled ::
    "quorum_cert \<Rightarrow> quorum_cert \<Rightarrow> quorum_cert \<Rightarrow> two_chain_timeout_certificate option \<Rightarrow> sync_info" where
  "sync_info_new_decoupled hqc hoc hcc htc =
     \<lparr>si_highest_quorum_cert = hqc,
      si_highest_ordered_cert = option_filter (\<lambda>c. c \<noteq> hqc) (Some hoc),
      si_highest_commit_cert = hcc,
      si_highest_2chain_timeout_cert =
        option_filter (\<lambda>tc. tc_round tc > bi_round (certified_block hqc)) htc\<rparr>"

definition sync_info_new ::
    "quorum_cert \<Rightarrow> quorum_cert \<Rightarrow> two_chain_timeout_certificate option \<Rightarrow> sync_info" where
  "sync_info_new hqc hoc htc = sync_info_new_decoupled hqc hoc hoc htc"

definition highest_ordered_cert :: "sync_info \<Rightarrow> quorum_cert" where
  "highest_ordered_cert si =
     (case si_highest_ordered_cert si of Some c \<Rightarrow> c | None \<Rightarrow> si_highest_quorum_cert si)"

definition highest_certified_round :: "sync_info \<Rightarrow> round" where
  "highest_certified_round si = bi_round (certified_block (si_highest_quorum_cert si))"

definition highest_timeout_round :: "sync_info \<Rightarrow> round" where
  "highest_timeout_round si =
     (case si_highest_2chain_timeout_cert si of None \<Rightarrow> 0 | Some tc \<Rightarrow> tc_round tc)"

definition highest_ordered_round :: "sync_info \<Rightarrow> round" where
  "highest_ordered_round si = bi_round (qc_commit_info (highest_ordered_cert si))"

definition highest_commit_round :: "sync_info \<Rightarrow> round" where
  "highest_commit_round si = bi_round (qc_commit_info (si_highest_commit_cert si))"

definition highest_round :: "sync_info \<Rightarrow> round" where
  "highest_round si = max (highest_certified_round si) (highest_timeout_round si)"

definition si_epoch :: "sync_info \<Rightarrow> u64" where
  "si_epoch si = bi_epoch (certified_block (si_highest_quorum_cert si))"

definition sync_info_verify ::
    "'z crypto_scheme \<Rightarrow> sync_info \<Rightarrow> validator_verifier \<Rightarrow> (anyhow_error, unit) outcome" where
  "sync_info_verify cr si v =
     (let hqc = si_highest_quorum_cert si; hoc = highest_ordered_cert si;
          epoch = bi_epoch (certified_block hqc)
      in
      and_then (ensure (epoch = bi_epoch (certified_block hoc))
        (Msg ''Multi epoch in SyncInfo - HOC and HQC'')) (\<lambda>_.
      and_then
        (case si_highest_2chain_timeout_cert si of
           None \<Rightarrow> Ok ()
         | Some tc \<Rightarrow> ensure (epoch = tc_epoch tc) (Msg ''Multi epoch in SyncInfo - TC and HQC'')) (\<lambda>_.
      and_then (ensure (bi_round (certified_block hqc) \<ge> bi_round (certified_block hoc))
        (Msg ''HQC has lower round than HOC'')) (\<lambda>_.
      and_then (ensure (bi_round (certified_block hoc) \<ge> highest_commit_round si)
        (Msg ''HOC has lower round than HLI'')) (\<lambda>_.
      and_then (ensure (qc_commit_info hoc \<noteq> block_info_empty) (Msg ''HOC has no committed block'')) (\<lambda>_.
      and_then (ensure (qc_commit_info (si_highest_commit_cert si) \<noteq> block_info_empty)
        (Msg ''HLI has empty commit info'')) (\<lambda>_.
      anyhow_context ''Fail to verify SyncInfo''
        (and_then (qc_verify cr hqc v) (\<lambda>_.
         and_then (case si_highest_ordered_cert si of None \<Rightarrow> Ok () | Some c \<Rightarrow> qc_verify cr c v) (\<lambda>_.
         and_then
           (if bi_round (qc_commit_info (si_highest_commit_cert si)) > 0
            then qc_verify cr (si_highest_commit_cert si) v else Ok ()) (\<lambda>_.
         case si_highest_2chain_timeout_cert si of None \<Rightarrow> Ok () | Some tc \<Rightarrow> tc_verify cr tc v)))))))))))"

definition has_newer_certificates :: "sync_info \<Rightarrow> sync_info \<Rightarrow> bool" where
  "has_newer_certificates si other =
     (highest_certified_round si > highest_certified_round other \<or>
      highest_timeout_round si > highest_timeout_round other \<or>
      highest_ordered_round si > highest_ordered_round other \<or>
      highest_commit_round si > highest_commit_round other)"

section \<open>Messages\<close>

record vote_msg =
  vm_vote :: vote
  vm_sync_info :: sync_info

definition vote_msg_verify ::
    "'z crypto_scheme \<Rightarrow> vote_msg \<Rightarrow> validator_verifier \<Rightarrow> (anyhow_error, unit) outcome" where
  "vote_msg_verify cr m v =
     and_then (ensure (vote_epoch (vm_vote m) = si_epoch (vm_sync_info m))
       (Msg ''VoteMsg has different epoch'')) (\<lambda>_.
     and_then (ensure (bi_round (vote_proposed (vm_vote m)) > highest_round (vm_sync_info m))
       (Msg ''Vote Round should be higher than SyncInfo'')) (\<lambda>_.
     and_then
       (case vote_two_chain_timeout (vm_vote m) of
          None \<Rightarrow> Ok ()
        | Some (t, _) \<Rightarrow> ensure (hqc_round t \<le> highest_certified_round (vm_sync_info m))
            (Msg ''2-chain Timeout hqc should be less or equal than the sync info hqc'')) (\<lambda>_.
     vote_verify cr (vm_vote m) v)))"

record proposal_msg =
  pm_proposal :: block
  pm_sync_info :: sync_info

definition proposal_msg_verify_well_formed ::
    "u64 \<Rightarrow> proposal_msg \<Rightarrow> (anyhow_error, unit) outcome" where
  "proposal_msg_verify_well_formed now m =
     (let b = pm_proposal m; si = pm_sync_info m
      in
      and_then (ensure (\<not> is_nil_block (blk_block_data b)) (Msg ''Proposal for a NIL block'')) (\<lambda>_.
      and_then (anyhow_context ''Fail to verify ProposalMsg's block'' (verify_well_formed now b)) (\<lambda>_.
      and_then (ensure (blk_round b > 0) (Msg ''Proposal has an incorrect round of 0'')) (\<lambda>_.
      and_then (ensure (blk_epoch b = si_epoch si)
        (Msg ''ProposalMsg has different epoch number from SyncInfo'')) (\<lambda>_.
      and_then (ensure (blk_parent_id b = bi_id (certified_block (si_highest_quorum_cert si)))
        (Msg ''Proposal HQC in SyncInfo does not certify the block parent'')) (\<lambda>_.
      and_then (ok_or (checked_sub (blk_round b) 1) (Msg ''proposal round overflowed!'')) (\<lambda>previous_round.
      and_then (ensure
          (previous_round = max (bi_round (certified_block (blk_quorum_cert b))) (highest_timeout_round si))
          (Msg ''Proposal does not have a certified round'')) (\<lambda>_.
      ensure (bd_author (blk_block_data b) \<noteq> None) (Msg ''Proposal does not define an author'')))))))))"

definition proposal_msg_verify ::
    "'z crypto_scheme \<Rightarrow> u64 \<Rightarrow> proposal_msg \<Rightarrow> validator_verifier \<Rightarrow> (anyhow_error, unit) outcome" where
  "proposal_msg_verify cr now m v =
     and_then (validate_signature cr (pm_proposal m) v) (\<lambda>_.
     and_then
       (case si_highest_2chain_timeout_cert (pm_sync_info m) of
          None \<Rightarrow> Ok () | Some tc \<Rightarrow> tc_verify cr tc v) (\<lambda>_.
     proposal_msg_verify_well_formed now m))"

definition proposer :: "proposal_msg \<Rightarrow> ('e, author) outcome" where
  "proposer m = expect (bd_author (blk_block_data (pm_proposal m)))"

section \<open>Vote proposals and safety data\<close>

record vote_proposal =
  vp_accumulator_extension_proof :: accumulator_extension_proof
  vp_block :: block
  vp_next_epoch_state :: "epoch_state option"
  vp_decoupled_execution :: bool

definition vote_data_ordering_only :: "vote_proposal \<Rightarrow> vote_data" where
  "vote_data_ordering_only vp =
     \<lparr>vd_proposed = gen_block_info (vp_block vp) accumulator_placeholder_hash 0 (vp_next_epoch_state vp),
      vd_parent = certified_block (blk_quorum_cert (vp_block vp))\<rparr>"

definition vote_data_with_extension_proof :: "vote_proposal \<Rightarrow> in_memory_accumulator \<Rightarrow> vote_data" where
  "vote_data_with_extension_proof vp new_tree =
     \<lparr>vd_proposed = gen_block_info (vp_block vp) (root_hash new_tree) (accumulator_version new_tree)
        (vp_next_epoch_state vp),
      vd_parent = certified_block (blk_quorum_cert (vp_block vp))\<rparr>"

definition gen_vote_data :: "'z crypto_scheme \<Rightarrow> vote_proposal \<Rightarrow> (anyhow_error, vote_data) outcome" where
  "gen_vote_data cr vp =
     (if vp_decoupled_execution vp then Ok (vote_data_ordering_only vp)
      else and_then (extension_proof_verify (txn_accumulator_hasher cr) (vp_accumulator_extension_proof vp)
             (bi_executed_state_id (certified_block (blk_quorum_cert (vp_block vp))))) (\<lambda>new_tree.
           Ok (vote_data_with_extension_proof vp new_tree)))"

record safety_data =
  sd_epoch :: u64
  sd_last_voted_round :: u64
  sd_preferred_round :: u64
  sd_one_chain_round :: u64
  sd_last_vote :: "vote option"

section \<open>Lemmas\<close>

lemma gen_vote_data_Ok:
  assumes "gen_vote_data cr vp = Ok vd"
  shows "bi_epoch (vd_proposed vd) = blk_epoch (vp_block vp)"
    and "bi_round (vd_proposed vd) = blk_round (vp_block vp)"
    and "bi_id (vd_proposed vd) = blk_id (vp_block vp)"
    and "bi_timestamp_usecs (vd_proposed vd) = blk_timestamp_usecs (vp_block vp)"
    and "vd_parent vd = certified_block (blk_quorum_cert (vp_block vp))"
  using assms
  by (auto simp: gen_vote_data_def vote_data_ordering_only_def vote_data_with_extension_proof_def
      gen_block_info_def outcome_simps split: if_splits)

lemma timeout_verify_Ok:
  "timeout_verify cr t v = Ok u \<longleftrightarrow> hqc_round t < tct_round t \<and> qc_verify cr (tct_quorum_cert t) v = Ok ()"
  by (simp add: timeout_verify_def outcome_simps)

lemma tc_verify_signatures_Ok:
  "tc_verify_signatures cr t v r0 es = Ok r \<longleftrightarrow>
     (\<forall>(a, qr, sig)\<in>set es. \<exists>pk. get_public_key v a = Some pk \<and>
        vsig_timeout cr pk \<lparr>tsr_epoch = tct_epoch t, tsr_round = tct_round t, tsr_hqc_round = qr\<rparr> sig) \<and>
     r = fold max (map (fst \<circ> snd) es) r0"
  by (induction es arbitrary: r0)
    (auto simp: outcome_simps verifier_verify_Ok max.commute)

end
