(* ===== verification/Safety_Storage.thy ===== *)
theory Safety_Storage
  imports Consensus_Messages
begin

text \<open>
  The storage below the safety rules: the key-value interface of \<open>src/secure/storage/src\<close>
  (\<open>kv_storage.rs\<close>, \<open>in_memory.rs\<close>, \<open>namespaced.rs\<close>), and \<open>PersistentSafetyStorage\<close> of
  \<open>src/consensus/safety-rules/src/persistent_safety_storage.rs\<close> with the errors of \<open>error.rs\<close>.

  A backend is the record of its \<open>get\<close> and \<open>set\<close>.  The JSON codec of \<open>serde_json\<close> is modelled by a
  tag on the stored value: reading at the type that was written returns the value, reading at another
  type is a serialization error.  The contract that the safety rules rely on is the locale
  \<open>kv_storage\<close>: a successful write is read back, other keys keep their values, and a failed write has
  no effect.  It is interpreted on the in-memory backend and on its namespaced wrapper.
\<close>

section \<open>Key-value storage\<close>

datatype storage_error =
    EntropyError string
  | InternalError string
  | KeyAlreadyExists string
  | KeyNotSet string
  | PermissionDenied
  | SerializationError string
  | KeyVersionNotFound string string

datatype stored_value =
    V_SafetyData safety_data
  | V_Waypoint waypoint
  | V_Author author
  | V_PrivateKey private_key

record get_response =
  last_update :: u64
  gr_value :: stored_value

record 's kv_ops =
  kv_get :: "'s \<Rightarrow> string \<Rightarrow> (storage_error, get_response) outcome"
  kv_set :: "string \<Rightarrow> stored_value \<Rightarrow> ('s, storage_error, unit) stateful"

record in_memory_storage =
  ims_data :: "string \<Rightarrow> get_response option"
  ims_now_secs :: u64

definition in_memory_new :: "u64 \<Rightarrow> in_memory_storage" where
  "in_memory_new now = \<lparr>ims_data = (\<lambda>_. None), ims_now_secs = now\<rparr>"

definition in_memory_get :: "in_memory_storage \<Rightarrow> string \<Rightarrow> (storage_error, get_response) outcome" where
  "in_memory_get s key = ok_or (ims_data s key) (KeyNotSet key)"

definition in_memory_set ::
    "string \<Rightarrow> stored_value \<Rightarrow> (in_memory_storage, storage_error, unit) stateful" where
  "in_memory_set key v s =
     (Ok (), s\<lparr>ims_data := (ims_data s)(key := Some \<lparr>last_update = ims_now_secs s, gr_value = v\<rparr>)\<rparr>)"

definition in_memory_ops :: "in_memory_storage kv_ops" where
  "in_memory_ops = \<lparr>kv_get = in_memory_get, kv_set = in_memory_set\<rparr>"

definition namespaced :: "string \<Rightarrow> string \<Rightarrow> string" where
  "namespaced namespace name = namespace @ ''/'' @ name"

definition namespaced_ops :: "string \<Rightarrow> 's kv_ops \<Rightarrow> 's kv_ops" where
  "namespaced_ops namespace ops =
     \<lparr>kv_get = (\<lambda>s key. kv_get ops s (namespaced namespace key)),
      kv_set = (\<lambda>key v. kv_set ops (namespaced namespace key) v)\<rparr>"

section \<open>Errors of the safety rules\<close>

datatype missing_data = Storage_Missing storage_error | Key_Missing public_key

datatype sr_error =
    IncorrectEpoch u64 u64
  | IncorrectRound u64
  | IncorrectLastVotedRound u64 u64
  | IncorrectPreferredRound u64 u64
  | InvalidAccumulatorExtension anyhow_error
  | InvalidEpochChangeProof anyhow_error
  | Sr_InternalError anyhow_error
  | InvalidLedgerInfo
  | InvalidProposal anyhow_error
  | InvalidQuorumCertificate anyhow_error
  | NotInitialized string
  | SecureStorageMissingDataError missing_data
  | SecureStorageUnexpectedError storage_error
  | Sr_SerializationError string
  | ValidatorKeyNotFound missing_data
  | ValidatorNotInSet author
  | VoteProposalSignatureNotFound
  | NotSafeToVote u64 u64 u64 u64
  | NotSafeToTimeout u64 u64 u64 u64
  | InvalidTimeoutCertificate anyhow_error
  | InconsistentExecutionResult block_info block_info
  | InvalidOrderedLedgerInfo ledger_info
  | WaypointOutOfDate u64 u64 u64 u64
  | InvalidTimeout anyhow_error

fun from_storage_error :: "storage_error \<Rightarrow> (sr_error, 'a) outcome" where
  "from_storage_error PermissionDenied = Panic"
| "from_storage_error (KeyVersionNotFound k v) =
     Err (SecureStorageMissingDataError (Storage_Missing (KeyVersionNotFound k v)))"
| "from_storage_error (KeyNotSet k) = Err (SecureStorageMissingDataError (Storage_Missing (KeyNotSet k)))"
| "from_storage_error e = Err (SecureStorageUnexpectedError e)"

definition lift_storage :: "(storage_error, 'a) outcome \<Rightarrow> (sr_error, 'a) outcome" where
  "lift_storage m = (case m of Ok a \<Rightarrow> Ok a | Err e \<Rightarrow> from_storage_error e | Panic \<Rightarrow> Panic)"

section \<open>Persistent safety storage\<close>

definition consensus_key :: string where "consensus_key = ''consensus''"
definition owner_account :: string where "owner_account = ''owner_account''"
definition safety_data_key :: string where "safety_data_key = ''safety_data''"
definition waypoint_key :: string where "waypoint_key = ''waypoint''"

record 's persistent_safety_storage =
  enable_cached_safety_data :: bool
  cached_safety_data :: "safety_data option"
  internal_store :: 's

definition decode_error :: "(storage_error, 'a) outcome" where
  "decode_error = Err (SerializationError ''serde_json'')"

fun decode_safety_data :: "stored_value \<Rightarrow> (storage_error, safety_data) outcome" where
  "decode_safety_data (V_SafetyData d) = Ok d"
| "decode_safety_data _ = decode_error"

fun decode_waypoint :: "stored_value \<Rightarrow> (storage_error, waypoint) outcome" where
  "decode_waypoint (V_Waypoint w) = Ok w"
| "decode_waypoint _ = decode_error"

fun decode_author :: "stored_value \<Rightarrow> (storage_error, author) outcome" where
  "decode_author (V_Author a) = Ok a"
| "decode_author _ = decode_error"

fun decode_private_key :: "stored_value \<Rightarrow> (storage_error, private_key) outcome" where
  "decode_private_key (V_PrivateKey k) = Ok k"
| "decode_private_key _ = decode_error"

text \<open>
  With the cache disabled, \<open>safety_data\<close> reads at the type \<open>Result<SafetyData, Error>\<close>: the operator
  \<open>?\<close> is applied to the storage result, so the function's own result type is what is decoded.  No
  stored value has that type.
\<close>

definition decode_safety_data_result ::
    "stored_value \<Rightarrow> (storage_error, (sr_error, safety_data) outcome) outcome" where
  "decode_safety_data_result v = decode_error"

definition pss_new :: "'s \<Rightarrow> bool \<Rightarrow> 's persistent_safety_storage" where
  "pss_new store enable =
     \<lparr>enable_cached_safety_data = enable, cached_safety_data = None, internal_store = store\<rparr>"

definition get_value :: "'s kv_ops \<Rightarrow> 's \<Rightarrow> string \<Rightarrow> (storage_error, stored_value) outcome" where
  "get_value ops s key = and_then (kv_get ops s key) (\<lambda>r. Ok (gr_value r))"

definition pss_author :: "'s kv_ops \<Rightarrow> 's persistent_safety_storage \<Rightarrow> (sr_error, author) outcome" where
  "pss_author ops p =
     lift_storage (and_then (get_value ops (internal_store p) owner_account) decode_author)"

definition consensus_key_for_version ::
    "'z crypto_scheme \<Rightarrow> 's kv_ops \<Rightarrow> 's persistent_safety_storage \<Rightarrow> public_key \<Rightarrow>
     (sr_error, private_key) outcome" where
  "consensus_key_for_version cr ops p version =
     and_then (lift_storage
       (and_then (get_value ops (internal_store p) consensus_key) decode_private_key)) (\<lambda>key.
     if public_key_of cr key \<noteq> version then Err (SecureStorageMissingDataError (Key_Missing version))
     else Ok key)"

definition pss_safety_data :: "'s kv_ops \<Rightarrow> ('s persistent_safety_storage, sr_error, safety_data) stateful" where
  "pss_safety_data ops p =
     (if \<not> enable_cached_safety_data p
      then (and_then (lift_storage
              (and_then (get_value ops (internal_store p) safety_data_key) decode_safety_data_result))
              (\<lambda>r. r), p)
      else (case cached_safety_data p of
              Some d \<Rightarrow> (Ok d, p)
            | None \<Rightarrow>
                (case lift_storage
                    (and_then (get_value ops (internal_store p) safety_data_key) decode_safety_data) of
                   Ok d \<Rightarrow> (Ok d, p\<lparr>cached_safety_data := Some d\<rparr>)
                 | Err e \<Rightarrow> (Err e, p)
                 | Panic \<Rightarrow> (Panic, p))))"

definition set_safety_data ::
    "'s kv_ops \<Rightarrow> safety_data \<Rightarrow> ('s persistent_safety_storage, sr_error, unit) stateful" where
  "set_safety_data ops d p =
     (case kv_set ops safety_data_key (V_SafetyData d) (internal_store p) of
        (Ok _, s) \<Rightarrow> (Ok (), p\<lparr>cached_safety_data := Some d, internal_store := s\<rparr>)
      | (Err e, s) \<Rightarrow>
          (Err (SecureStorageUnexpectedError e), p\<lparr>cached_safety_data := None, internal_store := s\<rparr>)
      | (Panic, s) \<Rightarrow> (Panic, p\<lparr>internal_store := s\<rparr>))"

definition pss_waypoint :: "'s kv_ops \<Rightarrow> 's persistent_safety_storage \<Rightarrow> (sr_error, waypoint) outcome" where
  "pss_waypoint ops p =
     lift_storage (and_then (get_value ops (internal_store p) waypoint_key) decode_waypoint)"

definition set_waypoint ::
    "'s kv_ops \<Rightarrow> waypoint \<Rightarrow> ('s persistent_safety_storage, sr_error, unit) stateful" where
  "set_waypoint ops w p =
     (case kv_set ops waypoint_key (V_Waypoint w) (internal_store p) of
        (r, s) \<Rightarrow> (lift_storage r, p\<lparr>internal_store := s\<rparr>))"

definition initialize_keys_and_accounts ::
    "'s kv_ops \<Rightarrow> author \<Rightarrow> private_key \<Rightarrow> ('s, sr_error, unit) stateful" where
  "initialize_keys_and_accounts ops a key s =
     (case kv_set ops consensus_key (V_PrivateKey key) s of
        (Err (KeyAlreadyExists k), s') \<Rightarrow> (Ok (), s')
      | (Panic, s') \<Rightarrow> (Panic, s')
      | (_, s') \<Rightarrow>
          (case kv_set ops owner_account (V_Author a) s' of (r, s'') \<Rightarrow> (lift_storage r, s'')))"

definition initial_safety_data :: safety_data where
  "initial_safety_data =
     \<lparr>sd_epoch = 1, sd_last_voted_round = 0, sd_preferred_round = 0, sd_one_chain_round = 0,
      sd_last_vote = None\<rparr>"

definition pss_initialize ::
    "'s kv_ops \<Rightarrow> 's \<Rightarrow> author \<Rightarrow> private_key \<Rightarrow> waypoint \<Rightarrow> bool \<Rightarrow>
     ('e, 's persistent_safety_storage) outcome" where
  "pss_initialize ops store a key w enable =
     (case initialize_keys_and_accounts ops a key store of
        (Ok _, s) \<Rightarrow>
          (case set_safety_data ops initial_safety_data
               \<lparr>enable_cached_safety_data = enable, cached_safety_data = Some initial_safety_data,
                internal_store = s\<rparr> of
             (Ok _, p) \<Rightarrow>
               (case set_waypoint ops w p of (Ok _, p') \<Rightarrow> Ok p' | _ \<Rightarrow> Panic)
           | _ \<Rightarrow> Panic)
      | _ \<Rightarrow> Panic)"

lemma from_storage_error_not_Ok [simp]: "from_storage_error e \<noteq> Ok a"
  by (cases e) simp_all

lemma lift_storage_eq_Ok [simp, outcome_simps]: "lift_storage m = Ok a \<longleftrightarrow> m = Ok a"
  by (simp add: lift_storage_def split: outcome.splits)

section \<open>The storage contract\<close>

text \<open>The safety data on disk, and the coherence of the cache with it.\<close>

definition persisted :: "'s kv_ops \<Rightarrow> 's persistent_safety_storage \<Rightarrow> safety_data option" where
  "persisted ops p =
     (case and_then (get_value ops (internal_store p) safety_data_key) decode_safety_data of
        Ok d \<Rightarrow> Some d | _ \<Rightarrow> None)"

definition coherent :: "'s kv_ops \<Rightarrow> 's persistent_safety_storage \<Rightarrow> bool" where
  "coherent ops p = (\<forall>d. cached_safety_data p = Some d \<longrightarrow> persisted ops p = Some d)"

locale kv_storage =
  fixes ops :: "'s kv_ops"
  assumes get_after_set: "kv_set ops k v s = (Ok u, s') \<Longrightarrow> get_value ops s' k = Ok v"
    and get_other: "kv_set ops k v s = (r, s') \<Longrightarrow> k' \<noteq> k \<Longrightarrow> get_value ops s' k' = get_value ops s k'"
    and failed_set: "kv_set ops k v s = (r, s') \<Longrightarrow> r \<noteq> Ok () \<Longrightarrow> get_value ops s' k = get_value ops s k"
begin

lemma safety_data_Ok:
  assumes "coherent ops p" "pss_safety_data ops p = (Ok d, p')"
  shows "persisted ops p = Some d \<and> persisted ops p' = Some d \<and> coherent ops p' \<and>
    internal_store p' = internal_store p"
  using assms
  by (auto simp: pss_safety_data_def coherent_def persisted_def decode_safety_data_result_def decode_error_def
      outcome_simps split: if_splits option.splits outcome.splits)

lemma safety_data_same:
  "coherent ops p \<Longrightarrow> persisted ops (snd (pss_safety_data ops p)) = persisted ops p \<and>
   coherent ops (snd (pss_safety_data ops p)) \<and>
   internal_store (snd (pss_safety_data ops p)) = internal_store p"
  by (auto simp: pss_safety_data_def coherent_def persisted_def
      split: if_splits option.splits outcome.splits)

lemma set_safety_data_Ok:
  assumes "set_safety_data ops d p = (Ok u, p')"
  shows "persisted ops p' = Some d \<and> coherent ops p'"
  using assms get_after_set
  by (auto simp: set_safety_data_def persisted_def coherent_def
      split: prod.splits outcome.splits)

lemma set_safety_data_failed:
  assumes "coherent ops p" "set_safety_data ops d p = (r, p')" "r \<noteq> Ok ()"
  shows "persisted ops p' = persisted ops p \<and> coherent ops p'"
  using assms failed_set [of safety_data_key "V_SafetyData d" "internal_store p"]
  by (auto simp: set_safety_data_def persisted_def coherent_def
      split: prod.splits outcome.splits)

lemma set_safety_data_other:
  assumes "set_safety_data ops d p = (r, p')" "k \<noteq> safety_data_key"
  shows "get_value ops (internal_store p') k = get_value ops (internal_store p) k"
  using assms get_other
  by (fastforce simp: set_safety_data_def split: prod.splits outcome.splits)

lemma set_waypoint_same:
  assumes "coherent ops p" "set_waypoint ops w p = (r, p')"
  shows "persisted ops p' = persisted ops p \<and> coherent ops p'"
  using assms get_other [of waypoint_key "V_Waypoint w" "internal_store p"]
  by (auto simp: set_waypoint_def persisted_def coherent_def waypoint_key_def safety_data_key_def
      split: prod.splits)

lemma set_waypoint_Ok:
  assumes "set_waypoint ops w p = (Ok u, p')"
  shows "pss_waypoint ops p' = Ok w"
  using assms get_after_set [of waypoint_key "V_Waypoint w" "internal_store p"]
  by (auto simp: set_waypoint_def pss_waypoint_def split: prod.splits)

lemma namespaced_kv_storage: "kv_storage (namespaced_ops ns ops)"
proof
  have g: "get_value (namespaced_ops ns ops) s k = get_value ops s (namespaced ns k)" for s k
    by (simp add: get_value_def namespaced_ops_def)
  have s: "kv_set (namespaced_ops ns ops) k = kv_set ops (namespaced ns k)" for k
    by (simp add: namespaced_ops_def)
  have inj: "namespaced ns k' \<noteq> namespaced ns k" if "k' \<noteq> k" for k k'
    using that by (simp add: namespaced_def)
  fix k v s u s' r k'
  show "kv_set (namespaced_ops ns ops) k v s = (Ok u, s') \<Longrightarrow>
      get_value (namespaced_ops ns ops) s' k = Ok v"
    using get_after_set by (simp add: g s)
  show "kv_set (namespaced_ops ns ops) k v s = (r, s') \<Longrightarrow> k' \<noteq> k \<Longrightarrow>
      get_value (namespaced_ops ns ops) s' k' = get_value (namespaced_ops ns ops) s k'"
    using get_other inj by (simp add: g s)
  show "kv_set (namespaced_ops ns ops) k v s = (r, s') \<Longrightarrow> r \<noteq> Ok () \<Longrightarrow>
      get_value (namespaced_ops ns ops) s' k = get_value (namespaced_ops ns ops) s k"
    using failed_set by (simp add: g s)
qed

end

interpretation ims: kv_storage in_memory_ops
  by unfold_locales
    (auto simp: in_memory_ops_def in_memory_set_def in_memory_get_def get_value_def ok_or_def)

interpretation nss: kv_storage "namespaced_ops ns in_memory_ops" for ns
  by (rule ims.namespaced_kv_storage)

end
