(* ===== verification/Safety_Rules.thy ===== *)
theory Safety_Rules
  imports Safety_Storage
begin

text \<open>
  The safety rules of \<open>src/consensus/safety-rules/src\<close> (\<open>safety_rules.rs\<close>, \<open>safety_rules_2chain.rs\<close>):
  the component that decides whether a validator may sign a proposal, a vote, a timeout or a commit
  vote, and that persists what it needs to stay safe across restarts.

  Each guarded method is a function on the component's state and returns its result with the new
  state, early returns included.  The parameter \<open>cr\<close> is the cryptography, \<open>ops\<close> the storage backend,
  \<open>now\<close> the wall clock.  Logging and metrics are left out, except that \<open>guarded_consensus_state\<close>
  reads the author only when the log line is emitted, which is the argument \<open>info_enabled\<close>.
\<close>

section \<open>State\<close>

record 's safety_rules =
  persistent_storage :: "'s persistent_safety_storage"
  validator_signer :: "validator_signer option"
  sr_epoch_state :: "epoch_state option"

record consensus_state =
  cs_safety_data :: safety_data
  cs_waypoint :: waypoint
  cs_in_validator_set :: bool

definition safety_rules_new :: "'s persistent_safety_storage \<Rightarrow> 's safety_rules" where
  "safety_rules_new p = \<lparr>persistent_storage = p, validator_signer = None, sr_epoch_state = None\<rparr>"

text \<open>A storage method called on the field \<open>persistent_storage\<close>.\<close>

definition on_storage ::
    "('s persistent_safety_storage, 'e, 'a) stateful \<Rightarrow> ('s safety_rules, 'e, 'a) stateful" where
  "on_storage m sr =
     (case m (persistent_storage sr) of (r, p) \<Rightarrow> (r, sr\<lparr>persistent_storage := p\<rparr>))"

section \<open>Checks\<close>

definition signer :: "'s safety_rules \<Rightarrow> (sr_error, validator_signer) outcome" where
  "signer sr = ok_or (validator_signer sr) (NotInitialized ''validator_signer'')"

definition epoch_state_of :: "'s safety_rules \<Rightarrow> (sr_error, epoch_state) outcome" where
  "epoch_state_of sr = ok_or (sr_epoch_state sr) (NotInitialized ''epoch_state'')"

definition sr_sign :: "(private_key \<Rightarrow> 'm \<Rightarrow> signature) \<Rightarrow> 's safety_rules \<Rightarrow> 'm \<Rightarrow> (sr_error, signature) outcome" where
  "sr_sign sign_m sr m = and_then (signer sr) (\<lambda>s. Ok (sign_m (vs_private_key s) m))"

definition next_round :: "round \<Rightarrow> (sr_error, round) outcome" where
  "next_round r = ok_or (checked_add r 1) (IncorrectRound r)"

definition verify_epoch :: "u64 \<Rightarrow> safety_data \<Rightarrow> (sr_error, unit) outcome" where
  "verify_epoch e d = (if e \<noteq> sd_epoch d then Err (IncorrectEpoch e (sd_epoch d)) else Ok ())"

definition verify_author :: "'s safety_rules \<Rightarrow> author option \<Rightarrow> (sr_error, unit) outcome" where
  "verify_author sr author_opt =
     and_then (signer sr) (\<lambda>s.
     and_then (ok_or author_opt (InvalidProposal (Msg ''No author found in the proposal''))) (\<lambda>a.
     if vs_author s \<noteq> a then Err (InvalidProposal (Msg ''Proposal author is not validator signer!''))
     else Ok ()))"

definition verify_qc :: "'z crypto_scheme \<Rightarrow> 's safety_rules \<Rightarrow> quorum_cert \<Rightarrow> (sr_error, unit) outcome" where
  "verify_qc cr sr qc =
     and_then (epoch_state_of sr) (\<lambda>es. map_err InvalidQuorumCertificate (qc_verify cr qc (es_verifier es)))"

definition verify_tc ::
    "'z crypto_scheme \<Rightarrow> 's safety_rules \<Rightarrow> two_chain_timeout_certificate \<Rightarrow> (sr_error, unit) outcome" where
  "verify_tc cr sr tc =
     and_then (epoch_state_of sr) (\<lambda>es. map_err InvalidTimeoutCertificate (tc_verify cr tc (es_verifier es)))"

definition observe_qc :: "quorum_cert \<Rightarrow> safety_data \<Rightarrow> bool \<times> safety_data" where
  "observe_qc qc d =
     (let one_chain = bi_round (certified_block qc); two_chain = bi_round (parent_block qc);
          u1 = (one_chain > sd_one_chain_round d);
          d1 = (if u1 then d\<lparr>sd_one_chain_round := one_chain\<rparr> else d);
          u2 = (two_chain > sd_preferred_round d1);
          d2 = (if u2 then d1\<lparr>sd_preferred_round := two_chain\<rparr> else d1)
      in (u1 \<or> u2, d2))"

definition verify_and_update_preferred_round ::
    "quorum_cert \<Rightarrow> safety_data \<Rightarrow> (sr_error, bool \<times> safety_data) outcome" where
  "verify_and_update_preferred_round qc d =
     (if bi_round (certified_block qc) < sd_preferred_round d
      then Err (IncorrectPreferredRound (bi_round (certified_block qc)) (sd_preferred_round d))
      else Ok (observe_qc qc d))"

definition verify_and_update_last_vote_round :: "round \<Rightarrow> safety_data \<Rightarrow> (sr_error, safety_data) outcome" where
  "verify_and_update_last_vote_round r d =
     (if r \<le> sd_last_voted_round d then Err (IncorrectLastVotedRound r (sd_last_voted_round d))
      else Ok (d\<lparr>sd_last_voted_round := r\<rparr>))"

definition safe_to_timeout ::
    "two_chain_timeout \<Rightarrow> two_chain_timeout_certificate option \<Rightarrow> safety_data \<Rightarrow> (sr_error, unit) outcome" where
  "safe_to_timeout t maybe_tc d =
     (let r = tct_round t; qc_round = hqc_round t;
          tc_r = (case maybe_tc of None \<Rightarrow> 0 | Some tc \<Rightarrow> tc_round tc)
      in
      and_then (next_round qc_round) (\<lambda>next_qc.
      and_then (if r = next_qc then Ok True else and_then (next_round tc_r) (\<lambda>next_tc. Ok (r = next_tc)))
        (\<lambda>consecutive.
      if consecutive \<and> qc_round \<ge> sd_one_chain_round d then Ok ()
      else Err (NotSafeToTimeout r qc_round tc_r (sd_one_chain_round d)))))"

definition safe_to_vote ::
    "block \<Rightarrow> two_chain_timeout_certificate option \<Rightarrow> (sr_error, unit) outcome" where
  "safe_to_vote b maybe_tc =
     (let r = blk_round b; qc_round = bi_round (certified_block (blk_quorum_cert b));
          tc_r = (case maybe_tc of None \<Rightarrow> 0 | Some tc \<Rightarrow> tc_round tc);
          hqc_r = (case maybe_tc of None \<Rightarrow> 0 | Some tc \<Rightarrow> highest_hqc_round tc)
      in
      and_then (next_round qc_round) (\<lambda>next_qc.
      and_then
        (if r = next_qc then Ok True
         else and_then (next_round tc_r) (\<lambda>next_tc. Ok (r = next_tc \<and> qc_round \<ge> hqc_r))) (\<lambda>safe.
      if safe then Ok () else Err (NotSafeToVote r qc_round tc_r hqc_r))))"

definition construct_ledger_info_2chain :: "block \<Rightarrow> hash_value \<Rightarrow> (sr_error, ledger_info) outcome" where
  "construct_ledger_info_2chain b data_hash =
     (let block1 = blk_round b; block0 = bi_round (certified_block (blk_quorum_cert b))
      in and_then (next_round block0) (\<lambda>next0.
         Ok \<lparr>commit_info = (if next0 = block1 then certified_block (blk_quorum_cert b) else block_info_empty),
             consensus_data_hash = data_hash\<rparr>))"

section \<open>The guarded methods\<close>

definition verify_proposal ::
    "'z crypto_scheme \<Rightarrow> 's kv_ops \<Rightarrow> u64 \<Rightarrow> vote_proposal \<Rightarrow> ('s safety_rules, sr_error, vote_data) stateful" where
  "verify_proposal cr ops now vp =
     sbind (on_storage (pss_safety_data ops)) (\<lambda>d.
     sbind (slift (verify_epoch (blk_epoch (vp_block vp)) d)) (\<lambda>_.
     sread (\<lambda>sr.
       and_then (verify_qc cr sr (blk_quorum_cert (vp_block vp))) (\<lambda>_.
       and_then (epoch_state_of sr) (\<lambda>es.
       and_then (map_err InvalidProposal (validate_signature cr (vp_block vp) (es_verifier es))) (\<lambda>_.
       and_then (map_err InvalidProposal (verify_well_formed now (vp_block vp))) (\<lambda>_.
       map_err InvalidAccumulatorExtension (gen_vote_data cr vp))))))))"

definition verify_maybe_tc ::
    "'z crypto_scheme \<Rightarrow> 's safety_rules \<Rightarrow> two_chain_timeout_certificate option \<Rightarrow> (sr_error, unit) outcome" where
  "verify_maybe_tc cr sr maybe_tc = (case maybe_tc of None \<Rightarrow> Ok () | Some tc \<Rightarrow> verify_tc cr sr tc)"

definition guarded_sign_timeout_with_qc ::
    "'z crypto_scheme \<Rightarrow> 's kv_ops \<Rightarrow> two_chain_timeout \<Rightarrow> two_chain_timeout_certificate option \<Rightarrow>
     ('s safety_rules, sr_error, signature) stateful" where
  "guarded_sign_timeout_with_qc cr ops t maybe_tc =
     sbind (sread signer) (\<lambda>_.
     sbind (on_storage (pss_safety_data ops)) (\<lambda>d.
     sbind (sread (\<lambda>sr.
       and_then (verify_epoch (tct_epoch t) d) (\<lambda>_.
       and_then (epoch_state_of sr) (\<lambda>es.
       and_then (map_err InvalidTimeout (timeout_verify cr t (es_verifier es))) (\<lambda>_.
       and_then (verify_maybe_tc cr sr maybe_tc) (\<lambda>_.
       and_then (safe_to_timeout t maybe_tc d) (\<lambda>_.
       if tct_round t < sd_last_voted_round d
       then Err (IncorrectLastVotedRound (tct_round t) (sd_last_voted_round d)) else Ok ()))))))) (\<lambda>_.
     sbind (if tct_round t > sd_last_voted_round d
            then sbind (slift (verify_and_update_last_vote_round (tct_round t) d)) (\<lambda>d'.
                 on_storage (set_safety_data ops d'))
            else slift (Ok ())) (\<lambda>_.
     sread (\<lambda>sr. sr_sign (sign_timeout cr) sr (signing_format t))))))"

definition sign_new_vote ::
    "'z crypto_scheme \<Rightarrow> 's kv_ops \<Rightarrow> vote_proposal \<Rightarrow> two_chain_timeout_certificate option \<Rightarrow> vote_data \<Rightarrow>
     safety_data \<Rightarrow> ('s safety_rules, sr_error, vote) stateful" where
  "sign_new_vote cr ops vp maybe_tc vd d =
     sbind (slift (verify_and_update_last_vote_round (blk_round (vp_block vp)) d)) (\<lambda>d1.
     sbind (slift (safe_to_vote (vp_block vp) maybe_tc)) (\<lambda>_.
     let d2 = snd (observe_qc (blk_quorum_cert (vp_block vp)) d1) in
     sbind (sread signer) (\<lambda>s.
     sbind (slift (construct_ledger_info_2chain (vp_block vp) (hash_vote_data cr vd))) (\<lambda>li.
     sbind (sread (\<lambda>sr. sr_sign (sign_ledger_info cr) sr li)) (\<lambda>sig.
     let vt = vote_new_with_signature vd (vs_author s) li sig in
     sbind (on_storage (set_safety_data ops (d2\<lparr>sd_last_vote := Some vt\<rparr>))) (\<lambda>_.
     slift (Ok vt)))))))"

definition guarded_construct_and_sign_vote_two_chain ::
    "'z crypto_scheme \<Rightarrow> 's kv_ops \<Rightarrow> u64 \<Rightarrow> vote_proposal \<Rightarrow> two_chain_timeout_certificate option \<Rightarrow>
     ('s safety_rules, sr_error, vote) stateful" where
  "guarded_construct_and_sign_vote_two_chain cr ops now vp maybe_tc =
     sbind (sread signer) (\<lambda>_.
     sbind (verify_proposal cr ops now vp) (\<lambda>vd.
     sbind (sread (\<lambda>sr. verify_maybe_tc cr sr maybe_tc)) (\<lambda>_.
     sbind (on_storage (pss_safety_data ops)) (\<lambda>d.
     (case sd_last_vote d of
        Some vt \<Rightarrow>
          if bi_round (vote_proposed vt) = blk_round (vp_block vp) then slift (Ok vt)
          else sign_new_vote cr ops vp maybe_tc vd d
      | None \<Rightarrow> sign_new_vote cr ops vp maybe_tc vd d)))))"

definition guarded_sign_proposal ::
    "'z crypto_scheme \<Rightarrow> 's kv_ops \<Rightarrow> block_data \<Rightarrow> ('s safety_rules, sr_error, signature) stateful" where
  "guarded_sign_proposal cr ops bd =
     sbind (sread signer) (\<lambda>_.
     sbind (sread (\<lambda>sr. verify_author sr (bd_author bd))) (\<lambda>_.
     sbind (on_storage (pss_safety_data ops)) (\<lambda>d.
     sbind (slift (verify_epoch (bd_epoch bd) d)) (\<lambda>_.
     sbind (slift (if bd_round bd \<le> sd_last_voted_round d
                   then Err (InvalidProposal (Msg ''Proposed round is not higher than last voted round''))
                   else Ok ())) (\<lambda>_.
     sbind (sread (\<lambda>sr. verify_qc cr sr (bd_quorum_cert bd))) (\<lambda>_.
     sbind (slift (verify_and_update_preferred_round (bd_quorum_cert bd) d)) (\<lambda>_.
     sread (\<lambda>sr. sr_sign (sign_block_data cr) sr bd))))))))"

definition guarded_sign_commit_vote ::
    "'z crypto_scheme \<Rightarrow> ledger_info_with_signatures \<Rightarrow> ledger_info \<Rightarrow>
     ('s safety_rules, sr_error, signature) stateful" where
  "guarded_sign_commit_vote cr lis new_li =
     sread (\<lambda>sr.
       let old_li = lis_ledger_info lis in
       and_then (signer sr) (\<lambda>_.
       if \<not> is_ordered_only (commit_info old_li) then Err (InvalidOrderedLedgerInfo old_li)
       else if \<not> match_ordered_only (commit_info old_li) (commit_info new_li)
       then Err (InconsistentExecutionResult (commit_info old_li) (commit_info new_li))
       else
         and_then (epoch_state_of sr) (\<lambda>es.
         and_then (map_err (InvalidQuorumCertificate \<circ> Verify_Error)
           (lis_verify_signatures cr lis (es_verifier es))) (\<lambda>_.
         sr_sign (sign_ledger_info cr) sr new_li))))"

definition guarded_consensus_state ::
    "'s kv_ops \<Rightarrow> bool \<Rightarrow> ('s safety_rules, sr_error, consensus_state) stateful" where
  "guarded_consensus_state ops info_enabled =
     sbind (on_storage (sread (pss_waypoint ops))) (\<lambda>_.
     sbind (on_storage (pss_safety_data ops)) (\<lambda>_.
     sbind (if info_enabled
            then on_storage (sread (\<lambda>p. and_then (pss_author ops p) (\<lambda>_. Ok ())))
            else slift (Ok ())) (\<lambda>_.
     sbind (on_storage (pss_safety_data ops)) (\<lambda>d.
     sbind (on_storage (sread (pss_waypoint ops))) (\<lambda>w.
     sread (\<lambda>sr. Ok \<lparr>cs_safety_data = d, cs_waypoint = w, cs_in_validator_set = is_ok (signer sr)\<rparr>))))))"

text \<open>
  The last part of \<open>guarded_initialize\<close>: the signer is kept when it has the key of the new epoch,
  loaded from storage otherwise, and dropped on any failure.
\<close>

definition reconcile_key ::
    "'z crypto_scheme \<Rightarrow> 's kv_ops \<Rightarrow> epoch_state \<Rightarrow> author \<Rightarrow> ('s safety_rules, sr_error, unit) stateful" where
  "reconcile_key cr ops es a sr =
     (let result =
        (case get_public_key (es_verifier es) a of
           None \<Rightarrow> Err (ValidatorNotInSet a)
         | Some expected_key \<Rightarrow>
             if map_option (\<lambda>s. public_key_of cr (vs_private_key s)) (validator_signer sr) = Some expected_key
             then Ok (validator_signer sr)
             else (case consensus_key_for_version cr ops (persistent_storage sr) expected_key of
                     Ok key \<Rightarrow> Ok (Some \<lparr>vs_author = a, vs_private_key = key\<rparr>)
                   | Err (SecureStorageMissingDataError e) \<Rightarrow> Err (ValidatorKeyNotFound e)
                   | Err e \<Rightarrow> Err e
                   | Panic \<Rightarrow> Panic))
      in (case result of
            Ok s \<Rightarrow> (Ok (), sr\<lparr>validator_signer := s\<rparr>)
          | Err e \<Rightarrow> (Err e, sr\<lparr>validator_signer := None\<rparr>)
          | Panic \<Rightarrow> (Panic, sr)))"

definition fresh_safety_data :: "u64 \<Rightarrow> safety_data" where
  "fresh_safety_data epoch =
     \<lparr>sd_epoch = epoch, sd_last_voted_round = 0, sd_preferred_round = 0, sd_one_chain_round = 0,
      sd_last_vote = None\<rparr>"

definition guarded_initialize ::
    "'z crypto_scheme \<Rightarrow> 's kv_ops \<Rightarrow> epoch_change_proof \<Rightarrow> ('s safety_rules, sr_error, unit) stateful" where
  "guarded_initialize cr ops proof =
     sbind (on_storage (sread (pss_waypoint ops))) (\<lambda>w.
     sbind (slift
       (and_then (map_err InvalidEpochChangeProof
          (epoch_change_proof_verify cr proof (waypoint_verifier cr w))) (\<lambda>last_li.
        and_then (ok_or (li_next_epoch_state (lis_ledger_info last_li)) InvalidLedgerInfo) (\<lambda>es.
        and_then (map_err Sr_InternalError (waypoint_new_epoch_boundary cr (lis_ledger_info last_li))) (\<lambda>new_w.
        Ok (es, new_w)))))) (\<lambda>(es, new_w).
     sbind (if wp_version new_w > wp_version w then on_storage (set_waypoint ops new_w) else slift (Ok ())) (\<lambda>_.
     sbind (on_storage (pss_safety_data ops)) (\<lambda>d.
     sbind (if sd_epoch d > es_epoch es
            then slift (Err (WaypointOutOfDate (wp_version w) (wp_version new_w) (sd_epoch d) (es_epoch es)))
            else if sd_epoch d < es_epoch es
            then on_storage (set_safety_data ops (fresh_safety_data (es_epoch es)))
            else slift (Ok ())) (\<lambda>_.
     sbind (\<lambda>sr. (Ok (), sr\<lparr>sr_epoch_state := Some es\<rparr>)) (\<lambda>_.
     sbind (on_storage (sread (pss_author ops))) (\<lambda>a.
     reconcile_key cr ops es a)))))))"

section \<open>What each method does to the persisted safety data\<close>

definition disk :: "'s kv_ops \<Rightarrow> 's safety_rules \<Rightarrow> safety_data option" where
  "disk ops sr = persisted ops (persistent_storage sr)"

definition rules_coherent :: "'s kv_ops \<Rightarrow> 's safety_rules \<Rightarrow> bool" where
  "rules_coherent ops sr = coherent ops (persistent_storage sr)"

text \<open>The states that a method may reach from \<open>sr\<close> without having written anything.\<close>

definition unwritten :: "'s kv_ops \<Rightarrow> 's safety_rules \<Rightarrow> 's safety_rules \<Rightarrow> bool" where
  "unwritten ops sr sr' =
     (rules_coherent ops sr' \<and> disk ops sr' = disk ops sr \<and> sr_epoch_state sr' = sr_epoch_state sr \<and>
      validator_signer sr' = validator_signer sr)"

lemma unwritten_refl: "rules_coherent ops sr \<Longrightarrow> unwritten ops sr sr"
  by (simp add: unwritten_def)

lemma on_storage_eq [outcome_simps]:
  "on_storage m sr = (r, sr') \<longleftrightarrow>
     (\<exists>p. m (persistent_storage sr) = (r, p) \<and> sr' = sr\<lparr>persistent_storage := p\<rparr>)"
  by (auto simp: on_storage_def split: prod.splits)

lemma signer_eq_Ok [outcome_simps, simp]: "signer sr = Ok s \<longleftrightarrow> validator_signer sr = Some s"
  by (simp add: signer_def)

lemma epoch_state_of_eq_Ok [outcome_simps, simp]: "epoch_state_of sr = Ok es \<longleftrightarrow> sr_epoch_state sr = Some es"
  by (simp add: epoch_state_of_def)

lemma verify_epoch_eq_Ok [outcome_simps, simp]: "verify_epoch e d = Ok u \<longleftrightarrow> e = sd_epoch d"
  by (simp add: verify_epoch_def)

lemma next_round_eq_Ok [outcome_simps]: "next_round r = Ok r' \<longleftrightarrow> unat r' = Suc (unat r)"
  by (simp add: next_round_def checked_add_one)

lemma verify_and_update_last_vote_round_eq_Ok [outcome_simps]:
  "verify_and_update_last_vote_round r d = Ok d' \<longleftrightarrow>
     sd_last_voted_round d < r \<and> d' = d\<lparr>sd_last_voted_round := r\<rparr>"
  by (auto simp: verify_and_update_last_vote_round_def)

lemma verify_qc_eq_Ok [outcome_simps]:
  "verify_qc cr sr qc = Ok u \<longleftrightarrow>
     (\<exists>es. sr_epoch_state sr = Some es \<and> qc_verify cr qc (es_verifier es) = Ok ())"
  by (simp add: verify_qc_def outcome_simps)

lemma verify_maybe_tc_eq_Ok [outcome_simps]:
  "verify_maybe_tc cr sr maybe_tc = Ok u \<longleftrightarrow>
     (\<forall>tc. maybe_tc = Some tc \<longrightarrow>
        (\<exists>es. sr_epoch_state sr = Some es \<and> tc_verify cr tc (es_verifier es) = Ok ()))"
  by (auto simp: verify_maybe_tc_def verify_tc_def outcome_simps split: option.splits)

lemma sr_sign_signer:
  "validator_signer sr = Some sg \<Longrightarrow> sr_sign f sr m = Ok (f (vs_private_key sg) m)"
  by (simp add: sr_sign_def signer_def)

lemma safe_to_vote_Ok:
  "safe_to_vote b maybe_tc = Ok u \<Longrightarrow>
     unat (blk_round b) = Suc (unat (bi_round (certified_block (blk_quorum_cert b)))) \<or>
     (\<exists>tc. maybe_tc = Some tc \<and> unat (blk_round b) = Suc (unat (tc_round tc)) \<and>
        highest_hqc_round tc \<le> bi_round (certified_block (blk_quorum_cert b))) \<or>
     (maybe_tc = None \<and> blk_round b = 1)"
  by (auto simp: safe_to_vote_def Let_def outcome_simps word_unat_eq_iff split: if_splits option.splits)

lemma safe_to_timeout_Ok:
  "safe_to_timeout t maybe_tc d = Ok u \<Longrightarrow> sd_one_chain_round d \<le> hqc_round t"
  by (auto simp: safe_to_timeout_def Let_def outcome_simps split: if_splits)

lemma observe_qc_simps:
  "sd_epoch (snd (observe_qc qc d)) = sd_epoch d"
  "sd_last_voted_round (snd (observe_qc qc d)) = sd_last_voted_round d"
  "sd_last_vote (snd (observe_qc qc d)) = sd_last_vote d"
  "sd_one_chain_round (snd (observe_qc qc d)) = max (sd_one_chain_round d) (bi_round (certified_block qc))"
  "sd_preferred_round (snd (observe_qc qc d)) = max (sd_preferred_round d) (bi_round (parent_block qc))"
  by (auto simp: observe_qc_def Let_def max_def)

lemma construct_ledger_info_2chain_eq_Ok:
  "construct_ledger_info_2chain b h = Ok li \<Longrightarrow>
     consensus_data_hash li = h \<and>
     commit_info li =
       (if unat (blk_round b) = Suc (unat (bi_round (certified_block (blk_quorum_cert b))))
        then certified_block (blk_quorum_cert b) else block_info_empty)"
  by (auto simp: construct_ledger_info_2chain_def Let_def outcome_simps word_unat_eq_iff split: if_splits)

text \<open>
  What a fresh vote stands for: the block's parent is certified for the epoch, and the block directly
  follows it or a timeout certificate whose highest quorum certificate is not above the parent.
\<close>

definition vote_follows_rules ::
    "'z crypto_scheme \<Rightarrow> epoch_state \<Rightarrow> block \<Rightarrow> two_chain_timeout_certificate option \<Rightarrow> vote \<Rightarrow> bool" where
  "vote_follows_rules cr es b maybe_tc vt =
     (let vd = vote_vote_data vt; qc = blk_quorum_cert b in
      vd_parent vd = certified_block qc \<and>
      bi_epoch (vd_proposed vd) = blk_epoch b \<and> bi_round (vd_proposed vd) = blk_round b \<and>
      bi_id (vd_proposed vd) = blk_id b \<and>
      qc_verify cr qc (es_verifier es) = Ok () \<and>
      bi_round (vd_parent vd) < bi_round (vd_proposed vd) \<and>
      bi_epoch (vd_parent vd) = bi_epoch (vd_proposed vd) \<and>
      (unat (bi_round (vd_proposed vd)) = Suc (unat (bi_round (vd_parent vd))) \<or>
       (\<exists>tc. maybe_tc = Some tc \<and> tc_verify cr tc (es_verifier es) = Ok () \<and>
          unat (bi_round (vd_proposed vd)) = Suc (unat (tc_round tc)) \<and>
          highest_hqc_round tc \<le> bi_round (vd_parent vd))) \<and>
      consensus_data_hash (vote_ledger_info vt) = hash_vote_data cr vd \<and>
      commit_info (vote_ledger_info vt) =
        (if unat (bi_round (vd_proposed vd)) = Suc (unat (bi_round (vd_parent vd)))
         then vd_parent vd else block_info_empty))"

context kv_storage
begin

lemma on_storage_safety_data:
  assumes "rules_coherent ops sr" "on_storage (pss_safety_data ops) sr = (r, sr')"
  shows "unwritten ops sr sr'" and "r = Ok d \<Longrightarrow> disk ops sr = Some d"
proof -
  obtain p where p: "pss_safety_data ops (persistent_storage sr) = (r, p)"
      and sr': "sr' = sr\<lparr>persistent_storage := p\<rparr>"
    using assms(2) by (auto simp: on_storage_eq)
  have c: "coherent ops (persistent_storage sr)" using assms(1) by (simp add: rules_coherent_def)
  show "unwritten ops sr sr'"
    using safety_data_same [OF c] p sr' by (simp add: unwritten_def rules_coherent_def disk_def)
  show "disk ops sr = Some d" if "r = Ok d"
    using safety_data_Ok [OF c] p that by (simp add: disk_def)
qed

lemma on_storage_set_safety_data:
  assumes "rules_coherent ops sr" "on_storage (set_safety_data ops d) sr = (r, sr')"
  shows "r = Ok () \<and> rules_coherent ops sr' \<and> disk ops sr' = Some d \<and>
      sr_epoch_state sr' = sr_epoch_state sr \<and> validator_signer sr' = validator_signer sr \<or>
    r \<noteq> Ok () \<and> unwritten ops sr sr'"
  using assms set_safety_data_Ok set_safety_data_failed
  by (fastforce simp: on_storage_eq unwritten_def rules_coherent_def disk_def)

lemma unwritten_trans: "unwritten ops s0 s1 \<Longrightarrow> unwritten ops s1 s2 \<Longrightarrow> unwritten ops s0 s2"
  by (simp add: unwritten_def)

lemma on_storage_set_safety_data_failed:
  assumes "rules_coherent ops sr" "\<And>s. on_storage (set_safety_data ops d) sr \<noteq> (Ok (), s)"
  shows "unwritten ops sr (snd (on_storage (set_safety_data ops d) sr))"
  using on_storage_set_safety_data [OF assms(1)] assms(2) by (metis prod.collapse)

lemma unwritten_coherent: "unwritten ops s0 s1 \<Longrightarrow> rules_coherent ops s1"
  by (simp add: unwritten_def)

lemma unwritten_sbind:
  assumes "\<And>s. unwritten ops s0 s \<Longrightarrow> unwritten ops s0 (snd (m s))"
    and "\<And>a s. unwritten ops s0 s \<Longrightarrow> unwritten ops s0 (snd (f a s))"
    and "unwritten ops s0 s"
  shows "unwritten ops s0 (snd (sbind m f s))"
  by (rule sbind_preserves [where P = "unwritten ops s0"]) (use assms in blast)+

lemma unwritten_safety_data:
  "unwritten ops s0 s \<Longrightarrow> unwritten ops s0 (snd (on_storage (pss_safety_data ops) s))"
  by (metis on_storage_safety_data(1) prod.collapse unwritten_coherent unwritten_trans)

lemmas unwritten_intros = unwritten_sbind unwritten_safety_data

lemma unwritten_verify_proposal:
  "unwritten ops s0 s \<Longrightarrow> unwritten ops s0 (snd (verify_proposal cr ops now vp s))"
  unfolding verify_proposal_def by (intro unwritten_intros) simp_all

lemma unwritten_sign_proposal:
  "unwritten ops s0 s \<Longrightarrow> unwritten ops s0 (snd (guarded_sign_proposal cr ops bd s))"
  unfolding guarded_sign_proposal_def by (intro unwritten_intros) simp_all

lemma unwritten_sign_commit_vote:
  "unwritten ops s0 s \<Longrightarrow> unwritten ops s0 (snd (guarded_sign_commit_vote cr lis new_li s))"
  by (simp add: guarded_sign_commit_vote_def)

lemma unwritten_on_storage_sread:
  "unwritten ops s0 s \<Longrightarrow> unwritten ops s0 (snd (on_storage (sread g) s))"
  by (simp add: on_storage_def sread_def unwritten_def rules_coherent_def disk_def)

lemma unwritten_consensus_state:
  "unwritten ops s0 s \<Longrightarrow> unwritten ops s0 (snd (guarded_consensus_state ops info_enabled s))"
  unfolding guarded_consensus_state_def
  by (cases info_enabled) (simp_all, (intro unwritten_intros unwritten_on_storage_sread; simp?)+)

lemma verify_proposal_Ok:
  assumes "rules_coherent ops sr" "verify_proposal cr ops now vp sr = (Ok vd, sr')"
  shows "\<exists>d es. disk ops sr = Some d \<and> sr_epoch_state sr = Some es \<and> unwritten ops sr sr' \<and>
    blk_epoch (vp_block vp) = sd_epoch d \<and>
    qc_verify cr (blk_quorum_cert (vp_block vp)) (es_verifier es) = Ok () \<and>
    validate_signature cr (vp_block vp) (es_verifier es) = Ok () \<and>
    verify_well_formed now (vp_block vp) = Ok () \<and>
    gen_vote_data cr vp = Ok vd"
proof -
  have "unwritten ops sr sr'"
    using unwritten_verify_proposal [OF unwritten_refl [OF assms(1)], of cr now vp] assms(2) by simp
  moreover obtain d s1 where d: "on_storage (pss_safety_data ops) sr = (Ok d, s1)"
      and rest: "sbind (slift (verify_epoch (blk_epoch (vp_block vp)) d)) (\<lambda>_.
        sread (\<lambda>sr.
          and_then (verify_qc cr sr (blk_quorum_cert (vp_block vp))) (\<lambda>_.
          and_then (epoch_state_of sr) (\<lambda>es.
          and_then (map_err InvalidProposal (validate_signature cr (vp_block vp) (es_verifier es))) (\<lambda>_.
          and_then (map_err InvalidProposal (verify_well_formed now (vp_block vp))) (\<lambda>_.
          map_err InvalidAccumulatorExtension (gen_vote_data cr vp))))))) s1 = (Ok vd, sr')"
    using assms(2) unfolding verify_proposal_def sbind_eq_Ok by blast
  moreover have "disk ops sr = Some d" "sr_epoch_state s1 = sr_epoch_state sr"
    using on_storage_safety_data [OF assms(1) d] by (simp_all add: unwritten_def)
  ultimately show ?thesis
    by (auto simp: outcome_simps)
qed

lemma sign_new_vote_cases:
  assumes c: "rules_coherent ops sr" and run: "sign_new_vote cr ops vp maybe_tc vd d sr = (r, sr')"
  shows "(\<forall>vt. r \<noteq> Ok vt) \<and> unwritten ops sr sr' \<or>
    (\<exists>vt d'. r = Ok vt \<and> rules_coherent ops sr' \<and> disk ops sr' = Some d' \<and>
       sr_epoch_state sr' = sr_epoch_state sr \<and>
       sd_last_voted_round d < blk_round (vp_block vp) \<and>
       safe_to_vote (vp_block vp) maybe_tc = Ok () \<and>
       sd_epoch d' = sd_epoch d \<and> sd_last_voted_round d' = blk_round (vp_block vp) \<and>
       sd_one_chain_round d' =
         max (sd_one_chain_round d) (bi_round (certified_block (blk_quorum_cert (vp_block vp)))) \<and>
       sd_last_vote d' = Some vt \<and> vote_vote_data vt = vd \<and>
       construct_ledger_info_2chain (vp_block vp) (hash_vote_data cr vd) = Ok (vote_ledger_info vt))"
proof (cases "verify_and_update_last_vote_round (blk_round (vp_block vp)) d")
  case (Ok d1)
  note d1 = this
  show ?thesis
  proof (cases "safe_to_vote (vp_block vp) maybe_tc")
    case (Ok u)
    show ?thesis
    proof (cases "construct_ledger_info_2chain (vp_block vp) (hash_vote_data cr vd)")
      case (Ok li)
      show ?thesis
      proof (cases "validator_signer sr")
        case (Some sg)
        define vt where "vt = vote_new_with_signature vd (vs_author sg) li (sign_ledger_info cr (vs_private_key sg) li)"
        define d2 where "d2 = (snd (observe_qc (blk_quorum_cert (vp_block vp)) d1))\<lparr>sd_last_vote := Some vt\<rparr>"
        obtain r1 s1 where w: "on_storage (set_safety_data ops d2) sr = (r1, s1)" by fastforce
        have run': "(r, sr') = (case r1 of Ok _ \<Rightarrow> Ok vt | Err e \<Rightarrow> Err e | Panic \<Rightarrow> Panic, s1)"
          using run w d1 Ok \<open>safe_to_vote (vp_block vp) maybe_tc = Ok u\<close> Some
          by (cases r1) (simp_all add: sign_new_vote_def sbind_def slift_def sread_def signer_def sr_sign_def
              Let_def vt_def d2_def)
        have "d1 = d\<lparr>sd_last_voted_round := blk_round (vp_block vp)\<rparr>" "sd_last_voted_round d < blk_round (vp_block vp)"
          using d1 by (simp_all add: verify_and_update_last_vote_round_eq_Ok)
        then show ?thesis
          using on_storage_set_safety_data [OF c w] run' Ok \<open>safe_to_vote (vp_block vp) maybe_tc = Ok u\<close>
          by (auto simp: d2_def vt_def vote_new_with_signature_def observe_qc_simps split: outcome.splits)
      qed (use run d1 Ok \<open>safe_to_vote (vp_block vp) maybe_tc = Ok u\<close> c unwritten_refl in
          \<open>auto simp: sign_new_vote_def sbind_def slift_def sread_def signer_def Let_def\<close>)
    qed (use run d1 Ok c unwritten_refl in
        \<open>auto simp: sign_new_vote_def sbind_def slift_def sread_def Let_def split: outcome.splits\<close>)
  qed (use run d1 c unwritten_refl in \<open>auto simp: sign_new_vote_def sbind_def slift_def\<close>)
qed (use run c unwritten_refl in \<open>auto simp: sign_new_vote_def sbind_def slift_def\<close>)

lemma vote_cases:
  assumes c: "rules_coherent ops sr"
    and run: "guarded_construct_and_sign_vote_two_chain cr ops now vp maybe_tc sr = (r, sr')"
  shows "(\<forall>vt. r \<noteq> Ok vt) \<and> unwritten ops sr sr' \<or>
    (\<exists>vt d. r = Ok vt \<and> disk ops sr = Some d \<and> sd_last_vote d = Some vt \<and> unwritten ops sr sr') \<or>
    (\<exists>vt d d' es. r = Ok vt \<and> disk ops sr = Some d \<and> sr_epoch_state sr = Some es \<and>
       rules_coherent ops sr' \<and> disk ops sr' = Some d' \<and> sr_epoch_state sr' = sr_epoch_state sr \<and>
       vote_follows_rules cr es (vp_block vp) maybe_tc vt \<and>
       vote_epoch vt = sd_epoch d \<and> sd_last_voted_round d < bi_round (vote_proposed vt) \<and>
       sd_epoch d' = sd_epoch d \<and> sd_last_voted_round d' = bi_round (vote_proposed vt) \<and>
       sd_one_chain_round d' = max (sd_one_chain_round d) (bi_round (vd_parent (vote_vote_data vt))) \<and>
       sd_last_vote d' = Some vt)"
proof (cases "validator_signer sr")
  case (Some sg)
  obtain r1 s1 where vp: "verify_proposal cr ops now vp sr = (r1, s1)" by fastforce
  have u1: "unwritten ops sr s1"
    using unwritten_verify_proposal [OF unwritten_refl [OF c], of cr now vp] vp by simp
  show ?thesis
  proof (cases r1)
    case (Ok vd)
    obtain d es where pr: "disk ops sr = Some d" "sr_epoch_state sr = Some es"
        "blk_epoch (vp_block vp) = sd_epoch d"
        "qc_verify cr (blk_quorum_cert (vp_block vp)) (es_verifier es) = Ok ()"
        "verify_well_formed now (vp_block vp) = Ok ()" "gen_vote_data cr vp = Ok vd"
      using verify_proposal_Ok [OF c] vp Ok by blast
    have es1: "sr_epoch_state s1 = Some es" using u1 pr by (simp add: unwritten_def)
    show ?thesis
    proof (cases "verify_maybe_tc cr s1 maybe_tc")
      case tc: (Ok u)
      obtain r2 s2 where sd: "on_storage (pss_safety_data ops) s1 = (r2, s2)" by fastforce
      have u2: "unwritten ops s1 s2" and d2: "\<And>d2. r2 = Ok d2 \<Longrightarrow> d2 = d"
        using on_storage_safety_data [OF unwritten_coherent [OF u1] sd] pr u1 by (auto simp: unwritten_def)
      have u: "unwritten ops sr s2" using u1 u2 by (rule unwritten_trans)
      show ?thesis
      proof (cases "r2 = Ok d")
        case True
        have run': "(case sd_last_vote d of
            Some vt \<Rightarrow> if bi_round (vote_proposed vt) = blk_round (vp_block vp) then slift (Ok vt)
              else sign_new_vote cr ops vp maybe_tc vd d
          | None \<Rightarrow> sign_new_vote cr ops vp maybe_tc vd d) s2 = (r, sr')"
          using run Some vp Ok tc sd True
          by (simp add: guarded_construct_and_sign_vote_two_chain_def sbind_def sread_def signer_def)
        then consider (old) vt where "sd_last_vote d = Some vt" "r = Ok vt" "sr' = s2"
          | (new) "sign_new_vote cr ops vp maybe_tc vd d s2 = (r, sr')"
          by (auto simp: slift_def split: option.splits if_splits)
        then show ?thesis
        proof cases
          case old then show ?thesis using u pr by blast
        next
          case new
          show ?thesis
            using sign_new_vote_cases [OF unwritten_coherent [OF u] new]
          proof (elim disjE exE conjE)
            assume "\<forall>vt. r \<noteq> Ok vt" "unwritten ops s2 sr'"
            then show ?thesis using u unwritten_trans by blast
          next
            fix vt d'
            assume n: "r = Ok vt" "rules_coherent ops sr'" "disk ops sr' = Some d'"
              "sr_epoch_state sr' = sr_epoch_state s2" "sd_last_voted_round d < blk_round (vp_block vp)"
              "safe_to_vote (vp_block vp) maybe_tc = Ok ()" "sd_epoch d' = sd_epoch d"
              "sd_last_voted_round d' = blk_round (vp_block vp)"
              "sd_one_chain_round d' =
                 max (sd_one_chain_round d) (bi_round (certified_block (blk_quorum_cert (vp_block vp))))"
              "sd_last_vote d' = Some vt" "vote_vote_data vt = vd"
              "construct_ledger_info_2chain (vp_block vp) (hash_vote_data cr vd) = Ok (vote_ledger_info vt)"
            note g = gen_vote_data_Ok [OF pr(6)] and wf = verify_well_formed_Ok [OF pr(5)]
            have "vote_follows_rules cr es (vp_block vp) maybe_tc vt"
              using safe_to_vote_Ok [OF n(6)] construct_ledger_info_2chain_eq_Ok [OF n(12)] tc es1 pr(4) g wf n(11)
              by (auto simp: vote_follows_rules_def Let_def verify_maybe_tc_eq_Ok word_less_nat_alt)
            then show ?thesis
              using n pr g u by (simp add: vote_epoch_def unwritten_def)
          qed
        qed
      qed (use d2 run Some vp Ok tc sd u in
          \<open>auto simp: guarded_construct_and_sign_vote_two_chain_def sbind_def sread_def signer_def
              split: outcome.splits\<close>)
    qed (use run Some vp Ok u1 in
        \<open>auto simp: guarded_construct_and_sign_vote_two_chain_def sbind_def sread_def signer_def\<close>)
  qed (use run Some vp u1 in
      \<open>auto simp: guarded_construct_and_sign_vote_two_chain_def sbind_def sread_def signer_def\<close>)
qed (use run c unwritten_refl in
    \<open>auto simp: guarded_construct_and_sign_vote_two_chain_def sbind_def sread_def signer_def\<close>)

lemma timeout_cases:
  assumes c: "rules_coherent ops sr"
    and run: "guarded_sign_timeout_with_qc cr ops t maybe_tc sr = (r, sr')"
  shows "(\<forall>sig. r \<noteq> Ok sig) \<and> unwritten ops sr sr' \<or>
    (\<exists>sig d d'. r = Ok sig \<and> disk ops sr = Some d \<and> rules_coherent ops sr' \<and> disk ops sr' = Some d' \<and>
       sr_epoch_state sr' = sr_epoch_state sr \<and>
       tct_epoch t = sd_epoch d \<and> sd_one_chain_round d \<le> hqc_round t \<and>
       sd_last_voted_round d \<le> tct_round t \<and>
       d' = d\<lparr>sd_last_voted_round := tct_round t\<rparr>)"
proof (cases "validator_signer sr")
  case (Some sg)
  obtain r1 s1 where sd: "on_storage (pss_safety_data ops) sr = (r1, s1)" by fastforce
  note u = on_storage_safety_data(1) [OF c sd]
  show ?thesis
  proof (cases r1)
    case (Ok d)
    have d: "disk ops sr = Some d" using on_storage_safety_data(2) [OF c sd] Ok by simp
    have sg1: "validator_signer s1 = Some sg" using u Some by (simp add: unwritten_def)
    let ?checks = "\<lambda>sr. and_then (verify_epoch (tct_epoch t) d) (\<lambda>_.
       and_then (epoch_state_of sr) (\<lambda>es.
       and_then (map_err InvalidTimeout (timeout_verify cr t (es_verifier es))) (\<lambda>_.
       and_then (verify_maybe_tc cr sr maybe_tc) (\<lambda>_.
       and_then (safe_to_timeout t maybe_tc d) (\<lambda>_.
       if tct_round t < sd_last_voted_round d
       then Err (IncorrectLastVotedRound (tct_round t) (sd_last_voted_round d)) else Ok ())))))"
    have run1: "sbind (slift (?checks s1)) (\<lambda>_.
        sbind (if tct_round t > sd_last_voted_round d
            then sbind (slift (verify_and_update_last_vote_round (tct_round t) d)) (\<lambda>d'.
                 on_storage (set_safety_data ops d'))
            else slift (Ok ())) (\<lambda>_.
        sread (\<lambda>sr. sr_sign (sign_timeout cr) sr (signing_format t)))) s1 = (r, sr')"
      using run Some sd Ok
      by (simp add: guarded_sign_timeout_with_qc_def sbind_def sread_def slift_def signer_def)
    have b: "tct_epoch t = sd_epoch d \<and> safe_to_timeout t maybe_tc d = Ok () \<and>
        sd_last_voted_round d \<le> tct_round t" if "?checks s1 = Ok ()"
      using that by (auto simp: outcome_simps split: if_splits)
    show ?thesis
    proof (cases "?checks s1 = Ok ()")
      case True
      note bs = b [OF True] and hqc = safe_to_timeout_Ok [of t maybe_tc d]
      show ?thesis
      proof (cases "tct_round t > sd_last_voted_round d")
        case gt: True
        obtain r2 s2 where w: "on_storage (set_safety_data ops (d\<lparr>sd_last_voted_round := tct_round t\<rparr>)) s1 = (r2, s2)"
          by fastforce
        have "(r, sr') = (case r2 of Ok _ \<Rightarrow> sr_sign (sign_timeout cr) s2 (signing_format t)
            | Err e \<Rightarrow> Err e | Panic \<Rightarrow> Panic, s2)"
          using run1 True gt w
            verify_and_update_last_vote_round_eq_Ok [of "tct_round t" d "d\<lparr>sd_last_voted_round := tct_round t\<rparr>"]
          by (cases r2) (auto simp: sbind_def slift_def sread_def)
        then show ?thesis
          using on_storage_set_safety_data [OF unwritten_coherent [OF u] w] u bs hqc d sg1
            sr_sign_signer [of s2 sg "sign_timeout cr" "signing_format t"]
          by (auto simp: unwritten_def split: outcome.splits)
      next
        case False
        then have "sd_last_voted_round d = tct_round t" using bs by simp
        then show ?thesis
          using run1 True u bs hqc d sg1
          by (auto simp: sbind_def slift_def sread_def sr_sign_def signer_def unwritten_def)
      qed
    qed (use run1 u in \<open>auto simp: sbind_def slift_def split: outcome.splits\<close>)
  qed (use run Some sd u in \<open>auto simp: guarded_sign_timeout_with_qc_def sbind_def sread_def signer_def\<close>)
qed (use run c unwritten_refl in
    \<open>auto simp: guarded_sign_timeout_with_qc_def sbind_def sread_def signer_def\<close>)

lemma reconcile_key_frame:
  "persistent_storage (snd (reconcile_key cr ops' es a sr)) = persistent_storage sr \<and>
   sr_epoch_state (snd (reconcile_key cr ops' es a sr)) = sr_epoch_state sr"
  by (simp add: reconcile_key_def Let_def split: outcome.splits)

lemma on_storage_set_waypoint:
  assumes "rules_coherent ops sr" "on_storage (set_waypoint ops w) sr = (r, sr')"
  shows "unwritten ops sr sr'"
  using assms set_waypoint_same [of "persistent_storage sr" w]
  by (auto simp: on_storage_eq unwritten_def rules_coherent_def disk_def)

text \<open>The second half of \<open>guarded_initialize\<close>, after the waypoint.\<close>

lemma initialize_epoch_cases:
  assumes c: "rules_coherent ops sr" and sd: "on_storage (pss_safety_data ops) sr = (Ok d, s1)"
    and run: "sbind (if sd_epoch d > es_epoch es then slift (Err e)
            else if sd_epoch d < es_epoch es
            then on_storage (set_safety_data ops (fresh_safety_data (es_epoch es)))
            else slift (Ok ())) (\<lambda>_.
     sbind (\<lambda>sr. (Ok (), sr\<lparr>sr_epoch_state := Some es\<rparr>)) (\<lambda>_.
     sbind (on_storage (sread (pss_author ops))) (\<lambda>a.
     reconcile_key cr ops es a))) s1 = (r, sr')"
  shows "unwritten ops sr sr' \<or>
    (\<exists>d'. disk ops sr = Some d \<and> disk ops sr' = Some d' \<and> rules_coherent ops sr' \<and>
       sr_epoch_state sr' = Some es \<and> sd_epoch d' = es_epoch es \<and>
       (d' = d \<or> sd_epoch d < sd_epoch d' \<and> sd_last_vote d' = None))"
proof -
  note u = on_storage_safety_data(1) [OF c sd] and d = on_storage_safety_data(2) [OF c sd refl]
  have frame: "persistent_storage s' = persistent_storage s \<and> sr_epoch_state s' = Some es"
    if "sbind (\<lambda>sr. (Ok (), sr\<lparr>sr_epoch_state := Some es\<rparr>)) (\<lambda>_.
     sbind (on_storage (sread (pss_author ops))) (\<lambda>a. reconcile_key cr ops es a)) s = (r, s')" for s s'
    using that reconcile_key_frame [of cr ops es _ "s\<lparr>sr_epoch_state := Some es\<rparr>"]
    by (auto simp: sbind_def on_storage_def sread_def split: outcome.splits)
      (metis snd_conv)+
  from run show ?thesis
  proof (cases rule: sbind_cases)
    case (step a s2)
    note fr = frame [OF step(2)]
    show ?thesis
    proof (cases "sd_epoch d < es_epoch es")
      case True
      then have "\<not> es_epoch es < sd_epoch d" by simp
      with True have "on_storage (set_safety_data ops (fresh_safety_data (es_epoch es))) s1 = (Ok a, s2)"
        using step(1) by simp
      from on_storage_set_safety_data [OF unwritten_coherent [OF u] this] True show ?thesis
        using fr d by (auto simp: disk_def rules_coherent_def fresh_safety_data_def)
    next
      case False
      then have "sd_epoch d = es_epoch es" "s2 = s1"
        using step(1) by (auto simp: slift_def split: if_splits)
      then show ?thesis
        using fr u d by (auto simp: unwritten_def disk_def rules_coherent_def)
    qed
  next
    case stop
    then show ?thesis
      using u on_storage_set_safety_data_failed [OF unwritten_coherent [OF u]] unwritten_trans [OF u]
      by (cases "sd_epoch d > es_epoch es"; cases "sd_epoch d < es_epoch es") auto
  qed
qed

lemma initialize_cases:
  assumes c: "rules_coherent ops sr" and run: "guarded_initialize cr ops proof sr = (r, sr')"
  shows "unwritten ops sr sr' \<or>
    (\<exists>d d' es. disk ops sr = Some d \<and> disk ops sr' = Some d' \<and> rules_coherent ops sr' \<and>
       sr_epoch_state sr' = Some es \<and> sd_epoch d' = es_epoch es \<and>
       (d' = d \<or> sd_epoch d < sd_epoch d' \<and> sd_last_vote d' = None))"
proof -
  have rd: "unwritten ops sr (snd (on_storage (sread (pss_waypoint ops)) sr))"
    using unwritten_on_storage_sread [OF unwritten_refl [OF c]] .
  from run [unfolded guarded_initialize_def] show ?thesis
  proof (cases rule: sbind_cases)
    case (step w s1)
    then have u1: "unwritten ops sr s1" using rd by simp
    from step(2) show ?thesis
    proof (cases rule: sbind_cases)
      case (step esw s1')
      obtain es new_w where esw: "esw = (es, new_w)" by fastforce
      have s1': "s1' = s1" using step(1) by (simp add: slift_def)
      have wp: "unwritten ops sr (snd ((if wp_version new_w > wp_version w
          then on_storage (set_waypoint ops new_w) else slift (Ok ())) s1))"
        using u1 on_storage_set_waypoint [OF unwritten_coherent [OF u1]] unwritten_trans [OF u1]
        by (metis prod.collapse snd_slift)
      from step(2) [unfolded esw s1' prod.case] show ?thesis
      proof (cases rule: sbind_cases)
        case (step a s2)
        then have u2: "unwritten ops sr s2" using wp by simp
        from step(2) show ?thesis
        proof (cases rule: sbind_cases)
          case (step d s3)
          from initialize_epoch_cases [OF unwritten_coherent [OF u2] step] u2 show ?thesis
            by (auto simp: unwritten_def)
        qed (use u2 unwritten_safety_data in simp)
      qed (use wp in simp)
    qed (use u1 in simp)
  qed (use rd in simp)
qed

end

section \<open>A valid proposal is signed\<close>

lemma vote_succeeds:
  assumes "validator_signer sr = Some sg" "sr_epoch_state sr = Some es"
    and "pss_safety_data ops (persistent_storage sr) = (Ok d, p)" "pss_safety_data ops p = (Ok d, p)"
    and "blk_epoch (vp_block vp) = sd_epoch d"
    and "qc_verify cr (blk_quorum_cert (vp_block vp)) (es_verifier es) = Ok ()"
    and "validate_signature cr (vp_block vp) (es_verifier es) = Ok ()"
    and "verify_well_formed now (vp_block vp) = Ok ()"
    and "gen_vote_data cr vp = Ok vd"
    and "\<And>tc. maybe_tc = Some tc \<Longrightarrow> tc_verify cr tc (es_verifier es) = Ok ()"
    and "\<And>vt. sd_last_vote d = Some vt \<Longrightarrow> bi_round (vote_proposed vt) \<noteq> blk_round (vp_block vp)"
    and "sd_last_voted_round d < blk_round (vp_block vp)"
    and "safe_to_vote (vp_block vp) maybe_tc = Ok ()"
    and "construct_ledger_info_2chain (vp_block vp) (hash_vote_data cr vd) = Ok li"
    and "vt = vote_new_with_signature vd (vs_author sg) li (sign_ledger_info cr (vs_private_key sg) li)"
    and "set_safety_data ops
      ((snd (observe_qc (blk_quorum_cert (vp_block vp)) (d\<lparr>sd_last_voted_round := blk_round (vp_block vp)\<rparr>)))
        \<lparr>sd_last_vote := Some vt\<rparr>) p = (Ok (), p')"
  shows "guarded_construct_and_sign_vote_two_chain cr ops now vp maybe_tc sr =
    (Ok vt, sr\<lparr>persistent_storage := p'\<rparr>)"
proof -
  let ?s = "sr\<lparr>persistent_storage := p\<rparr>"
  have "verify_proposal cr ops now vp sr = (Ok vd, ?s)"
    using assms(1-9)
    by (simp add: verify_proposal_def sbind_def on_storage_def slift_def sread_def verify_epoch_def
        verify_qc_def epoch_state_of_def)
  moreover have "verify_maybe_tc cr ?s maybe_tc = Ok ()"
    using assms(2,10) by (simp add: verify_maybe_tc_eq_Ok)
  moreover have "on_storage (pss_safety_data ops) ?s = (Ok d, ?s)"
    using assms(4) by (simp add: on_storage_def)
  moreover have "sign_new_vote cr ops vp maybe_tc vd d ?s = (Ok vt, sr\<lparr>persistent_storage := p'\<rparr>)"
    using assms(1,12-16)
    by (simp add: sign_new_vote_def sbind_def slift_def sread_def on_storage_def signer_def sr_sign_signer
        verify_and_update_last_vote_round_def Let_def)
  ultimately show ?thesis
    using assms(1,11)
    by (simp add: guarded_construct_and_sign_vote_two_chain_def sbind_def sread_def signer_def split: option.splits)
qed

end
