(* ===== verification/Safety_Service.thy ===== *)
theory Safety_Service
  imports Safety_Rules
begin

text \<open>
  The requests of a safety-rules process (\<open>src/consensus/safety-rules/src/serializer.rs\<close>), and the
  history of signatures that one process hands out.

  \<open>handle_input\<close> is the dispatch of \<open>SerializerService::handle_message\<close>, \<open>client_call\<close> a method of
  \<open>SerializerClient\<close> on top of a codec for the wire format (\<open>serde_json\<close>, an argument).  A \<open>node\<close> is
  the state of a process together with the votes, timeouts and commit votes that it has signed so far;
  its events are requests and restarts, a restart keeping nothing but the storage.

  The invariant \<open>history_ok\<close> relates the persisted safety data to this history: one vote per round,
  and no timeout with a quorum certificate below the parent of an earlier vote.
\<close>

section \<open>Requests\<close>

datatype safety_rules_input =
    ConsensusState
  | Initialize epoch_change_proof
  | SignProposal block_data
  | SignTimeoutWithQC two_chain_timeout "two_chain_timeout_certificate option"
  | ConstructAndSignVoteTwoChain vote_proposal "two_chain_timeout_certificate option"
  | SignCommitVote ledger_info_with_signatures ledger_info

datatype safety_rules_output =
    Out_ConsensusState "sr_error + consensus_state"
  | Out_Unit "sr_error + unit"
  | Out_Signature "sr_error + signature"
  | Out_Vote "sr_error + vote"

text \<open>A serialised \<open>Result\<close>; a panic in the handler is a panic of the service.\<close>

definition result_of :: "(sr_error + 'a \<Rightarrow> safety_rules_output) \<Rightarrow> (sr_error, 'a) outcome \<times> 's \<Rightarrow>
    (sr_error, safety_rules_output) outcome \<times> 's" where
  "result_of out rs =
     (case rs of
        (Ok a, s) \<Rightarrow> (Ok (out (Inr a)), s)
      | (Err e, s) \<Rightarrow> (Ok (out (Inl e)), s)
      | (Panic, s) \<Rightarrow> (Panic, s))"

fun handle_input ::
    "'z crypto_scheme \<Rightarrow> 's kv_ops \<Rightarrow> u64 \<Rightarrow> bool \<Rightarrow> safety_rules_input \<Rightarrow>
     ('s safety_rules, sr_error, safety_rules_output) stateful" where
  "handle_input cr ops now info_enabled ConsensusState sr =
     result_of Out_ConsensusState (guarded_consensus_state ops info_enabled sr)"
| "handle_input cr ops now info_enabled (Initialize proof) sr =
     result_of Out_Unit (guarded_initialize cr ops proof sr)"
| "handle_input cr ops now info_enabled (SignProposal bd) sr =
     result_of Out_Signature (guarded_sign_proposal cr ops bd sr)"
| "handle_input cr ops now info_enabled (SignTimeoutWithQC t maybe_tc) sr =
     result_of Out_Signature (guarded_sign_timeout_with_qc cr ops t maybe_tc sr)"
| "handle_input cr ops now info_enabled (ConstructAndSignVoteTwoChain vp maybe_tc) sr =
     result_of Out_Vote (guarded_construct_and_sign_vote_two_chain cr ops now vp maybe_tc sr)"
| "handle_input cr ops now info_enabled (SignCommitVote lis new_li) sr =
     result_of Out_Signature (guarded_sign_commit_vote cr lis new_li sr)"

section \<open>The serialised service\<close>






section \<open>A process and its history\<close>

record 's node =
  nd_rules :: "'s safety_rules"
  nd_votes :: "vote list"
  nd_timeouts :: "two_chain_timeout list"
  nd_commits :: "ledger_info list"

datatype node_event =
    Request u64 bool safety_rules_input
  | Restart bool

fun log_output :: "safety_rules_input \<Rightarrow> (sr_error, safety_rules_output) outcome \<Rightarrow> 's node \<Rightarrow> 's node" where
  "log_output _ (Ok (Out_Vote (Inr vt))) n = n\<lparr>nd_votes := vt # nd_votes n\<rparr>"
| "log_output (SignTimeoutWithQC t maybe_tc) (Ok (Out_Signature (Inr sig))) n =
     n\<lparr>nd_timeouts := t # nd_timeouts n\<rparr>"
| "log_output (SignCommitVote lis new_li) (Ok (Out_Signature (Inr sig))) n =
     n\<lparr>nd_commits := new_li # nd_commits n\<rparr>"
| "log_output _ _ n = n"

fun node_step :: "'z crypto_scheme \<Rightarrow> 's kv_ops \<Rightarrow> node_event \<Rightarrow> 's node \<Rightarrow> 's node" where
  "node_step cr ops (Request now info_enabled input) n =
     (case handle_input cr ops now info_enabled input (nd_rules n) of
        (r, sr) \<Rightarrow> log_output input r (n\<lparr>nd_rules := sr\<rparr>))"
| "node_step cr ops (Restart enable_cache) n =
     n\<lparr>nd_rules := safety_rules_new
         (pss_new (internal_store (persistent_storage (nd_rules n))) enable_cache)\<rparr>"

definition node_run :: "'z crypto_scheme \<Rightarrow> 's kv_ops \<Rightarrow> node_event list \<Rightarrow> 's node \<Rightarrow> 's node" where
  "node_run cr ops = fold (node_step cr ops)"

text \<open>A process that starts on a storage without a recorded vote.\<close>

definition node_start :: "'s kv_ops \<Rightarrow> 's safety_rules \<Rightarrow> bool" where
  "node_start ops sr =
     (rules_coherent ops sr \<and> sr_epoch_state sr = None \<and>
      (case disk ops sr of None \<Rightarrow> True | Some d \<Rightarrow> sd_last_vote d = None))"

definition node_new :: "'s safety_rules \<Rightarrow> 's node" where
  "node_new sr = \<lparr>nd_rules = sr, nd_votes = [], nd_timeouts = [], nd_commits = []\<rparr>"

section \<open>Histories\<close>

abbreviation vote_round :: "vote \<Rightarrow> round" where
  "vote_round vt \<equiv> bi_round (vote_proposed vt)"

abbreviation vote_parent_round :: "vote \<Rightarrow> round" where
  "vote_parent_round vt \<equiv> bi_round (vd_parent (vote_vote_data vt))"

definition one_vote_per_round :: "vote set \<Rightarrow> bool" where
  "one_vote_per_round V =
     (\<forall>vt\<in>V. \<forall>vt'\<in>V. vote_epoch vt = vote_epoch vt' \<longrightarrow> vote_round vt = vote_round vt' \<longrightarrow> vt = vt')"

definition timeouts_respect_votes :: "vote set \<Rightarrow> two_chain_timeout set \<Rightarrow> bool" where
  "timeouts_respect_votes V T =
     (\<forall>vt\<in>V. \<forall>t\<in>T. vote_epoch vt = tct_epoch t \<longrightarrow> vote_round vt \<le> tct_round t \<longrightarrow>
        vote_parent_round vt \<le> hqc_round t)"

definition history_ok :: "safety_data option \<Rightarrow> vote set \<Rightarrow> two_chain_timeout set \<Rightarrow> bool" where
  "history_ok D V T =
     (one_vote_per_round V \<and> timeouts_respect_votes V T \<and>
      (\<forall>vt\<in>V. \<exists>d. D = Some d \<and> vote_epoch vt \<le> sd_epoch d \<and>
         (vote_epoch vt = sd_epoch d \<longrightarrow>
            vote_round vt \<le> sd_last_voted_round d \<and> vote_parent_round vt \<le> sd_one_chain_round d)) \<and>
      (\<forall>t\<in>T. \<exists>d. D = Some d \<and> tct_epoch t \<le> sd_epoch d \<and>
         (tct_epoch t = sd_epoch d \<longrightarrow> tct_round t \<le> sd_last_voted_round d)) \<and>
      (\<forall>d vt. D = Some d \<longrightarrow> sd_last_vote d = Some vt \<longrightarrow> vt \<in> V))"

definition node_inv :: "'s kv_ops \<Rightarrow> 's node \<Rightarrow> bool" where
  "node_inv ops n =
     (rules_coherent ops (nd_rules n) \<and>
      (\<forall>es. sr_epoch_state (nd_rules n) = Some es \<longrightarrow>
         (\<exists>d. disk ops (nd_rules n) = Some d \<and> sd_epoch d = es_epoch es)) \<and>
      history_ok (disk ops (nd_rules n)) (set (nd_votes n)) (set (nd_timeouts n)))"

lemma history_ok_repeat:
  "history_ok (Some d) V T \<Longrightarrow> sd_last_vote d = Some vt \<Longrightarrow> insert vt V = V"
  by (auto simp: history_ok_def)

lemma history_ok_vote:
  assumes "history_ok (Some d) V T" "vote_epoch vt = sd_epoch d" "sd_last_voted_round d < vote_round vt"
    and "sd_epoch d' = sd_epoch d" "sd_last_voted_round d' = vote_round vt"
    and "sd_one_chain_round d' = max (sd_one_chain_round d) (vote_parent_round vt)"
    and "sd_last_vote d' = Some vt"
  shows "history_ok (Some d') (insert vt V) T"
  using assms unfolding history_ok_def one_vote_per_round_def timeouts_respect_votes_def
  by (intro conjI) (fastforce simp: le_max_iff_disj)+

lemma history_ok_timeout:
  assumes "history_ok (Some d) V T" "tct_epoch t = sd_epoch d" "sd_one_chain_round d \<le> hqc_round t"
    and "sd_last_voted_round d \<le> tct_round t"
  shows "history_ok (Some (d\<lparr>sd_last_voted_round := tct_round t\<rparr>)) V (insert t T)"
  using assms unfolding history_ok_def timeouts_respect_votes_def
  by (intro conjI) fastforce+

lemma history_ok_epoch:
  assumes "history_ok (Some d) V T" "sd_epoch d < sd_epoch d'" "sd_last_vote d' = None"
  shows "history_ok (Some d') V T"
  using assms unfolding history_ok_def by (intro conjI) fastforce+

lemma result_of_fst_Ok [simp]:
  "result_of out (r, s) = (Ok x, s') \<longleftrightarrow>
     s' = s \<and> ((\<exists>a. r = Ok a \<and> x = out (Inr a)) \<or> (\<exists>e. r = Err e \<and> x = out (Inl e)))"
  by (auto simp: result_of_def split: outcome.splits)

lemma snd_result_of [simp]: "snd (result_of out rs) = snd rs"
  by (auto simp: result_of_def split: prod.splits outcome.splits)

text \<open>What one request adds to the history.\<close>

lemma node_step_vote:
  assumes "guarded_construct_and_sign_vote_two_chain cr ops now vp maybe_tc (nd_rules n) = (r, sr)"
  shows "node_step cr ops (Request now info (ConstructAndSignVoteTwoChain vp maybe_tc)) n =
    (case r of Ok vt \<Rightarrow> n\<lparr>nd_rules := sr, nd_votes := vt # nd_votes n\<rparr> | _ \<Rightarrow> n\<lparr>nd_rules := sr\<rparr>)"
  using assms by (cases r) (simp_all add: result_of_def)

lemma node_step_timeout:
  assumes "guarded_sign_timeout_with_qc cr ops t maybe_tc (nd_rules n) = (r, sr)"
  shows "node_step cr ops (Request now info (SignTimeoutWithQC t maybe_tc)) n =
    (case r of Ok sig \<Rightarrow> n\<lparr>nd_rules := sr, nd_timeouts := t # nd_timeouts n\<rparr> | _ \<Rightarrow> n\<lparr>nd_rules := sr\<rparr>)"
  using assms by (cases r) (simp_all add: result_of_def)

lemma node_step_commit:
  assumes "guarded_sign_commit_vote cr lis new_li (nd_rules n) = (r, sr)"
  shows "node_step cr ops (Request now info (SignCommitVote lis new_li)) n =
    (case r of Ok sig \<Rightarrow> n\<lparr>nd_rules := sr, nd_commits := new_li # nd_commits n\<rparr> | _ \<Rightarrow> n\<lparr>nd_rules := sr\<rparr>)"
  using assms by (cases r) (simp_all add: result_of_def)

lemma node_step_silent:
  "node_step cr ops (Request now info ConsensusState) n =
     n\<lparr>nd_rules := snd (guarded_consensus_state ops info (nd_rules n))\<rparr>"
  "node_step cr ops (Request now info (SignProposal bd)) n =
     n\<lparr>nd_rules := snd (guarded_sign_proposal cr ops bd (nd_rules n))\<rparr>"
  "node_step cr ops (Request now info (Initialize pr)) n =
     n\<lparr>nd_rules := snd (guarded_initialize cr ops pr (nd_rules n))\<rparr>"
  by (auto simp: result_of_def split: prod.splits outcome.splits)

lemmas node_step_simps = node_step_vote node_step_timeout node_step_commit node_step_silent

declare node_step.simps(1) [simp del]

text \<open>The history only grows.\<close>

lemma node_step_mono:
  "set (nd_votes n) \<subseteq> set (nd_votes (node_step cr ops ev n))"
  "set (nd_timeouts n) \<subseteq> set (nd_timeouts (node_step cr ops ev n))"
  "set (nd_commits n) \<subseteq> set (nd_commits (node_step cr ops ev n))"
proof -
  have "set (nd_votes n) \<subseteq> set (nd_votes (log_output i r n)) \<and>
      set (nd_timeouts n) \<subseteq> set (nd_timeouts (log_output i r n)) \<and>
      set (nd_commits n) \<subseteq> set (nd_commits (log_output i r n))" for i r and n :: "'s node"
    by (rule log_output.cases [of "(i, r, n)"]) auto
  from this [of "n\<lparr>nd_rules := _\<rparr>"]
  show "set (nd_votes n) \<subseteq> set (nd_votes (node_step cr ops ev n))"
    "set (nd_timeouts n) \<subseteq> set (nd_timeouts (node_step cr ops ev n))"
    "set (nd_commits n) \<subseteq> set (nd_commits (node_step cr ops ev n))"
    by (cases ev; simp add: node_step.simps(1) split: prod.splits)+
qed

lemma node_step_commits:
  assumes "li \<in> set (nd_commits (node_step cr ops ev n))"
  shows "li \<in> set (nd_commits n) \<or>
    (\<exists>now info lis es. ev = Request now info (SignCommitVote lis li) \<and>
       sr_epoch_state (nd_rules n) = Some es \<and> is_ordered_only (commit_info (lis_ledger_info lis)) \<and>
       match_ordered_only (commit_info (lis_ledger_info lis)) (commit_info li) \<and>
       lis_verify_signatures cr lis (es_verifier es) = Ok ())"
proof (cases "\<exists>now info lis li. ev = Request now info (SignCommitVote lis li)")
  case True
  then obtain now info lis li' where ev: "ev = Request now info (SignCommitVote lis li')" by blast
  obtain r sr where run: "guarded_sign_commit_vote cr lis li' (nd_rules n) = (r, sr)" by fastforce
  show ?thesis
    using assms run unfolding ev node_step_commit [OF run]
    by (auto simp: guarded_sign_commit_vote_def sread_def Let_def outcome_simps
        split: outcome.splits if_splits)
next
  case False
  then have "nd_commits (node_step cr ops ev n) = nd_commits n"
    by (cases "(cr, ops, ev, n)" rule: node_step.cases; cases "case ev of Request _ _ i \<Rightarrow> i")
      (auto simp: node_step.simps(1) result_of_def split: prod.splits outcome.splits)
  then show ?thesis using assms by simp
qed

context kv_storage
begin

lemma node_inv_unwritten:
  assumes "node_inv ops n" "unwritten ops (nd_rules n) sr"
  shows "node_inv ops (n\<lparr>nd_rules := sr\<rparr>)" "node_inv ops (n\<lparr>nd_rules := sr, nd_commits := c\<rparr>)"
  using assms by (auto simp: node_inv_def unwritten_def)

lemma node_inv_coherent: "node_inv ops n \<Longrightarrow> rules_coherent ops (nd_rules n)"
  by (simp add: node_inv_def)

lemma node_inv_vote:
  assumes inv: "node_inv ops n"
  shows "node_inv ops (node_step cr ops (Request now info (ConstructAndSignVoteTwoChain vp maybe_tc)) n)"
proof -
  obtain r sr where run: "guarded_construct_and_sign_vote_two_chain cr ops now vp maybe_tc (nd_rules n) = (r, sr)"
    by fastforce
  from vote_cases [OF node_inv_coherent [OF inv] run] show ?thesis
  proof (elim disjE exE conjE)
    assume "\<forall>vt. r \<noteq> Ok vt" "unwritten ops (nd_rules n) sr"
    then show ?thesis
      using node_inv_unwritten [OF inv] by (simp add: node_step_vote [OF run] split: outcome.splits)
  next
    fix vt d
    assume "r = Ok vt" "disk ops (nd_rules n) = Some d" "sd_last_vote d = Some vt"
      "unwritten ops (nd_rules n) sr"
    then show ?thesis
      using inv history_ok_repeat [of d]
      by (auto simp: node_step_vote [OF run] node_inv_def unwritten_def)
  next
    fix vt d d' es
    assume "r = Ok vt" "disk ops (nd_rules n) = Some d" "sr_epoch_state (nd_rules n) = Some es"
      "rules_coherent ops sr" "disk ops sr = Some d'" "sr_epoch_state sr = sr_epoch_state (nd_rules n)"
      "vote_epoch vt = sd_epoch d" "sd_last_voted_round d < vote_round vt" "sd_epoch d' = sd_epoch d"
      "sd_last_voted_round d' = vote_round vt"
      "sd_one_chain_round d' = max (sd_one_chain_round d) (vote_parent_round vt)" "sd_last_vote d' = Some vt"
    then show ?thesis
      using inv history_ok_vote [of d _ _ vt d']
      by (auto simp: node_step_vote [OF run] node_inv_def)
  qed
qed

lemma node_inv_timeout:
  assumes inv: "node_inv ops n"
  shows "node_inv ops (node_step cr ops (Request now info (SignTimeoutWithQC t maybe_tc)) n)"
proof -
  obtain r sr where run: "guarded_sign_timeout_with_qc cr ops t maybe_tc (nd_rules n) = (r, sr)"
    by fastforce
  from timeout_cases [OF node_inv_coherent [OF inv] run] show ?thesis
  proof (elim disjE exE conjE)
    assume "\<forall>sig. r \<noteq> Ok sig" "unwritten ops (nd_rules n) sr"
    then show ?thesis
      using node_inv_unwritten [OF inv] by (simp add: node_step_timeout [OF run] split: outcome.splits)
  next
    fix sig d d'
    assume "r = Ok sig" "disk ops (nd_rules n) = Some d" "rules_coherent ops sr" "disk ops sr = Some d'"
      "sr_epoch_state sr = sr_epoch_state (nd_rules n)" "tct_epoch t = sd_epoch d"
      "sd_one_chain_round d \<le> hqc_round t" "sd_last_voted_round d \<le> tct_round t"
      "d' = d\<lparr>sd_last_voted_round := tct_round t\<rparr>"
    then show ?thesis
      using inv history_ok_timeout [of d _ _ t]
      by (auto simp: node_step_timeout [OF run] node_inv_def)
  qed
qed

lemma node_inv_initialize:
  assumes inv: "node_inv ops n"
  shows "node_inv ops (node_step cr ops (Request now info (Initialize pr)) n)"
proof -
  obtain r sr where run: "guarded_initialize cr ops pr (nd_rules n) = (r, sr)" by fastforce
  from initialize_cases [OF node_inv_coherent [OF inv] run] show ?thesis
    using inv node_inv_unwritten [OF inv] history_ok_epoch
    unfolding node_step_silent run snd_conv
    by (elim disjE exE conjE) (auto simp: node_inv_def)
qed

lemma node_inv_restart:
  assumes "node_inv ops n"
  shows "node_inv ops (node_step cr ops (Restart enable_cache) n)"
  using assms
  by (simp add: node_inv_def safety_rules_new_def pss_new_def rules_coherent_def coherent_def disk_def
      persisted_def)

lemma node_inv_step:
  assumes inv: "node_inv ops n"
  shows "node_inv ops (node_step cr ops ev n)"
proof (cases ev)
  case (Request now info input)
  note u = unwritten_refl [OF node_inv_coherent [OF inv]]
  show ?thesis
  proof (cases input)
    case (SignCommitVote lis new_li)
    have "unwritten ops (nd_rules n) (snd (guarded_sign_commit_vote cr lis new_li (nd_rules n)))"
      by (rule unwritten_sign_commit_vote [OF u])
    then show ?thesis
      using node_inv_unwritten [OF inv] unfolding Request SignCommitVote
      by (subst node_step_commit [OF prod.collapse [symmetric]]) (auto split: outcome.splits)
  qed (use Request inv node_inv_vote node_inv_timeout node_inv_initialize in
      \<open>simp_all add: node_step_silent node_inv_unwritten unwritten_sign_proposal [OF u]
         unwritten_consensus_state [OF u]\<close>)
qed (simp only: node_inv_restart [OF inv])

lemma node_step_votes:
  assumes inv: "node_inv ops n" and vt: "vt \<in> set (nd_votes (node_step cr ops ev n))"
  shows "vt \<in> set (nd_votes n) \<or>
    (\<exists>now info vp maybe_tc es. ev = Request now info (ConstructAndSignVoteTwoChain vp maybe_tc) \<and>
       sr_epoch_state (nd_rules n) = Some es \<and> es_epoch es = vote_epoch vt \<and>
       vote_follows_rules cr es (vp_block vp) maybe_tc vt)"
proof (cases "\<exists>now info vp maybe_tc. ev = Request now info (ConstructAndSignVoteTwoChain vp maybe_tc)")
  case True
  then obtain now info vp maybe_tc where ev: "ev = Request now info (ConstructAndSignVoteTwoChain vp maybe_tc)"
    by blast
  obtain r sr where run: "guarded_construct_and_sign_vote_two_chain cr ops now vp maybe_tc (nd_rules n) = (r, sr)"
    by fastforce
  have r: "vt \<in> set (nd_votes n) \<or> r = Ok vt"
    using vt unfolding ev by (auto simp: node_step_vote [OF run] split: outcome.splits)
  from vote_cases [OF node_inv_coherent [OF inv] run] show ?thesis
    using r inv ev by (elim disjE exE conjE) (auto simp: node_inv_def history_ok_def)
next
  case False
  then have "nd_votes (node_step cr ops ev n) = nd_votes n"
    by (cases "(cr, ops, ev, n)" rule: node_step.cases; cases "case ev of Request _ _ i \<Rightarrow> i")
      (auto simp: node_step.simps(1) result_of_def split: prod.splits outcome.splits)
  then show ?thesis using vt by simp
qed

lemma node_step_epoch_state:
  assumes inv: "node_inv ops n" and es: "sr_epoch_state (nd_rules (node_step cr ops ev n)) = Some es"
  shows "sr_epoch_state (nd_rules n) = Some es \<or> (\<exists>now info pr. ev = Request now info (Initialize pr))"
proof (cases ev)
  case (Request now info input)
  note c = node_inv_coherent [OF inv] and u = unwritten_refl [OF node_inv_coherent [OF inv]]
  show ?thesis
  proof (cases input)
    case (SignTimeoutWithQC t maybe_tc)
    obtain r sr where run: "guarded_sign_timeout_with_qc cr ops t maybe_tc (nd_rules n) = (r, sr)" by fastforce
    from timeout_cases [OF c run] have "sr_epoch_state sr = sr_epoch_state (nd_rules n)"
      by (auto simp: unwritten_def)
    then show ?thesis
      using es unfolding Request SignTimeoutWithQC by (simp add: node_step_timeout [OF run] split: outcome.splits)
  next
    case (ConstructAndSignVoteTwoChain vp maybe_tc)
    obtain r sr where run: "guarded_construct_and_sign_vote_two_chain cr ops now vp maybe_tc (nd_rules n) = (r, sr)"
      by fastforce
    from vote_cases [OF c run] have "sr_epoch_state sr = sr_epoch_state (nd_rules n)"
      by (auto simp: unwritten_def)
    then show ?thesis
      using es unfolding Request ConstructAndSignVoteTwoChain
      by (simp add: node_step_vote [OF run] split: outcome.splits)
  next
    case (SignCommitVote lis new_li)
    obtain r sr where run: "guarded_sign_commit_vote cr lis new_li (nd_rules n) = (r, sr)" by fastforce
    then have "sr = nd_rules n" by (simp add: guarded_sign_commit_vote_def sread_def)
    then show ?thesis
      using es unfolding Request SignCommitVote by (simp add: node_step_commit [OF run] split: outcome.splits)
  qed (use es Request in \<open>auto simp: node_step_silent unwritten_sign_proposal [OF u, unfolded unwritten_def]
        unwritten_consensus_state [OF u, unfolded unwritten_def]\<close>)
qed (use es in \<open>simp add: safety_rules_new_def\<close>)

lemma handle_input_disk:
  assumes c: "rules_coherent ops sr" and run: "handle_input cr ops now info input sr = (r, sr')"
  shows "disk ops sr' = disk ops sr \<or>
    (\<exists>d d'. disk ops sr = Some d \<and> disk ops sr' = Some d' \<and>
       (sd_epoch d < sd_epoch d' \<or>
        sd_epoch d = sd_epoch d' \<and> sd_last_voted_round d \<le> sd_last_voted_round d' \<and>
        sd_one_chain_round d \<le> sd_one_chain_round d') \<and>
       ((\<exists>pr. input = Initialize pr) \<or> (\<exists>vt. r = Ok (Out_Vote (Inr vt))) \<or>
        (\<exists>sig. r = Ok (Out_Signature (Inr sig)))))"
proof (cases input)
  case (Initialize pr)
  obtain r' sr'' where i: "guarded_initialize cr ops pr sr = (r', sr'')" by fastforce
  with run Initialize have "sr' = sr''" by (auto dest: arg_cong [where f = snd])
  then show ?thesis using initialize_cases [OF c i] Initialize by (auto simp: unwritten_def)
next
  case (SignTimeoutWithQC t maybe_tc)
  obtain r' sr'' where i: "guarded_sign_timeout_with_qc cr ops t maybe_tc sr = (r', sr'')" by fastforce
  have "sr' = sr''" "\<And>sig. r' = Ok sig \<Longrightarrow> r = Ok (Out_Signature (Inr sig))"
    using run SignTimeoutWithQC i by (auto simp: result_of_def split: outcome.splits)
  then show ?thesis using timeout_cases [OF c i] by (auto simp: unwritten_def)
next
  case (ConstructAndSignVoteTwoChain vp maybe_tc)
  obtain r' sr'' where i: "guarded_construct_and_sign_vote_two_chain cr ops now vp maybe_tc sr = (r', sr'')" by fastforce
  have "sr' = sr''" "\<And>vt. r' = Ok vt \<Longrightarrow> r = Ok (Out_Vote (Inr vt))"
    using run ConstructAndSignVoteTwoChain i by (auto simp: result_of_def split: outcome.splits)
  then show ?thesis using vote_cases [OF c i] by (fastforce simp: unwritten_def)
next
  case ConsensusState
  then have "sr' = snd (guarded_consensus_state ops info sr)" using run by (auto dest: arg_cong [where f = snd])
  then show ?thesis using unwritten_consensus_state [OF unwritten_refl [OF c]] by (simp add: unwritten_def)
next
  case (SignProposal bd)
  then have "sr' = snd (guarded_sign_proposal cr ops bd sr)" using run by (auto dest: arg_cong [where f = snd])
  then show ?thesis by (simp add: unwritten_sign_proposal [OF unwritten_refl [OF c], unfolded unwritten_def])
next
  case (SignCommitVote lis new_li)
  then have "sr' = snd (guarded_sign_commit_vote cr lis new_li sr)" using run by (auto dest: arg_cong [where f = snd])
  then show ?thesis by (simp add: guarded_sign_commit_vote_def)
qed

lemma node_inv_start: "node_start ops sr \<Longrightarrow> node_inv ops (node_new sr)"
  by (auto simp: node_start_def node_new_def node_inv_def history_ok_def one_vote_per_round_def
      timeouts_respect_votes_def split: option.splits)

lemma node_inv_run: "node_inv ops n \<Longrightarrow> node_inv ops (node_run cr ops evs n)"
  unfolding node_run_def by (induction evs arbitrary: n) (simp_all add: node_inv_step)

end

section \<open>A sample epoch\<close>

definition sample_crypto :: crypto where
  "sample_crypto =
     \<lparr>vsig_ledger_info = (\<lambda>pk li sig. sig = pk), hash_waypoint = (\<lambda>c. ucast (l2w_version c)),
      hash_ledger_info = (\<lambda>li. consensus_data_hash li), hash_vote_data = (\<lambda>vd. ucast (bi_round (vd_proposed vd))),
      hash_block_data = (\<lambda>bd. ucast (bd_round bd)), vsig_block_data = (\<lambda>pk bd sig. sig = pk),
      vsig_timeout = (\<lambda>pk t sig. sig = pk), sign_ledger_info = (\<lambda>sk li. sk), sign_block_data = (\<lambda>sk bd. sk),
      sign_timeout = (\<lambda>sk t. sk), public_key_of = (\<lambda>sk. sk), txn_accumulator_hasher = (\<lambda>l r. l + r)\<rparr>"

definition sample_epoch_state :: epoch_state where
  "sample_epoch_state = \<lparr>es_epoch = 1, es_verifier = four_verifier\<rparr>"

definition sample_info :: "nat \<Rightarrow> block_info" where
  "sample_info k =
     \<lparr>bi_epoch = 1, bi_round = of_nat k, bi_id = of_nat k, bi_executed_state_id = accumulator_placeholder_hash,
      bi_version = 0, bi_timestamp_usecs = of_nat k, bi_next_epoch_state = None\<rparr>"

definition sample_li :: "nat \<Rightarrow> ledger_info" where
  "sample_li k = \<lparr>commit_info = sample_info (k - 1), consensus_data_hash = of_nat k\<rparr>"

definition sample_qc :: "nat \<Rightarrow> quorum_cert" where
  "sample_qc k =
     \<lparr>qc_vote_data = \<lparr>vd_proposed = sample_info k, vd_parent = sample_info (k - 1)\<rparr>,
      qc_signed_ledger_info =
        lis_new (sample_li k) (if k = 0 then fmempty else fmupd 1 [1] (fmupd 2 [2] (fmupd 3 [3] fmempty)))\<rparr>"

definition sample_block :: "nat \<Rightarrow> block" where
  "sample_block k = new_proposal_from_block_data_and_signature sample_crypto
     \<lparr>bd_epoch = 1, bd_round = of_nat k, bd_timestamp_usecs = of_nat k, bd_quorum_cert = sample_qc (k - 1),
      bd_block_type = Proposal payload_new_empty 4 []\<rparr> [4]"

definition sample_vote_proposal :: "nat \<Rightarrow> vote_proposal" where
  "sample_vote_proposal k =
     \<lparr>vp_accumulator_extension_proof = \<lparr>aep_frozen_subtree_roots = [], aep_num_leaves = 0, aep_leaves = []\<rparr>,
      vp_block = sample_block k, vp_next_epoch_state = None, vp_decoupled_execution = True\<rparr>"

definition sample_vote :: "author \<Rightarrow> nat \<Rightarrow> vote" where
  "sample_vote a k = vote_new_with_signature (qc_vote_data (sample_qc k)) a (sample_li k) [ucast a]"

lemmas sample_defs = sample_crypto_def sample_epoch_state_def sample_info_def sample_li_def sample_qc_def
  sample_block_def sample_vote_proposal_def sample_vote_def

lemma sample_vsig: "vsig_block_data sample_crypto pk bd sig = (sig = pk)"
  by (simp add: sample_crypto_def)

lemma sample_qc_verify:
  "qc_verify sample_crypto (sample_qc 0) four_verifier = Ok ()"
  "qc_verify sample_crypto (sample_qc 1) four_verifier = Ok ()"
  "qc_verify sample_crypto (sample_qc 2) four_verifier = Ok ()"
  "qc_verify sample_crypto (sample_qc 3) four_verifier = Ok ()"
  by (simp_all add: qc_verify_Ok sample_defs certified_block_def parent_block_def qc_commit_info_def
     vote_data_verify_Ok lis_verify_signatures_Ok four_verifier_public_key four_verifier_simps
     check_voting_power_four bt_len_def)

text \<open>A process of the sample epoch that last voted in round \<open>k\<close>.\<close>

definition sample_ready :: "author \<Rightarrow> nat \<Rightarrow> in_memory_storage safety_rules \<Rightarrow> bool" where
  "sample_ready a k sr =
     (validator_signer sr = Some \<lparr>vs_author = a, vs_private_key = [ucast a]\<rparr> \<and>
      sr_epoch_state sr = Some sample_epoch_state \<and>
      enable_cached_safety_data (persistent_storage sr) \<and>
      (\<exists>d. cached_safety_data (persistent_storage sr) = Some d \<and> sd_epoch d = 1 \<and>
         sd_last_voted_round d = of_nat k \<and> sd_one_chain_round d = of_nat (k - 1) \<and>
         (\<forall>vt. sd_last_vote d = Some vt \<longrightarrow> vote_round vt = of_nat k)))"

lemma sample_proposal_ok:
  assumes "k \<in> {1, 2, 3}"
  shows "blk_epoch (sample_block k) = 1" "blk_round (sample_block k) = of_nat k"
    "blk_quorum_cert (sample_block k) = sample_qc (k - 1)"
    "validate_signature sample_crypto (sample_block k) four_verifier = Ok ()"
    "verify_well_formed 0 (sample_block k) = Ok ()"
    "gen_vote_data sample_crypto (sample_vote_proposal k) = Ok (qc_vote_data (sample_qc k))"
    "safe_to_vote (sample_block k) None = Ok ()"
    "construct_ledger_info_2chain (sample_block k) (hash_vote_data sample_crypto (qc_vote_data (sample_qc k))) =
       Ok (sample_li k)"
proof -
  show "blk_epoch (sample_block k) = 1" "blk_round (sample_block k) = of_nat k"
    "blk_quorum_cert (sample_block k) = sample_qc (k - 1)"
    by (simp_all add: sample_block_def new_proposal_from_block_data_and_signature_def)
  show "validate_signature sample_crypto (sample_block k) four_verifier = Ok ()"
    using assms sample_qc_verify
    by (auto simp: validate_signature_def sample_block_def new_proposal_from_block_data_and_signature_def
        verifier_verify_def four_verifier_public_key sample_vsig lift_verify_def)
  show "verify_well_formed 0 (sample_block k) = Ok ()"
    using assms
    by (auto simp: verify_well_formed_def sample_block_def new_proposal_from_block_data_and_signature_def
        Let_def sample_defs certified_block_def is_genesis_block_def has_reconfiguration_def bd_failed_authors_def
        is_nil_block_def add_panic_def checked_add_def checked_sub_def saturating_add_def block_timebound_def
        qc_ends_epoch_def li_accessors)
  show "gen_vote_data sample_crypto (sample_vote_proposal k) = Ok (qc_vote_data (sample_qc k))"
    using assms
    by (auto simp: gen_vote_data_def vote_data_ordering_only_def gen_block_info_def sample_defs
        new_proposal_from_block_data_and_signature_def certified_block_def)
  show "safe_to_vote (sample_block k) None = Ok ()"
    using assms
    by (auto simp: safe_to_vote_def sample_block_def new_proposal_from_block_data_and_signature_def
        Let_def sample_defs certified_block_def next_round_def checked_add_def)
  show "construct_ledger_info_2chain (sample_block k) (hash_vote_data sample_crypto (qc_vote_data (sample_qc k))) =
       Ok (sample_li k)"
    using assms
    by (auto simp: construct_ledger_info_2chain_def sample_block_def new_proposal_from_block_data_and_signature_def
        Let_def sample_defs certified_block_def next_round_def checked_add_def)
qed

lemma in_memory_set_safety_data:
  "set_safety_data in_memory_ops d p =
     (Ok (), p\<lparr>cached_safety_data := Some d,
        internal_store := snd (in_memory_set safety_data_key (V_SafetyData d) (internal_store p))\<rparr>)"
  by (simp add: set_safety_data_def in_memory_ops_def in_memory_set_def)

lemma sample_round_neq:
  assumes "k \<in> {1, 2, 3}"
  shows "(of_nat (k - 1) :: u64) < of_nat k"
  using assms by auto

lemma sample_vote_signed:
  assumes ready: "sample_ready a (k - 1) sr" and k: "k \<in> {1, 2, 3}"
  shows "\<exists>sr'. guarded_construct_and_sign_vote_two_chain sample_crypto in_memory_ops 0
      (sample_vote_proposal k) None sr = (Ok (sample_vote a k), sr') \<and> sample_ready a k sr'"
proof -
  obtain d where d: "cached_safety_data (persistent_storage sr) = Some d" "sd_epoch d = 1"
      "sd_last_voted_round d = of_nat (k - 1)" "sd_one_chain_round d = of_nat (k - 1 - 1)"
      "\<And>vt. sd_last_vote d = Some vt \<Longrightarrow> vote_round vt = of_nat (k - 1)"
      and sg: "validator_signer sr = Some \<lparr>vs_author = a, vs_private_key = [ucast a]\<rparr>"
      and es: "sr_epoch_state sr = Some sample_epoch_state"
      and on: "enable_cached_safety_data (persistent_storage sr)"
    using ready by (auto simp: sample_ready_def)
  note ok = sample_proposal_ok [OF k] and lt = sample_round_neq [OF k]
  have blk: "vp_block (sample_vote_proposal k) = sample_block k" by (simp add: sample_vote_proposal_def)
  have es_v: "es_verifier sample_epoch_state = four_verifier" by (simp add: sample_epoch_state_def)
  have qc: "qc_verify sample_crypto (sample_qc (k - 1)) four_verifier = Ok ()"
    using k sample_qc_verify by auto
  let ?p = "persistent_storage sr"
  have read: "pss_safety_data in_memory_ops ?p = (Ok d, ?p)" using d(1) on by (simp add: pss_safety_data_def)
  have vt: "sample_vote a k = vote_new_with_signature (qc_vote_data (sample_qc k)) a (sample_li k)
      (sign_ledger_info sample_crypto [ucast a] (sample_li k))"
    by (simp add: sample_vote_def sample_crypto_def)
  have neq: "(of_nat (k - 1) :: u64) \<noteq> of_nat k" using lt by simp
  have "guarded_construct_and_sign_vote_two_chain sample_crypto in_memory_ops 0 (sample_vote_proposal k) None sr =
      (Ok (sample_vote a k), sr\<lparr>persistent_storage := snd (set_safety_data in_memory_ops
        ((snd (observe_qc (sample_qc (k - 1)) (d\<lparr>sd_last_voted_round := of_nat k\<rparr>)))
           \<lparr>sd_last_vote := Some (sample_vote a k)\<rparr>) ?p)\<rparr>)"
    by (rule vote_succeeds [OF sg es read read, where vd = "qc_vote_data (sample_qc k)" and li = "sample_li k"])
      (use ok d lt neq qc vt in \<open>auto simp: blk es_v in_memory_set_safety_data\<close>)
  moreover have "sample_ready a k (sr\<lparr>persistent_storage := snd (set_safety_data in_memory_ops
        ((snd (observe_qc (sample_qc (k - 1)) (d\<lparr>sd_last_voted_round := of_nat k\<rparr>)))
           \<lparr>sd_last_vote := Some (sample_vote a k)\<rparr>) ?p)\<rparr>)"
    using d sg es on k
    by (simp add: sample_ready_def in_memory_set_safety_data observe_qc_simps)
      (auto simp: sample_vote_def vote_new_with_signature_def sample_qc_def sample_info_def certified_block_def)
  ultimately show ?thesis by blast
qed

text \<open>A fresh process, and its initialization from the waypoint of the ledger info that ends epoch 0.\<close>

definition sample_storage :: "author \<Rightarrow> in_memory_storage persistent_safety_storage" where
  "sample_storage a =
     (case (pss_initialize in_memory_ops (in_memory_new 0) a [ucast a]
        (waypoint_new_any sample_crypto (lis_ledger_info sample_epoch_li)) True :: (sr_error, _) outcome) of
        Ok p \<Rightarrow> p | _ \<Rightarrow> pss_new (in_memory_new 0) True)"

definition sample_start :: "author \<Rightarrow> in_memory_storage safety_rules" where
  "sample_start a = safety_rules_new (sample_storage a)"

definition sample_epoch_proof :: epoch_change_proof where
  "sample_epoch_proof = \<lparr>ledger_info_with_sigs = [sample_epoch_li], ecp_more = False\<rparr>"

lemma sample_storage_eq:
  "sample_storage a =
     \<lparr>enable_cached_safety_data = True, cached_safety_data = Some initial_safety_data,
      internal_store = \<lparr>ims_data = (\<lambda>_. None)
        (consensus_key := Some \<lparr>last_update = 0, gr_value = V_PrivateKey [ucast a]\<rparr>,
         owner_account := Some \<lparr>last_update = 0, gr_value = V_Author a\<rparr>,
         safety_data_key := Some \<lparr>last_update = 0, gr_value = V_SafetyData initial_safety_data\<rparr>,
         waypoint_key := Some \<lparr>last_update = 0,
           gr_value = V_Waypoint (waypoint_new_any sample_crypto (lis_ledger_info sample_epoch_li))\<rparr>),
        ims_now_secs = 0\<rparr>\<rparr>"
  by (simp add: sample_storage_def pss_initialize_def initialize_keys_and_accounts_def in_memory_new_def
      in_memory_ops_def in_memory_set_def set_safety_data_def set_waypoint_def lift_storage_def)

lemma sample_node_start: "node_start in_memory_ops (sample_start a)"
  by (simp add: node_start_def sample_start_def safety_rules_new_def sample_storage_eq rules_coherent_def
      coherent_def disk_def persisted_def get_value_def in_memory_ops_def in_memory_get_def
      safety_data_key_def waypoint_key_def initial_safety_data_def)

lemma sample_initialized:
  assumes "a \<in> {1, 2, 3, 4}"
  shows "\<exists>sr. guarded_initialize sample_crypto in_memory_ops sample_epoch_proof (sample_start a) = (Ok (), sr) \<and>
    sample_ready a 0 sr"
proof -
  let ?w = "waypoint_new_any sample_crypto (lis_ledger_info sample_epoch_li)"
  have ver: "epoch_change_proof_verify sample_crypto sample_epoch_proof (waypoint_verifier sample_crypto ?w) =
      Ok sample_epoch_li"
    by (simp add: epoch_change_proof_verify_def sample_epoch_proof_def waypoint_verifier_def)
      (simp add: sample_epoch_li_def li_accessors)
  have nes: "li_next_epoch_state (lis_ledger_info sample_epoch_li) = Some sample_epoch_state"
    by (simp add: sample_epoch_li_def li_accessors sample_epoch_state_def)
  have wp: "waypoint_new_epoch_boundary sample_crypto (lis_ledger_info sample_epoch_li) = Ok ?w"
    by (simp add: waypoint_new_epoch_boundary_def sample_epoch_li_def li_accessors)
  have pk: "get_public_key (es_verifier sample_epoch_state) a = Some [ucast a]"
    using assms by (auto simp: sample_epoch_state_def four_verifier_public_key)
  have read: "pss_waypoint in_memory_ops (sample_storage a) = Ok ?w" "pss_author in_memory_ops (sample_storage a) = Ok a"
      "pss_safety_data in_memory_ops (sample_storage a) = (Ok initial_safety_data, sample_storage a)"
      "consensus_key_for_version sample_crypto in_memory_ops (sample_storage a) [ucast a] = Ok [ucast a]"
    by (simp_all add: sample_storage_eq pss_waypoint_def pss_author_def pss_safety_data_def
        consensus_key_for_version_def get_value_def in_memory_ops_def in_memory_get_def lift_storage_def
        consensus_key_def owner_account_def safety_data_key_def waypoint_key_def sample_crypto_def)
  have "guarded_initialize sample_crypto in_memory_ops sample_epoch_proof (sample_start a) =
      (Ok (), \<lparr>persistent_storage = sample_storage a,
        validator_signer = Some \<lparr>vs_author = a, vs_private_key = [ucast a]\<rparr>,
        sr_epoch_state = Some sample_epoch_state\<rparr>)"
    using ver nes wp pk read
    by (simp add: guarded_initialize_def sample_start_def safety_rules_new_def sbind_def on_storage_def sread_def
        slift_def initial_safety_data_def reconcile_key_def Let_def)
      (simp add: sample_epoch_state_def)
  then show ?thesis
    by (simp add: sample_ready_def) (simp add: sample_storage_eq initial_safety_data_def)
qed

section \<open>Properties\<close>

definition sample_timeout :: "nat \<Rightarrow> two_chain_timeout" where
  "sample_timeout k = \<lparr>tct_epoch = 1, tct_round = of_nat k, tct_quorum_cert = sample_qc (k - 1)\<rparr>"

definition sample_events :: "node_event list" where
  "sample_events =
     [Request 0 False (Initialize sample_epoch_proof),
      Request 0 False (ConstructAndSignVoteTwoChain (sample_vote_proposal 1) None),
      Request 0 False (ConstructAndSignVoteTwoChain (sample_vote_proposal 2) None),
      Request 0 False (SignTimeoutWithQC (sample_timeout 2) None)]"

lemma sample_step_vote:
  assumes "sample_ready a (k - 1) (nd_rules n)" "k \<in> {1, 2, 3}"
  shows "sample_ready a k (nd_rules (node_step sample_crypto in_memory_ops
      (Request 0 info (ConstructAndSignVoteTwoChain (sample_vote_proposal k) None)) n)) \<and>
    nd_votes (node_step sample_crypto in_memory_ops
      (Request 0 info (ConstructAndSignVoteTwoChain (sample_vote_proposal k) None)) n) =
      sample_vote a k # nd_votes n"
proof -
  obtain sr' where run: "guarded_construct_and_sign_vote_two_chain sample_crypto in_memory_ops 0
      (sample_vote_proposal k) None (nd_rules n) = (Ok (sample_vote a k), sr')" and "sample_ready a k sr'"
    using sample_vote_signed [OF assms] by blast
  then show ?thesis by (simp add: node_step_vote [OF run])
qed

lemma sample_step_initialize:
  assumes "a \<in> {1, 2, 3, 4}"
  shows "sample_ready a 0 (nd_rules (node_step sample_crypto in_memory_ops
      (Request now info (Initialize sample_epoch_proof)) (node_new (sample_start a)))) \<and>
    nd_votes (node_step sample_crypto in_memory_ops
      (Request now info (Initialize sample_epoch_proof)) (node_new (sample_start a))) = []"
  using sample_initialized [OF assms] by (auto simp: node_step_silent node_new_def)

lemma sample_timeout_signed:
  assumes "sample_ready a 2 sr"
  shows "guarded_sign_timeout_with_qc sample_crypto in_memory_ops (sample_timeout 2) None sr = (Ok [ucast a], sr)"
proof -
  obtain d where d: "cached_safety_data (persistent_storage sr) = Some d" "sd_epoch d = 1"
      "sd_last_voted_round d = 2" "sd_one_chain_round d = 1"
      and sg: "validator_signer sr = Some \<lparr>vs_author = a, vs_private_key = [ucast a]\<rparr>"
      and es: "sr_epoch_state sr = Some sample_epoch_state" and on: "enable_cached_safety_data (persistent_storage sr)"
    using assms by (auto simp: sample_ready_def)
  have t: "tct_epoch (sample_timeout 2) = 1" "tct_round (sample_timeout 2) = 2" "hqc_round (sample_timeout 2) = 1"
      "tct_quorum_cert (sample_timeout 2) = sample_qc 1"
    by (simp_all add: sample_timeout_def hqc_round_def certified_block_def sample_qc_def sample_info_def)
  have es_v: "es_verifier sample_epoch_state = four_verifier" by (simp add: sample_epoch_state_def)
  have sign: "sign_timeout sample_crypto sk m = sk" for sk m by (simp add: sample_crypto_def)
  have "pss_safety_data in_memory_ops (persistent_storage sr) = (Ok d, persistent_storage sr)"
    using d(1) on by (simp add: pss_safety_data_def)
  moreover have "timeout_verify sample_crypto (sample_timeout 2) four_verifier = Ok ()"
    using sample_qc_verify t by (simp add: timeout_verify_Ok)
  moreover have "safe_to_timeout (sample_timeout 2) None d = Ok ()"
    using t d by (simp add: safe_to_timeout_def Let_def next_round_def checked_add_def)
  ultimately show ?thesis
    using d sg es t
    by (simp add: guarded_sign_timeout_with_qc_def sbind_def sread_def slift_def on_storage_def signer_def
        epoch_state_of_def verify_epoch_def verify_maybe_tc_def sr_sign_signer es_v sign)
qed

lemma sample_step_timeout:
  assumes "sample_ready a 2 (nd_rules n)"
  shows "node_step sample_crypto in_memory_ops (Request 0 info (SignTimeoutWithQC (sample_timeout 2) None)) n =
    n\<lparr>nd_timeouts := sample_timeout 2 # nd_timeouts n\<rparr>"
  using sample_timeout_signed [OF assms] by (simp add: node_step_timeout)

lemma sample_run:
  "nd_votes (node_run sample_crypto in_memory_ops sample_events (node_new (sample_start 1))) =
     [sample_vote 1 2, sample_vote 1 1]"
  "sample_timeout 2 \<in> set (nd_timeouts (node_run sample_crypto in_memory_ops sample_events (node_new (sample_start 1))))"
  using sample_step_initialize [of 1 0 False] sample_step_vote [of 1 1 _ False] sample_step_vote [of 1 2 _ False]
    sample_step_timeout [of 1 _ False]
  by (simp_all add: node_run_def sample_events_def)

text \<open>C2: a validator never signs two different votes for one round of one epoch.  Whatever requests a
  safety-rules process receives, in any order and with any number of restarts in between, any two votes
  that it hands out for the same epoch and round are the same vote.\<close>

theorem votes_unique_per_round:
  assumes "kv_storage ops" "node_start ops sr"
  shows "one_vote_per_round (set (nd_votes (node_run cr ops evs (node_new sr))))"
  using kv_storage.node_inv_run [OF assms(1) kv_storage.node_inv_start [OF assms], of cr evs]
  by (simp add: node_inv_def history_ok_def)

theorem votes_unique_per_round_witness:
  "sample_vote 1 1 \<in> set (nd_votes (node_run sample_crypto in_memory_ops sample_events (node_new (sample_start 1)))) \<and>
   one_vote_per_round (set (nd_votes (node_run sample_crypto in_memory_ops sample_events (node_new (sample_start 1)))))"
  using votes_unique_per_round [OF ims.kv_storage_axioms sample_node_start, of sample_crypto sample_events 1]
  by (simp add: sample_run)

text \<open>C3: a timeout never hides a vote.  When a process has signed a vote of some round and a timeout of
  the same or a later round of the epoch, in either order and across restarts, the timeout reports a
  quorum certificate whose round is at least the round of the vote's parent.\<close>

theorem timeouts_report_votes:
  assumes "kv_storage ops" "node_start ops sr"
  shows "timeouts_respect_votes (set (nd_votes (node_run cr ops evs (node_new sr))))
    (set (nd_timeouts (node_run cr ops evs (node_new sr))))"
  using kv_storage.node_inv_run [OF assms(1) kv_storage.node_inv_start [OF assms], of cr evs]
  by (simp add: node_inv_def history_ok_def)

theorem timeouts_report_votes_witness:
  "sample_vote 1 2 \<in> set (nd_votes (node_run sample_crypto in_memory_ops sample_events (node_new (sample_start 1)))) \<and>
   sample_timeout 2 \<in> set (nd_timeouts (node_run sample_crypto in_memory_ops sample_events (node_new (sample_start 1)))) \<and>
   timeouts_respect_votes
     (set (nd_votes (node_run sample_crypto in_memory_ops sample_events (node_new (sample_start 1)))))
     (set (nd_timeouts (node_run sample_crypto in_memory_ops sample_events (node_new (sample_start 1)))))"
  using timeouts_report_votes [OF ims.kv_storage_axioms sample_node_start, of sample_crypto sample_events 1]
  by (simp add: sample_run)








end
