(* ===== verification/Two_Chain_Safety.thy ===== *)
theory Two_Chain_Safety
  imports Safety_Service
begin

text \<open>
  Agreement of the 2-chain protocol, for a set of validators whose honest members run the safety
  rules of \<open>Safety_Rules\<close> through the requests of \<open>Safety_Service\<close>, in any interleaving, with
  restarts, while the others sign whatever they like.

  A \<open>world\<close> has one process per validator, and the vote data of the certificates that were presented
  to honest processes.  The adversary chooses every request.  Its limits are the premises of the step
  relation, collected in \<open>request_ok\<close>:

  \<^item> signatures of honest validators cannot be forged: one that verifies inside a presented
    certificate was handed out before (\<open>authentic_lis\<close>, \<open>authentic_tc\<close>);
  \<^item> the caller of the voting method presents timeout certificates of the block's epoch, which
    \<open>SyncInfo::verify\<close> checks and \<open>SafetyRules::verify_tc\<close> does not;
  \<^item> the caller of the commit-vote method asks for the ledger info of an ordering certificate of the
    current epoch and keeps its \<open>consensus_data_hash\<close>, which \<open>guarded_sign_commit_vote\<close> does not check;
  \<^item> an initialization into the epoch under study installs its validator set.
\<close>

section \<open>Worlds\<close>










section \<open>Histories only grow\<close>








section \<open>The invariant of a world\<close>









section \<open>Certificates\<close>





section \<open>The invariant holds\<close>


section \<open>Agreement\<close>









section \<open>A sample execution\<close>












section \<open>Properties\<close>



end
