(* ===== verification/Pending_Votes.thy ===== *)
theory Pending_Votes
  imports Safety_Service
begin

text \<open>
  The votes collected for one round (\<open>src/consensus/src/pending_votes.rs\<close>): \<open>insert_vote\<close> aggregates
  them into a quorum certificate or a timeout certificate.

  The hash maps of the source are partial functions, since their iteration order is not used.  The
  votes given to \<open>insert_vote\<close> have passed \<open>Vote::verify\<close>, which is the hypothesis \<open>votes_ok\<close> of the
  properties; the digest of a ledger info is collision free on the ledger infos of the round.
\<close>

section \<open>Definitions\<close>

datatype vote_reception_result =
    VoteAdded u64
  | DuplicateVote
  | EquivocateVote
  | NewQuorumCertificate quorum_cert
  | New2ChainTimeoutCertificate two_chain_timeout_certificate
  | ErrorAddingVote verify_error
  | UnexpectedRound u64 u64
  | EchoTimeout u64

record pending_votes =
  li_digest_to_votes :: "hash_value \<Rightarrow> ledger_info_with_signatures option"
  maybe_partial_2chain_tc :: "two_chain_timeout_certificate option"
  author_to_vote :: "author \<Rightarrow> vote option"
  echo_timeout :: bool

definition pending_votes_new :: pending_votes where
  "pending_votes_new =
     \<lparr>li_digest_to_votes = (\<lambda>_. None), maybe_partial_2chain_tc = None, author_to_vote = (\<lambda>_. None),
      echo_timeout = False\<rparr>"

text \<open>The fourth step of \<open>insert_vote\<close>: the timeout part of the vote, the quorum part having \<open>voting_power\<close>.\<close>

definition insert_timeout ::
    "vote \<Rightarrow> validator_verifier \<Rightarrow> u64 \<Rightarrow> pending_votes \<Rightarrow>
     ('e, vote_reception_result) outcome \<times> pending_votes" where
  "insert_timeout vt v voting_power pv =
     (case vote_two_chain_timeout vt of
        None \<Rightarrow> (Ok (VoteAdded voting_power), pv)
      | Some (t, sig) \<Rightarrow>
          let partial_tc = tc_add (case maybe_partial_2chain_tc pv of None \<Rightarrow> tc_new t | Some tc \<Rightarrow> tc)
                (vote_author vt) t sig;
              pv1 = pv\<lparr>maybe_partial_2chain_tc := Some partial_tc\<rparr>
          in (case check_voting_power v (tc_signers partial_tc) of
                Ok _ \<Rightarrow> (Ok (New2ChainTimeoutCertificate partial_tc), pv1)
              | Err (TooLittleVotingPower tc_voting_power _) \<Rightarrow>
                  if echo_timeout pv1 then (Ok (VoteAdded voting_power), pv1)
                  else (case and_then (sub_panic (total_voting_power v) (quorum_voting_power v)) (\<lambda>f. add_panic f 1) of
                          Ok f_plus_one \<Rightarrow>
                            if tc_voting_power \<ge> f_plus_one
                            then (Ok (EchoTimeout tc_voting_power), pv1\<lparr>echo_timeout := True\<rparr>)
                            else (Ok (VoteAdded voting_power), pv1)
                        | Err e \<Rightarrow> (Err e, pv1)
                        | Panic \<Rightarrow> (Panic, pv1))
              | Err e \<Rightarrow> (Ok (ErrorAddingVote e), pv1)
              | Panic \<Rightarrow> (Panic, pv1)))"

text \<open>The second and third step: the vote is stored, and its signature counted.\<close>

definition insert_new_vote ::
    "'z crypto_scheme \<Rightarrow> vote \<Rightarrow> validator_verifier \<Rightarrow> pending_votes \<Rightarrow>
     ('e, vote_reception_result) outcome \<times> pending_votes" where
  "insert_new_vote cr vt v pv =
     (let li_digest = hash_ledger_info cr (vote_ledger_info vt);
          entry = (case li_digest_to_votes pv li_digest of
                     Some lis \<Rightarrow> lis | None \<Rightarrow> lis_new (vote_ledger_info vt) fmempty);
          li_with_sig = add_signature (vote_author vt) (vote_signature vt) entry;
          pv1 = pv\<lparr>author_to_vote := (author_to_vote pv)(vote_author vt := Some vt),
                   li_digest_to_votes := (li_digest_to_votes pv)(li_digest := Some li_with_sig)\<rparr>
      in (case check_voting_power v (bt_keys (lis_signatures li_with_sig)) of
            Ok _ \<Rightarrow>
              (Ok (NewQuorumCertificate
                 \<lparr>qc_vote_data = vote_vote_data vt, qc_signed_ledger_info = li_with_sig\<rparr>), pv1)
          | Err (TooLittleVotingPower voting_power _) \<Rightarrow> insert_timeout vt v voting_power pv1
          | Err e \<Rightarrow> (Ok (ErrorAddingVote e), pv1)
          | Panic \<Rightarrow> (Panic, pv1)))"

definition insert_vote ::
    "'z crypto_scheme \<Rightarrow> vote \<Rightarrow> validator_verifier \<Rightarrow> pending_votes \<Rightarrow>
     ('e, vote_reception_result) outcome \<times> pending_votes" where
  "insert_vote cr vt v pv =
     (case author_to_vote pv (vote_author vt) of
        Some previously_seen_vote \<Rightarrow>
          if hash_ledger_info cr (vote_ledger_info vt) =
             hash_ledger_info cr (vote_ledger_info previously_seen_vote)
          then (if is_timeout vt \<and> \<not> is_timeout previously_seen_vote
                then insert_new_vote cr vt v pv else (Ok DuplicateVote, pv))
          else (Ok EquivocateVote, pv)
      | None \<Rightarrow> insert_new_vote cr vt v pv)"

text \<open>A sequence of votes, with all the results.\<close>

fun insert_votes ::
    "'z crypto_scheme \<Rightarrow> validator_verifier \<Rightarrow> vote list \<Rightarrow> pending_votes \<Rightarrow>
     ('e, vote_reception_result) outcome list \<times> pending_votes" where
  "insert_votes cr v [] pv = ([], pv)"
| "insert_votes cr v (vt # vts) pv =
     (case insert_vote cr vt v pv of (r, pv') \<Rightarrow>
      case insert_votes cr v vts pv' of (rs, pv'') \<Rightarrow> (r # rs, pv''))"

section \<open>The invariant\<close>

text \<open>The votes of one round, as the network layer hands them over.\<close>

definition votes_ok :: "'z crypto_scheme \<Rightarrow> validator_verifier \<Rightarrow> u64 \<Rightarrow> round \<Rightarrow> vote set \<Rightarrow> bool" where
  "votes_ok cr v e r V =
     (wf_verifier v \<and> members v \<noteq> {} \<and> set_power v (members v) \<noteq> 0 \<and>
      inj_on (hash_ledger_info cr) (vote_ledger_info ` V) \<and>
      (\<forall>vt\<in>V. vote_verify cr vt v = Ok () \<and> vote_epoch vt = e \<and> vote_round vt = r))"

definition lis_ok :: "'z crypto_scheme \<Rightarrow> validator_verifier \<Rightarrow> ledger_info_with_signatures \<Rightarrow> bool" where
  "lis_ok cr v lis =
     (\<forall>a sig. fmlookup (lis_signatures lis) a = Some sig \<longrightarrow>
        (\<exists>pk. get_public_key v a = Some pk \<and> vsig_ledger_info cr pk (lis_ledger_info lis) sig))"

definition partial_tc_ok ::
    "'z crypto_scheme \<Rightarrow> validator_verifier \<Rightarrow> u64 \<Rightarrow> round \<Rightarrow> two_chain_timeout_certificate \<Rightarrow> bool" where
  "partial_tc_ok cr v e r tc =
     (tct_epoch (tcc_timeout tc) = e \<and> tct_round (tcc_timeout tc) = r \<and>
      timeout_verify cr (tcc_timeout tc) v = Ok () \<and>
      (\<forall>a qr sig. fmlookup (tcc_signatures tc) a = Some (qr, sig) \<longrightarrow>
         qr \<le> hqc_round (tcc_timeout tc) \<and>
         (\<exists>pk. get_public_key v a = Some pk \<and>
            vsig_timeout cr pk \<lparr>tsr_epoch = e, tsr_round = r, tsr_hqc_round = qr\<rparr> sig)) \<and>
      (\<exists>a sig. fmlookup (tcc_signatures tc) a = Some (hqc_round (tcc_timeout tc), sig)))"

definition pending_ok ::
    "'z crypto_scheme \<Rightarrow> validator_verifier \<Rightarrow> u64 \<Rightarrow> round \<Rightarrow> vote set \<Rightarrow> pending_votes \<Rightarrow> bool" where
  "pending_ok cr v e r V pv =
     ((\<forall>a vt. author_to_vote pv a = Some vt \<longrightarrow> vt \<in> V \<and> vote_author vt = a) \<and>
      (\<forall>h lis. li_digest_to_votes pv h = Some lis \<longrightarrow>
         lis_ledger_info lis \<in> vote_ledger_info ` V \<and> h = hash_ledger_info cr (lis_ledger_info lis) \<and>
         lis_ok cr v lis \<and>
         (\<forall>a. a |\<in>| fmdom (lis_signatures lis) \<longrightarrow>
            (\<exists>vt. author_to_vote pv a = Some vt \<and> vote_ledger_info vt = lis_ledger_info lis))) \<and>
      (\<forall>tc. maybe_partial_2chain_tc pv = Some tc \<longrightarrow>
         partial_tc_ok cr v e r tc \<and>
         (\<forall>a. a |\<in>| fmdom (tcc_signatures tc) \<longrightarrow>
            (\<exists>vt. author_to_vote pv a = Some vt \<and> is_timeout vt))))"

section \<open>Lemmas\<close>

lemma vote_verify_Ok:
  "vote_verify cr vt v = Ok u \<longleftrightarrow>
     consensus_data_hash (vote_ledger_info vt) = hash_vote_data cr (vote_vote_data vt) \<and>
     (\<exists>pk. get_public_key v (vote_author vt) = Some pk \<and>
        vsig_ledger_info cr pk (vote_ledger_info vt) (vote_signature vt)) \<and>
     (\<forall>t sig. vote_two_chain_timeout vt = Some (t, sig) \<longrightarrow>
        tct_epoch t = vote_epoch vt \<and> tct_round t = vote_round vt \<and> timeout_verify cr t v = Ok () \<and>
        (\<exists>pk. get_public_key v (vote_author vt) = Some pk \<and> vsig_timeout cr pk (signing_format t) sig)) \<and>
     vote_data_verify (vote_vote_data vt) = Ok ()"
  by (auto simp: vote_verify_def outcome_simps verifier_verify_Ok split: option.splits)

lemma get_public_key_Some: "get_public_key v a = Some pk \<Longrightarrow> a \<in> members v"
  using get_public_key_members [of v a] by auto

lemma fold_max_eq:
  fixes m :: "'a::len word"
  assumes "\<And>x. x \<in> set xs \<Longrightarrow> x \<le> m" "m \<in> set xs"
  shows "fold max xs 0 = m"
proof (rule antisym)
  have "fold max xs z \<le> m" if "z \<le> m" for z
    using assms(1) that by (induction xs arbitrary: z) simp_all
  then show "fold max xs 0 \<le> m" by simp
  show "m \<le> fold max xs 0" using assms(2) by (rule fold_max_upper)
qed

lemma lis_ok_qc_verify:
  assumes wf: "wf_verifier v" and lis: "lis_ok cr v lis" "check_voting_power v (bt_keys (lis_signatures lis)) = Ok ()"
    and vd: "consensus_data_hash (lis_ledger_info lis) = hash_vote_data cr vd" "vote_data_verify vd = Ok ()"
  shows "qc_verify cr \<lparr>qc_vote_data = vd, qc_signed_ledger_info = lis\<rparr> v = Ok ()"
proof -
  have "bi_round (vd_parent vd) < bi_round (vd_proposed vd)" using vd(2) by (simp add: vote_data_verify_Ok)
  then have "bi_round (vd_proposed vd) \<noteq> 0" by auto
  moreover have "bt_len (lis_signatures lis) \<le> verifier_len v"
  proof -
    have "fset (fmdom (lis_signatures lis)) \<subseteq> members v" using check_voting_power_Ok_members [OF lis(2)] by simp
    then have "card (fset (fmdom (lis_signatures lis))) \<le> card (members v)" by (intro card_mono) auto
    then show ?thesis by (simp add: bt_len_card verifier_len_def fcard.rep_eq members_def)
  qed
  ultimately show ?thesis
    using lis vd by (auto simp: qc_verify_Ok certified_block_def lis_verify_signatures_Ok lis_ok_def)
qed

lemma partial_tc_verify:
  assumes tc: "partial_tc_ok cr v e r tc" and power: "check_voting_power v (tc_signers tc) = Ok ()"
  shows "tc_verify cr tc v = Ok ()"
proof -
  let ?t = "tcc_timeout tc" and ?it = "bt_iter (tcc_signatures tc)"
  have t: "tct_epoch ?t = e" "tct_round ?t = r" "timeout_verify cr ?t v = Ok ()"
    and sigs: "\<And>a qr sig. fmlookup (tcc_signatures tc) a = Some (qr, sig) \<Longrightarrow> qr \<le> hqc_round ?t \<and>
      (\<exists>pk. get_public_key v a = Some pk \<and>
         vsig_timeout cr pk \<lparr>tsr_epoch = e, tsr_round = r, tsr_hqc_round = qr\<rparr> sig)"
    and top: "\<exists>a sig. fmlookup (tcc_signatures tc) a = Some (hqc_round ?t, sig)"
    using tc by (auto simp: partial_tc_ok_def)
  have mem: "x \<in> set (map (fst \<circ> snd) ?it) \<longleftrightarrow> (\<exists>a sig. fmlookup (tcc_signatures tc) a = Some (x, sig))" for x
    by (force simp flip: in_bt_iter_iff simp: image_iff)
  have "fold max (map (fst \<circ> snd) ?it) 0 = hqc_round ?t"
  proof (rule fold_max_eq)
    show "x \<le> hqc_round ?t" if "x \<in> set (map (fst \<circ> snd) ?it)" for x
      using that sigs unfolding mem by blast
    show "hqc_round ?t \<in> set (map (fst \<circ> snd) ?it)" unfolding mem by (rule top)
  qed
  moreover have "\<exists>pk. get_public_key v a = Some pk \<and>
      vsig_timeout cr pk \<lparr>tsr_epoch = tct_epoch ?t, tsr_round = tct_round ?t, tsr_hqc_round = qr\<rparr> sig"
    if "(a, qr, sig) \<in> set ?it" for a qr sig
    using sigs [of a qr sig] that t by (simp add: in_bt_iter_iff)
  ultimately have "tc_verify_signatures cr ?t v 0 ?it = Ok (hqc_round ?t)"
    unfolding tc_verify_signatures_Ok by auto
  then show ?thesis
    using t power by (simp add: tc_verify_def tc_signers_def lift_verify_def)
qed

lemma check_voting_power_cases:
  assumes "wf_verifier v" "distinct as" "set as \<subseteq> members v"
  obtains "check_voting_power v as = Ok ()" "unat (quorum_voting_power v) \<le> set_power v (set as)"
  | "check_voting_power v as =
       Err (TooLittleVotingPower (of_nat (set_power v (set as))) (quorum_voting_power v))"
    "set_power v (set as) < unat (quorum_voting_power v)"
  using check_voting_power_eq [OF assms(1,2)] assms(3) by (metis not_le)

lemma f_plus_one_Ok:
  assumes "wf_verifier v" "members v \<noteq> {}" "set_power v (members v) \<noteq> 0"
  shows "\<exists>f. and_then (sub_panic (total_voting_power v) (quorum_voting_power v)) (\<lambda>f. add_panic f 1) = Ok f \<and>
    unat f = set_power v (members v) - unat (quorum_voting_power v) + 1"
proof -
  let ?t = "set_power v (members v)"
  have t: "unat (total_voting_power v) = ?t" "unat (quorum_voting_power v) = ?t * 2 div 3 + 1" "?t < 2 ^ 63"
    using assms by (auto simp: wf_verifier_def)
  then have le: "unat (quorum_voting_power v) \<le> unat (total_voting_power v)" using assms(3) by simp
  then obtain d where d: "checked_sub (total_voting_power v) (quorum_voting_power v) = Some d"
    by (simp add: checked_sub_def word_le_nat_alt)
  then have "unat d = ?t - unat (quorum_voting_power v)" using t by (simp add: checked_sub_unat)
  moreover from this t have "unat d + 1 < 2 ^ 64" by simp
  then obtain f where f: "checked_add d 1 = Some f" by (simp add: checked_add_def)
  ultimately show ?thesis
    using d checked_add_unat [OF f] by (simp add: sub_panic_def add_panic_def)
qed

section \<open>Every insertion keeps the invariant and returns valid certificates\<close>

definition result_ok :: "'z crypto_scheme \<Rightarrow> validator_verifier \<Rightarrow> ('e, vote_reception_result) outcome \<Rightarrow> bool" where
  "result_ok cr v res =
     (case res of
        Ok (NewQuorumCertificate qc) \<Rightarrow> qc_verify cr qc v = Ok ()
      | Ok (New2ChainTimeoutCertificate tc) \<Rightarrow> tc_verify cr tc v = Ok ()
      | Ok _ \<Rightarrow> True
      | _ \<Rightarrow> False)"

lemma partial_tc_ok_add:
  assumes old: "\<And>tc. m = Some tc \<Longrightarrow> partial_tc_ok cr v e r tc \<and> a |\<notin>| fmdom (tcc_signatures tc)"
    and t: "tct_epoch t = e" "tct_round t = r" "timeout_verify cr t v = Ok ()"
    and sig: "get_public_key v a = Some pk" "vsig_timeout cr pk (signing_format t) sig"
  shows "partial_tc_ok cr v e r (tc_add (case m of None \<Rightarrow> tc_new t | Some tc \<Rightarrow> tc) a t sig)"
proof (cases m)
  case None
  then show ?thesis
    using t sig by (auto simp: partial_tc_ok_def tc_add_def tc_new_def signing_format_def)
next
  case (Some tc)
  then have tc: "partial_tc_ok cr v e r tc" "a |\<notin>| fmdom (tcc_signatures tc)" using old by auto
  then have a: "fmlookup (tcc_signatures tc) a = None" by (simp add: fmdom_notD)
  obtain b sb where top: "fmlookup (tcc_signatures tc) b = Some (hqc_round (tcc_timeout tc), sb)"
    using tc(1) by (auto simp: partial_tc_ok_def)
  then have "b \<noteq> a" using a by auto
  have le: "qr \<le> hqc_round (tcc_timeout tc)" if "fmlookup (tcc_signatures tc) x = Some (qr, s)" for x qr s
    using tc(1) that by (auto simp: partial_tc_ok_def)
  show ?thesis
  proof (cases "hqc_round t > hqc_round (tcc_timeout tc)")
    case True
    then show ?thesis
      using tc(1) t sig Some le unfolding partial_tc_ok_def tc_add_def
      by (auto simp: signing_format_def intro: order_trans less_imp_le) (meson le_less_trans less_imp_le)+
  next
    case False
    then show ?thesis
      using tc(1) t sig Some top \<open>b \<noteq> a\<close> unfolding partial_tc_ok_def tc_add_def
      by (auto simp: signing_format_def)
  qed
qed

lemma lis_ok_add:
  assumes "lis_ok cr v lis" "get_public_key v a = Some pk" "vsig_ledger_info cr pk (lis_ledger_info lis) sig"
  shows "lis_ok cr v (add_signature a sig lis)"
  using assms by (auto simp: lis_ok_def)

lemma pending_ok_lis:
  assumes "pending_ok cr v e r V pv" "li_digest_to_votes pv h = Some lis"
  shows "lis_ledger_info lis \<in> vote_ledger_info ` V" "h = hash_ledger_info cr (lis_ledger_info lis)"
    "lis_ok cr v lis"
    "\<And>a. a |\<in>| fmdom (lis_signatures lis) \<Longrightarrow>
       \<exists>vt. author_to_vote pv a = Some vt \<and> vote_ledger_info vt = lis_ledger_info lis"
  using assms by (auto simp: pending_ok_def)

lemma pending_ok_tc:
  assumes "pending_ok cr v e r V pv" "maybe_partial_2chain_tc pv = Some tc"
  shows "partial_tc_ok cr v e r tc"
    "\<And>a. a |\<in>| fmdom (tcc_signatures tc) \<Longrightarrow> \<exists>vt. author_to_vote pv a = Some vt \<and> is_timeout vt"
  using assms by (auto simp: pending_ok_def)

lemma insert_timeout_ok:
  assumes V: "votes_ok cr v e r V" "vt \<in> V" and pv: "pending_ok cr v e r V pv"
    and stored: "author_to_vote pv (vote_author vt) = Some vt"
    and fresh: "\<And>tc. maybe_partial_2chain_tc pv = Some tc \<Longrightarrow> is_timeout vt \<Longrightarrow>
      vote_author vt |\<notin>| fmdom (tcc_signatures tc)"
    and run: "insert_timeout vt v vpw pv = ((res :: ('e, vote_reception_result) outcome), pv')"
  shows "pending_ok cr v e r V pv' \<and> result_ok cr v res"
proof (cases "vote_two_chain_timeout vt")
  case None
  then show ?thesis using run pv by (auto simp: insert_timeout_def result_ok_def)
next
  case (Some ts)
  obtain t sig where ts: "ts = (t, sig)" by fastforce
  have wf: "wf_verifier v" "members v \<noteq> {}" "set_power v (members v) \<noteq> 0" and ver: "vote_verify cr vt v = Ok ()"
    using V by (auto simp: votes_ok_def)
  obtain pk where t: "tct_epoch t = e" "tct_round t = r" "timeout_verify cr t v = Ok ()"
      "get_public_key v (vote_author vt) = Some pk" "vsig_timeout cr pk (signing_format t) sig"
    using ver Some ts V by (auto simp: vote_verify_Ok votes_ok_def)
  define tc where "tc = tc_add (case maybe_partial_2chain_tc pv of None \<Rightarrow> tc_new t | Some tc \<Rightarrow> tc) (vote_author vt) t sig"
  let ?pv = "pv\<lparr>maybe_partial_2chain_tc := Some tc\<rparr>"
  have tmo: "is_timeout vt" using Some by (simp add: is_timeout_def)
  have tc_ok: "partial_tc_ok cr v e r tc" unfolding tc_def
    using fresh tmo pv t by (intro partial_tc_ok_add) (auto simp: pending_ok_def)
  have signers: "set (tc_signers tc) \<subseteq> members v"
    using tc_ok unfolding partial_tc_ok_def tc_signers_def set_bt_keys
    by (auto simp: fmlookup_dom_iff) (blast dest: get_public_key_Some)
  have "a = vote_author vt \<or> (\<exists>tc0. maybe_partial_2chain_tc pv = Some tc0 \<and> a |\<in>| fmdom (tcc_signatures tc0))"
    if "a |\<in>| fmdom (tcc_signatures tc)" for a
    using that by (auto simp: tc_def tc_add_def tc_new_def split: option.splits)
  then have "\<exists>vt. author_to_vote pv a = Some vt \<and> is_timeout vt" if "a |\<in>| fmdom (tcc_signatures tc)" for a
    using that pending_ok_tc(2) [OF pv] stored tmo by blast
  then have pv1: "pending_ok cr v e r V ?pv"
    using pv tc_ok by (simp add: pending_ok_def)
  then have pv2: "pending_ok cr v e r V (?pv\<lparr>echo_timeout := b\<rparr>)" for b
    by (simp add: pending_ok_def)
  obtain f where f: "and_then (sub_panic (total_voting_power v) (quorum_voting_power v)) (\<lambda>f. add_panic f 1) =
      (Ok f :: ('e, _) outcome)"
    using f_plus_one_Ok [OF wf] by metis
  have "distinct (tc_signers tc)" by (simp add: tc_signers_def)
  from check_voting_power_cases [OF wf(1) this signers] show ?thesis
  proof cases
    case 1
    then have "(res, pv') = (Ok (New2ChainTimeoutCertificate tc), ?pv)"
      using run Some ts by (simp add: insert_timeout_def tc_def Let_def)
    then show ?thesis using pv1 partial_tc_verify [OF tc_ok 1(1)] by (auto simp: result_ok_def)
  next
    case 2
    let ?tcp = "of_nat (set_power v (set (tc_signers tc))) :: u64"
    have "(res, pv') =
        (if echo_timeout pv \<or> ?tcp < f then (Ok (VoteAdded vpw), ?pv)
         else (Ok (EchoTimeout ?tcp), ?pv\<lparr>echo_timeout := True\<rparr>))"
      using run Some ts f 2 by (auto simp: insert_timeout_def tc_def Let_def not_le split: if_splits)
    then show ?thesis using pv1 pv2 [of True] by (auto simp: result_ok_def split: if_splits)
  qed
qed

lemma insert_new_vote_ok:
  assumes V: "votes_ok cr v e r V" "vt \<in> V" and pv: "pending_ok cr v e r V pv"
    and prev: "\<And>vt'. author_to_vote pv (vote_author vt) = Some vt' \<Longrightarrow>
      vote_ledger_info vt' = vote_ledger_info vt \<and> is_timeout vt \<and> \<not> is_timeout vt'"
    and run: "insert_new_vote cr vt v pv = ((res :: ('e, vote_reception_result) outcome), pv')"
  shows "pending_ok cr v e r V pv' \<and> result_ok cr v res"
proof -
  let ?li = "vote_ledger_info vt" and ?a = "vote_author vt"
  let ?h = "hash_ledger_info cr ?li"
  have wf: "wf_verifier v" and ver: "vote_verify cr vt v = Ok ()" using V by (auto simp: votes_ok_def)
  define old where "old = (case li_digest_to_votes pv ?h of Some lis \<Rightarrow> lis | None \<Rightarrow> lis_new ?li fmempty)"
  define lis where "lis = add_signature ?a (vote_signature vt) old"
  let ?pv = "pv\<lparr>author_to_vote := (author_to_vote pv)(?a := Some vt),
    li_digest_to_votes := (li_digest_to_votes pv)(?h := Some lis)\<rparr>"
  have "lis_ledger_info old = ?li \<and> lis_ok cr v old \<and>
      (\<forall>b. b |\<in>| fmdom (lis_signatures old) \<longrightarrow> (\<exists>vt. author_to_vote pv b = Some vt \<and> vote_ledger_info vt = ?li))"
  proof (cases "li_digest_to_votes pv ?h")
    case None
    then show ?thesis by (simp add: old_def lis_ok_def)
  next
    case (Some lis0)
    note l = pending_ok_lis [OF pv Some]
    have "lis_ledger_info lis0 = ?li" using V l(1,2) by (auto simp: votes_ok_def dest: inj_onD)
    then show ?thesis using l Some by (simp add: old_def)
  qed
  then have old: "lis_ledger_info old = ?li" "lis_ok cr v old"
      "\<And>b. b |\<in>| fmdom (lis_signatures old) \<Longrightarrow> \<exists>vt. author_to_vote pv b = Some vt \<and> vote_ledger_info vt = ?li"
    by auto
  have lis: "lis_ledger_info lis = ?li" "lis_ok cr v lis" "fmdom (lis_signatures lis) = finsert ?a (fmdom (lis_signatures old))"
    using old ver lis_ok_add [OF old(2)] by (auto simp: lis_def vote_verify_Ok)
  have mem: "set (bt_keys (lis_signatures lis)) \<subseteq> members v"
    using lis(2) unfolding lis_ok_def set_bt_keys
    by (auto simp: fmlookup_dom_iff) (blast dest: get_public_key_Some)
  have keep: "\<exists>vt'. author_to_vote ?pv b = Some vt' \<and> vote_ledger_info vt' = l"
    if "author_to_vote pv b = Some vt0" "vote_ledger_info vt0 = l" for b vt0 l
    using that prev by (cases "b = ?a") auto
  have keep_tmo: "b \<noteq> ?a" if "author_to_vote pv b = Some vt0" "is_timeout vt0" for b vt0
    using that prev by auto
  have pv1: "pending_ok cr v e r V ?pv"
    unfolding pending_ok_def
  proof (intro conjI allI impI)
    fix h l b assume "li_digest_to_votes ?pv h = Some l" "b |\<in>| fmdom (lis_signatures l)"
    then show "\<exists>vt. author_to_vote ?pv b = Some vt \<and> vote_ledger_info vt = lis_ledger_info l"
    proof (cases "h = ?h")
      case True
      then show ?thesis
        using \<open>li_digest_to_votes ?pv h = Some l\<close> \<open>b |\<in>| fmdom (lis_signatures l)\<close> lis old(3) keep by fastforce
    next
      case False
      then show ?thesis
        using \<open>li_digest_to_votes ?pv h = Some l\<close> \<open>b |\<in>| fmdom (lis_signatures l)\<close> pending_ok_lis(4) [OF pv, of h l] keep
        by force
    qed
  next
    fix tc b assume "maybe_partial_2chain_tc ?pv = Some tc" "b |\<in>| fmdom (tcc_signatures tc)"
    then obtain vt0 where "author_to_vote pv b = Some vt0" "is_timeout vt0" using pv by (auto simp: pending_ok_def)
    then show "\<exists>vt. author_to_vote ?pv b = Some vt \<and> is_timeout vt" using keep_tmo by auto
  qed (use pv V lis in \<open>auto simp: pending_ok_def split: if_splits\<close>)
  from check_voting_power_cases [OF wf distinct_bt_keys mem] show ?thesis
  proof cases
    case 1
    then have "(res, pv') =
        (Ok (NewQuorumCertificate \<lparr>qc_vote_data = vote_vote_data vt, qc_signed_ledger_info = lis\<rparr>), ?pv)"
      using run by (simp add: insert_new_vote_def Let_def lis_def old_def)
    then show ?thesis
      using pv1 lis_ok_qc_verify [OF wf lis(2) 1(1), of "vote_vote_data vt"] ver lis(1)
      by (auto simp: result_ok_def vote_verify_Ok)
  next
    case 2
    then have "insert_timeout vt v (of_nat (set_power v (set (bt_keys (lis_signatures lis))))) ?pv = (res, pv')"
      using run by (simp add: insert_new_vote_def Let_def lis_def old_def)
    moreover have "?a |\<notin>| fmdom (tcc_signatures tc)" if "maybe_partial_2chain_tc ?pv = Some tc" "is_timeout vt" for tc
      using that pending_ok_tc(2) [OF pv, of tc ?a] prev by auto
    ultimately show ?thesis by (intro insert_timeout_ok [OF V pv1]) auto
  qed
qed

lemma insert_vote_ok:
  assumes V: "votes_ok cr v e r V" "vt \<in> V" and pv: "pending_ok cr v e r V pv"
    and run: "insert_vote cr vt v pv = ((res :: ('e, vote_reception_result) outcome), pv')"
  shows "pending_ok cr v e r V pv' \<and> result_ok cr v res"
proof -
  have li: "vote_ledger_info vt' = vote_ledger_info vt"
    if "author_to_vote pv (vote_author vt) = Some vt'"
      "hash_ledger_info cr (vote_ledger_info vt) = hash_ledger_info cr (vote_ledger_info vt')" for vt'
    using that V pv by (auto simp: votes_ok_def pending_ok_def dest!: inj_onD)
  consider (dup) "res = Ok DuplicateVote \<or> res = Ok EquivocateVote" "pv' = pv"
    | (new) "insert_new_vote cr vt v pv = ((res :: ('e, vote_reception_result) outcome), pv')"
      "\<And>vt'. author_to_vote pv (vote_author vt) = Some vt' \<Longrightarrow>
         vote_ledger_info vt' = vote_ledger_info vt \<and> is_timeout vt \<and> \<not> is_timeout vt'"
    using run li by (auto simp: insert_vote_def split: option.splits if_splits)
  then show ?thesis
  proof cases
    case dup then show ?thesis using pv by (auto simp: result_ok_def)
  next
    case new then show ?thesis by (intro insert_new_vote_ok [OF V pv])
  qed
qed

lemma insert_votes_ok:
  assumes "votes_ok cr v e r V" "set vts \<subseteq> V" "pending_ok cr v e r V pv"
    and "insert_votes cr v vts pv = ((rs :: ('e, vote_reception_result) outcome list), pv')"
  shows "pending_ok cr v e r V pv' \<and> (\<forall>res\<in>set rs. result_ok cr v res)"
  using assms(2-4)
proof (induction vts arbitrary: pv rs pv')
  case (Cons vt vts)
  obtain r1 pv1 where r1: "insert_vote cr vt v pv = ((r1 :: ('e, vote_reception_result) outcome), pv1)" by fastforce
  obtain rs1 pv2 where rs1: "insert_votes cr v vts pv1 = ((rs1 :: ('e, vote_reception_result) outcome list), pv2)"
    by fastforce
  from insert_vote_ok [OF assms(1) _ _ r1] Cons.prems have "pending_ok cr v e r V pv1 \<and> result_ok cr v r1" by auto
  then show ?case using Cons.IH [OF _ _ rs1] Cons.prems r1 rs1 by auto
qed simp

lemma pending_ok_new: "pending_ok cr v e r V pending_votes_new"
  by (simp add: pending_ok_def pending_votes_new_def)

section \<open>A quorum of votes is noticed\<close>

definition li_entry :: "'z crypto_scheme \<Rightarrow> vote \<Rightarrow> pending_votes \<Rightarrow> ledger_info_with_signatures" where
  "li_entry cr vt pv =
     add_signature (vote_author vt) (vote_signature vt)
       (case li_digest_to_votes pv (hash_ledger_info cr (vote_ledger_info vt)) of
          Some lis \<Rightarrow> lis | None \<Rightarrow> lis_new (vote_ledger_info vt) fmempty)"

lemma insert_timeout_state:
  "author_to_vote (snd (insert_timeout vt v vpw pv)) = author_to_vote pv"
  "li_digest_to_votes (snd (insert_timeout vt v vpw pv)) = li_digest_to_votes pv"
  by (simp_all add: insert_timeout_def Let_def split: option.splits prod.splits outcome.splits verify_error.splits)

lemma insert_new_vote_state:
  "author_to_vote (snd (insert_new_vote cr vt v pv)) = (author_to_vote pv)(vote_author vt := Some vt)"
  "li_digest_to_votes (snd (insert_new_vote cr vt v pv)) =
     (li_digest_to_votes pv)(hash_ledger_info cr (vote_ledger_info vt) := Some (li_entry cr vt pv))"
  by (simp_all add: insert_new_vote_def Let_def li_entry_def insert_timeout_state
      split: outcome.splits verify_error.splits)

text \<open>The signers counted for a digest, and the votes that are counted.\<close>

definition counted :: "pending_votes \<Rightarrow> hash_value \<Rightarrow> author set" where
  "counted pv h =
     (case li_digest_to_votes pv h of None \<Rightarrow> {} | Some lis \<Rightarrow> fset (fmdom (lis_signatures lis)))"

definition all_counted :: "'z crypto_scheme \<Rightarrow> pending_votes \<Rightarrow> bool" where
  "all_counted cr pv =
     (\<forall>a vt. author_to_vote pv a = Some vt \<longrightarrow> a \<in> counted pv (hash_ledger_info cr (vote_ledger_info vt)))"

lemma counted_insert_new_vote:
  assumes "insert_new_vote cr vt v pv = ((res :: ('e, vote_reception_result) outcome), pv')"
  shows "counted pv' h =
     (if h = hash_ledger_info cr (vote_ledger_info vt) then insert (vote_author vt) (counted pv h) else counted pv h)"
proof -
  have "pv' = snd (insert_new_vote cr vt v pv :: ('e, vote_reception_result) outcome \<times> pending_votes)" by (simp add: assms)
  then show ?thesis by (simp add: counted_def insert_new_vote_state li_entry_def split: option.splits)
qed

lemma all_counted_insert_new_vote:
  assumes "insert_new_vote cr vt v pv = ((res :: ('e, vote_reception_result) outcome), pv')" "all_counted cr pv"
  shows "all_counted cr pv'"
proof -
  have "pv' = snd (insert_new_vote cr vt v pv :: ('e, vote_reception_result) outcome \<times> pending_votes)" by (simp add: assms)
  then have "author_to_vote pv' = (author_to_vote pv)(vote_author vt := Some vt)"
    by (simp add: insert_new_vote_state)
  then show ?thesis
    using assms(2) by (force simp: all_counted_def counted_insert_new_vote [OF assms(1)])
qed

lemma insert_new_vote_quorum:
  assumes "wf_verifier v" "insert_new_vote cr vt v pv = ((res :: ('e, vote_reception_result) outcome), pv')"
    and "counted pv' h \<subseteq> members v" "h = hash_ledger_info cr (vote_ledger_info vt)"
    and "unat (quorum_voting_power v) \<le> set_power v (counted pv' h)"
  shows "res =
    Ok (NewQuorumCertificate \<lparr>qc_vote_data = vote_vote_data vt, qc_signed_ledger_info = li_entry cr vt pv\<rparr>)"
proof -
  let ?keys = "bt_keys (lis_signatures (li_entry cr vt pv))"
  have "pv' = snd (insert_new_vote cr vt v pv :: ('e, vote_reception_result) outcome \<times> pending_votes)" by (simp add: assms)
  then have "counted pv' h = set ?keys"
    using assms(4) by (simp add: counted_def insert_new_vote_state)
  then have "check_voting_power v ?keys = Ok ()"
    using assms(3,5) check_voting_power_Ok [OF assms(1), of ?keys] by (metis distinct_bt_keys)
  then show ?thesis using assms(2) by (simp add: insert_new_vote_def Let_def li_entry_def)
qed

text \<open>One insertion: what it counts, and that it reports a quorum as soon as there is one.\<close>

lemma insert_vote_counts:
  assumes V: "votes_ok cr v e r V" "vt \<in> V" and pv: "pending_ok cr v e r V pv" "all_counted cr pv"
    and run: "insert_vote cr vt v pv = ((res :: ('e, vote_reception_result) outcome), pv')"
    and honest: "\<And>vt'. author_to_vote pv (vote_author vt) = Some vt' \<Longrightarrow> vote_ledger_info vt' = vote_ledger_info vt"
  shows "vote_author vt \<in> counted pv' (hash_ledger_info cr (vote_ledger_info vt))"
proof (cases "pv' = pv")
  case True
  then show ?thesis
    using pv(2) honest run counted_insert_new_vote [of cr vt v pv res pv']
    by (force simp: insert_vote_def all_counted_def split: option.splits if_splits)
next
  case False
  then have "insert_new_vote cr vt v pv = ((res :: ('e, vote_reception_result) outcome), pv')"
    using run by (auto simp: insert_vote_def split: option.splits if_splits)
  then show ?thesis by (simp add: counted_insert_new_vote)
qed

lemma insert_vote_step:
  assumes V: "votes_ok cr v e r V" "vt \<in> V" and pv: "pending_ok cr v e r V pv" "all_counted cr pv"
    and run: "insert_vote cr vt v pv = ((res :: ('e, vote_reception_result) outcome), pv')"
    and h: "h = hash_ledger_info cr li" "li \<in> vote_ledger_info ` V"
    and low: "set_power v (counted pv h) < unat (quorum_voting_power v)"
  shows "all_counted cr pv' \<and> (\<forall>h. counted pv h \<subseteq> counted pv' h) \<and>
    (set_power v (counted pv' h) < unat (quorum_voting_power v) \<or>
     (\<exists>qc. res = Ok (NewQuorumCertificate qc) \<and> lis_ledger_info (qc_signed_ledger_info qc) = li))"
proof (cases "pv' = pv")
  case True
  then show ?thesis using pv low by simp
next
  case False
  then have new: "insert_new_vote cr vt v pv = ((res :: ('e, vote_reception_result) outcome), pv')"
    using run by (auto simp: insert_vote_def split: option.splits if_splits)
  have pv': "pending_ok cr v e r V pv'" using insert_vote_ok [OF V pv(1) run] by simp
  have mem: "counted pv' h \<subseteq> members v"
  proof (cases "li_digest_to_votes pv' h")
    case (Some lis)
    then have "lis_ok cr v lis" using pending_ok_lis [OF pv'] by blast
    then show ?thesis
      using Some by (auto simp: counted_def lis_ok_def fmlookup_dom_iff) (blast dest: get_public_key_Some)
  qed (simp add: counted_def)
  have "set_power v (counted pv' h) < unat (quorum_voting_power v) \<or>
     (\<exists>qc. res = Ok (NewQuorumCertificate qc) \<and> lis_ledger_info (qc_signed_ledger_info qc) = li)"
  proof (cases "h = hash_ledger_info cr (vote_ledger_info vt)")
    case True
    then have li: "li = vote_ledger_info vt" using V h by (auto simp: votes_ok_def dest: inj_onD)
    have "lis_ledger_info (li_entry cr vt pv) = li"
    proof (cases "li_digest_to_votes pv h")
      case (Some lis)
      have "lis_ledger_info lis = li"
        using pending_ok_lis(1,2) [OF pv(1) Some] V h by (auto simp: votes_ok_def dest: inj_onD)
      then show ?thesis using Some True by (simp add: li_entry_def)
    qed (simp add: li_entry_def True li)
    then show ?thesis
      using insert_new_vote_quorum [OF _ new mem True] V(1)
      by (force simp: votes_ok_def not_less)
  next
    case False
    then have "counted pv' h = counted pv h" by (simp add: counted_insert_new_vote [OF new])
    then show ?thesis using low by simp
  qed
  moreover have "all_counted cr pv'"
    using all_counted_insert_new_vote [OF new pv(2)] .
  moreover have "counted pv h \<subseteq> counted pv' h" for h
    by (auto simp: counted_insert_new_vote [OF new])
  ultimately show ?thesis by blast
qed

text \<open>A whole sequence: as long as no certificate for \<open>li\<close> was reported, its digest lacks a quorum.\<close>

definition reports :: "ledger_info \<Rightarrow> ('e, vote_reception_result) outcome list \<Rightarrow> bool" where
  "reports li rs =
     (\<exists>qc. Ok (NewQuorumCertificate qc) \<in> set rs \<and> lis_ledger_info (qc_signed_ledger_info qc) = li)"

lemma insert_votes_counts:
  assumes V: "votes_ok cr v e r V" "set vts \<subseteq> V" and pv: "pending_ok cr v e r V pv" "all_counted cr pv"
    and run: "insert_votes cr v vts pv = ((rs :: ('e, vote_reception_result) outcome list), pv')"
    and h: "h = hash_ledger_info cr li" "li \<in> vote_ledger_info ` V"
    and low: "set_power v (counted pv h) < unat (quorum_voting_power v)"
    and honest: "\<And>vt. vt \<in> V \<Longrightarrow> vote_author vt \<in> Q \<Longrightarrow> vote_ledger_info vt = li"
  shows "reports li rs \<or>
    set_power v (counted pv' h) < unat (quorum_voting_power v) \<and>
    counted pv h \<union> (vote_author ` set vts \<inter> Q) \<subseteq> counted pv' h"
  using V(2) pv run low
proof (induction vts arbitrary: pv rs)
  case Nil
  then show ?case by simp
next
  case (Cons vt vts)
  obtain res pv1 where step: "insert_vote cr vt v pv = ((res :: ('e, vote_reception_result) outcome), pv1)"
    by (cases "insert_vote cr vt v pv :: ('e, vote_reception_result) outcome \<times> pending_votes")
  obtain rs1 where rest: "insert_votes cr v vts pv1 = ((rs1 :: ('e, vote_reception_result) outcome list), pv')"
      and rs: "rs = res # rs1"
    using Cons.prems(4) step by (auto split: prod.splits)
  have vt: "vt \<in> V" "set vts \<subseteq> V" using Cons.prems(1) by simp_all
  have ok: "pending_ok cr v e r V pv1" using insert_vote_ok [OF V(1) vt(1) Cons.prems(2) step] by simp
  note one = insert_vote_step [OF V(1) vt(1) Cons.prems(2,3) step h Cons.prems(5)]
  have new: "vote_author vt \<in> counted pv1 h" if "vote_author vt \<in> Q"
  proof -
    have "vote_ledger_info vt' = li" if "author_to_vote pv (vote_author vt) = Some vt'" for vt'
      using that Cons.prems(2) honest \<open>vote_author vt \<in> Q\<close> by (auto simp: pending_ok_def)
    then show ?thesis
      using insert_vote_counts [OF V(1) vt(1) Cons.prems(2,3) step] honest [OF vt(1) that] h by simp
  qed
  show ?case
  proof (cases "set_power v (counted pv1 h) < unat (quorum_voting_power v)")
    case True
    then have "reports li rs1 \<or> set_power v (counted pv' h) < unat (quorum_voting_power v) \<and>
        counted pv1 h \<union> (vote_author ` set vts \<inter> Q) \<subseteq> counted pv' h"
      using Cons.IH [OF vt(2) ok _ rest] one by simp
    then show ?thesis using one new rs by (auto simp: reports_def)
  next
    case False
    then show ?thesis using one rs by (auto simp: reports_def)
  qed
qed

section \<open>Properties\<close>

text \<open>
  C5: The votes of a round, each of which passed \<open>Vote::verify\<close>, are given to \<open>insert_vote\<close> one after
  another, in any order and with any repetitions and equivocations.  Then no insertion panics, every
  quorum certificate that is reported passes \<open>QuorumCert::verify\<close> and every timeout certificate that is
  reported passes \<open>TwoChainTimeoutCertificate::verify\<close>.
\<close>
theorem certificates_verify:
  assumes "votes_ok cr v e r (set vts)"
  shows "list_all (\<lambda>res. case res of
      Ok (NewQuorumCertificate qc) \<Rightarrow> qc_verify cr qc v = Ok ()
    | Ok (New2ChainTimeoutCertificate tc) \<Rightarrow> tc_verify cr tc v = Ok ()
    | Ok _ \<Rightarrow> True | Err _ \<Rightarrow> False | Panic \<Rightarrow> False)
    (fst (insert_votes cr v vts pending_votes_new :: ('e, vote_reception_result) outcome list \<times> pending_votes))"
proof -
  obtain rs pv' where run:
      "insert_votes cr v vts pending_votes_new = ((rs :: ('e, vote_reception_result) outcome list), pv')" by fastforce
  show ?thesis
    using insert_votes_ok [OF assms order_refl pending_ok_new run]
    by (auto simp: run list_all_iff result_ok_def)
qed

definition sample_votes :: "vote list" where
  "sample_votes = [sample_vote 1 1, sample_vote 1 1, sample_vote 2 1, sample_vote 3 1]"

lemma sample_votes_ok: "votes_ok sample_crypto four_verifier 1 1 (set sample_votes)"
proof -
  have "vote_verify sample_crypto (sample_vote a 1) four_verifier = Ok () \<and>
      vote_epoch (sample_vote a 1) = 1 \<and> vote_round (sample_vote a 1) = 1 \<and>
      vote_ledger_info (sample_vote a 1) = sample_li 1" if "a \<in> {1, 2, 3}" for a
    using that by (auto simp: vote_verify_Ok sample_defs vote_new_with_signature_def four_verifier_public_key
        vote_epoch_def vote_data_verify_Ok lis_new_def)
  moreover have "set_power four_verifier (members four_verifier) \<noteq> 0"
    by (simp add: four_verifier_simps set_power_def vpower_def four_verifier_voting_power)
  ultimately show ?thesis
    using four_verifier_wf by (simp add: votes_ok_def sample_votes_def four_verifier_simps inj_on_def)
qed

theorem certificates_verify_witness:
  "list_all (\<lambda>res. case res of
      Ok (NewQuorumCertificate qc) \<Rightarrow> qc_verify sample_crypto qc four_verifier = Ok ()
    | Ok (New2ChainTimeoutCertificate tc) \<Rightarrow> tc_verify sample_crypto tc four_verifier = Ok ()
    | Ok _ \<Rightarrow> True | Err _ \<Rightarrow> False | Panic \<Rightarrow> False)
    (fst (insert_votes sample_crypto four_verifier sample_votes pending_votes_new
       :: (unit, vote_reception_result) outcome list \<times> pending_votes))"
  by (rule certificates_verify [OF sample_votes_ok])

text \<open>
  C6: When, among the verified votes of a round, validators holding a quorum of the voting power vote for
  the ledger info \<open>li\<close> and for nothing else, a quorum certificate for \<open>li\<close> is reported, whatever the order
  of the votes and whatever the other validators send.
\<close>
theorem quorum_of_votes_certified:
  assumes V: "votes_ok cr v e r (set vts)"
    and Q: "Q \<subseteq> vote_author ` set vts" "unat (quorum_voting_power v) \<le> set_power v Q"
    and honest: "\<forall>vt\<in>set vts. vote_author vt \<in> Q \<longrightarrow> vote_ledger_info vt = li"
  shows "\<exists>qc. Ok (NewQuorumCertificate qc) \<in> set (fst (insert_votes cr v vts pending_votes_new
      :: ('e, vote_reception_result) outcome list \<times> pending_votes)) \<and>
    lis_ledger_info (qc_signed_ledger_info qc) = li"
proof -
  obtain rs pv' where run:
      "insert_votes cr v vts pending_votes_new = ((rs :: ('e, vote_reception_result) outcome list), pv')" by fastforce
  let ?h = "hash_ledger_info cr li"
  have pos: "0 < unat (quorum_voting_power v)" using V by (simp add: votes_ok_def wf_verifier_def)
  then obtain a where "a \<in> Q" using Q(2) by fastforce
  then have li: "li \<in> vote_ledger_info ` set vts" using Q(1) honest by blast
  have "reports li rs \<or> set_power v (counted pv' ?h) < unat (quorum_voting_power v) \<and> Q \<subseteq> counted pv' ?h"
    using insert_votes_counts [OF V order_refl pending_ok_new _ run refl li, of Q] pos honest Q(1)
    by (auto simp: counted_def all_counted_def pending_votes_new_def)
  moreover have "set_power v Q \<le> set_power v (counted pv' ?h)" if "Q \<subseteq> counted pv' ?h"
    using that by (intro set_power_mono) (auto simp: counted_def split: option.splits)
  ultimately have "reports li rs" using Q(2) by auto
  then show ?thesis by (simp add: run reports_def)
qed

theorem quorum_of_votes_certified_witness:
  "\<exists>qc. Ok (NewQuorumCertificate qc) \<in> set (fst (insert_votes sample_crypto four_verifier sample_votes
      pending_votes_new :: (unit, vote_reception_result) outcome list \<times> pending_votes)) \<and>
    lis_ledger_info (qc_signed_ledger_info qc) = sample_li 1"
proof (rule quorum_of_votes_certified [OF sample_votes_ok])
  show "{1, 2, 3} \<subseteq> vote_author ` set sample_votes"
    by (simp add: sample_votes_def sample_vote_def vote_new_with_signature_def)
  show "unat (quorum_voting_power four_verifier) \<le> set_power four_verifier {1, 2, 3}"
    by (simp add: four_verifier_simps set_power_def vpower_def four_verifier_voting_power)
  show "\<forall>vt\<in>set sample_votes. vote_author vt \<in> {1, 2, 3} \<longrightarrow> vote_ledger_info vt = sample_li 1"
    by (simp add: sample_votes_def sample_vote_def vote_new_with_signature_def)
qed

text \<open>
  C21: Among the verified votes of a round the signature of a validator is counted for one ledger info at
  most: after any sequence of insertions the signers recorded for two different digests are disjoint.
\<close>
theorem equivocation_counted_once:
  assumes "votes_ok cr v e r (set vts)" "h \<noteq> h'"
  shows "counted (snd (insert_votes cr v vts pending_votes_new
      :: ('e, vote_reception_result) outcome list \<times> pending_votes)) h \<inter>
    counted (snd (insert_votes cr v vts pending_votes_new
      :: ('e, vote_reception_result) outcome list \<times> pending_votes)) h' = {}"
proof -
  obtain rs pv where run:
      "insert_votes cr v vts pending_votes_new = ((rs :: ('e, vote_reception_result) outcome list), pv)" by fastforce
  have "pending_ok cr v e r (set vts) pv"
    using insert_votes_ok [OF assms(1) order_refl pending_ok_new run] by simp
  then have "\<exists>vt. author_to_vote pv a = Some vt \<and> h = hash_ledger_info cr (vote_ledger_info vt)"
    if "a \<in> counted pv h" for a h
    using that pending_ok_lis(2,4) [of cr v e r "set vts" pv h]
    by (cases "li_digest_to_votes pv h") (auto simp: counted_def, metis)
  then have "counted pv h \<inter> counted pv h' = {}" using assms(2) by (metis (no_types, lifting) disjoint_iff option.inject)
  then show ?thesis by (simp add: run)
qed

theorem equivocation_counted_once_witness:
  "counted (snd (insert_votes sample_crypto four_verifier sample_votes pending_votes_new
      :: (unit, vote_reception_result) outcome list \<times> pending_votes)) 1 \<inter>
    counted (snd (insert_votes sample_crypto four_verifier sample_votes pending_votes_new
      :: (unit, vote_reception_result) outcome list \<times> pending_votes)) 2 = {}"
  by (rule equivocation_counted_once [OF sample_votes_ok]) simp

end
