(* ===== verification/Round_State.thy ===== *)
theory Round_State
  imports Pending_Votes
begin

text \<open>
  The pacemaker (\<open>src/consensus/src/liveness/round_state.rs\<close>): the current round, its deadline, the votes
  collected in it and the vote sent in it.

  A \<open>Duration\<close> is its number of nanoseconds; the operators on it panic on overflow.  The clock is read
  once per call and is an argument.  The time interval, a trait object of the source, is a function from
  the round index to a duration; \<open>exponential_time_interval\<close> is its only implementation, whose floating
  point multiplier \<open>(base_ms * exponent_base ^ pow).ceil()\<close> is a parameter.  The task that \<open>run_after\<close>
  spawns is recorded in place of its abort handle, so a replaced task is a task that was aborted.
\<close>

section \<open>Definitions\<close>

type_synonym duration = nat

definition duration_max :: duration where
  "duration_max = 2 ^ 64 * 1000000000 - 1"

definition duration_add :: "duration \<Rightarrow> duration \<Rightarrow> ('e, duration) outcome" where
  "duration_add a b = (if a + b \<le> duration_max then Ok (a + b) else Panic)"

definition duration_mul :: "duration \<Rightarrow> u32 \<Rightarrow> ('e, duration) outcome" where
  "duration_mul a k = (if a * unat k \<le> duration_max then Ok (a * unat k) else Panic)"

definition duration_from_millis :: "u64 \<Rightarrow> duration" where
  "duration_from_millis ms = unat ms * 1000000"

datatype new_round_reason = QCReady | Timeout

record new_round_event =
  nre_round :: round
  nre_reason :: new_round_reason
  nre_timeout :: duration

text \<open>\<open>scale\<close> is \<open>(base_ms * exponent_base ^ pow).ceil() as u64\<close>.\<close>

definition exponential_time_interval :: "(u32 \<Rightarrow> u64) \<Rightarrow> u64 \<Rightarrow> u64 \<Rightarrow> duration" where
  "exponential_time_interval scale max_exponent round_index_after_committed_qc =
     (let pow = ucast (min round_index_after_committed_qc max_exponent)
      in duration_from_millis (scale pow))"

record round_state =
  time_interval :: "u64 \<Rightarrow> duration"
  highest_committed_round :: round
  current_round :: round
  current_round_deadline :: duration
  rs_pending_votes :: pending_votes
  vote_sent :: "vote option"
  abort_handle :: "(duration \<times> round) option"

definition round_state_new :: "(u64 \<Rightarrow> duration) \<Rightarrow> duration \<Rightarrow> round_state" where
  "round_state_new interval now =
     \<lparr>time_interval = interval, highest_committed_round = 0, current_round = 0, current_round_deadline = now,
      rs_pending_votes = pending_votes_new, vote_sent = None, abort_handle = None\<rparr>"

definition is_vote_timeout :: "round_state \<Rightarrow> bool" where
  "is_vote_timeout rs = (case vote_sent rs of None \<Rightarrow> False | Some vt \<Rightarrow> is_timeout vt)"

definition round_index :: "round_state \<Rightarrow> ('e, u64) outcome" where
  "round_index rs =
     (if highest_committed_round rs = 0 then sub_panic (current_round rs) 1
      else and_then (add_panic (highest_committed_round rs) 3) (\<lambda>h3.
        if current_round rs < h3 then Ok 0
        else and_then (sub_panic (current_round rs) (highest_committed_round rs)) (\<lambda>d. sub_panic d 3)))"

definition setup_deadline :: "u32 \<Rightarrow> duration \<Rightarrow> (round_state, 'e, duration) stateful" where
  "setup_deadline multiplier now =
     sbind (sread round_index) (\<lambda>index.
     sbind (sread (\<lambda>rs. duration_mul (time_interval rs index) multiplier)) (\<lambda>timeout.
     sbind (slift (duration_add now timeout)) (\<lambda>deadline rs.
       (Ok timeout, rs\<lparr>current_round_deadline := deadline\<rparr>))))"

definition setup_timeout :: "u32 \<Rightarrow> duration \<Rightarrow> (round_state, 'e, duration) stateful" where
  "setup_timeout multiplier now =
     sbind (setup_deadline multiplier now) (\<lambda>timeout rs.
       (Ok timeout, rs\<lparr>abort_handle := Some (timeout, current_round rs)\<rparr>))"

definition setup_leader_timeout :: "duration \<Rightarrow> (round_state, 'e, unit) stateful" where
  "setup_leader_timeout now = sbind (setup_timeout 2 now) (\<lambda>_ rs. (Ok (), rs))"

definition process_local_timeout :: "round \<Rightarrow> duration \<Rightarrow> (round_state, 'e, bool) stateful" where
  "process_local_timeout r now rs =
     (if r \<noteq> current_round rs then (Ok False, rs)
      else sbind (setup_timeout 1 now) (\<lambda>_ rs. (Ok True, rs)) rs)"

definition process_certificates ::
    "sync_info \<Rightarrow> duration \<Rightarrow> (round_state, 'e, new_round_event option) stateful" where
  "process_certificates si now rs0 =
     (let rs = (if highest_ordered_round si > highest_committed_round rs0
                then rs0\<lparr>highest_committed_round := highest_ordered_round si\<rparr> else rs0)
      in sbind (slift (add_panic (highest_round si) 1)) (\<lambda>new_round rs.
           if new_round > current_round rs
           then sbind (setup_timeout 1 now) (\<lambda>timeout.
                sbind (slift (add_panic (highest_certified_round si) 1)) (\<lambda>qc_round rs.
                  (Ok (Some \<lparr>nre_round = current_round rs,
                             nre_reason = (if qc_round = new_round then QCReady else Timeout),
                             nre_timeout = timeout\<rparr>), rs)))
                (rs\<lparr>current_round := new_round, rs_pending_votes := pending_votes_new, vote_sent := None\<rparr>)
           else (Ok None, rs)) rs)"

definition round_insert_vote ::
    "'z crypto_scheme \<Rightarrow> vote \<Rightarrow> validator_verifier \<Rightarrow> (round_state, 'e, vote_reception_result) stateful" where
  "round_insert_vote cr vt v rs =
     (if bi_round (vote_proposed vt) = current_round rs
      then (case insert_vote cr vt v (rs_pending_votes rs) of (res, pv) \<Rightarrow> (res, rs\<lparr>rs_pending_votes := pv\<rparr>))
      else (Ok (UnexpectedRound (bi_round (vote_proposed vt)) (current_round rs)), rs))"

definition record_vote :: "vote \<Rightarrow> round_state \<Rightarrow> round_state" where
  "record_vote vt rs =
     (if bi_round (vote_proposed vt) = current_round rs then rs\<lparr>vote_sent := Some vt\<rparr> else rs)"

text \<open>The calls of the round manager, each with the time it is made at.\<close>

datatype round_call =
    Certificates sync_info
  | LocalTimeout round
  | LeaderTimeout
  | InsertVote vote
  | RecordVote vote

datatype round_output =
    NewRound "new_round_event option"
  | TimedOut bool
  | Received vote_reception_result
  | Nothing_Returned

definition map_stateful :: "('a \<Rightarrow> 'b) \<Rightarrow> ('s, 'e, 'a) stateful \<Rightarrow> ('s, 'e, 'b) stateful" where
  "map_stateful f m = sbind m (\<lambda>a s. (Ok (f a), s))"

fun round_step ::
    "'z crypto_scheme \<Rightarrow> validator_verifier \<Rightarrow> duration \<Rightarrow> round_call \<Rightarrow> (round_state, 'e, round_output) stateful" where
  "round_step cr v now (Certificates si) = map_stateful NewRound (process_certificates si now)"
| "round_step cr v now (LocalTimeout r) = map_stateful TimedOut (process_local_timeout r now)"
| "round_step cr v now LeaderTimeout = map_stateful (\<lambda>_. Nothing_Returned) (setup_leader_timeout now)"
| "round_step cr v now (InsertVote vt) = map_stateful Received (round_insert_vote cr vt v)"
| "round_step cr v now (RecordVote vt) = (\<lambda>rs. (Ok Nothing_Returned, record_vote vt rs))"

text \<open>A run, with all the outputs; a panic ends the process.\<close>

fun round_run ::
    "'z crypto_scheme \<Rightarrow> validator_verifier \<Rightarrow> (duration \<times> round_call) list \<Rightarrow> round_state \<Rightarrow>
     ('e, round_output) outcome list \<times> round_state" where
  "round_run cr v [] rs = ([], rs)"
| "round_run cr v ((now, c) # cs) rs =
     (case round_step cr v now c rs of
        (Ok out, rs') \<Rightarrow> (case round_run cr v cs rs' of (outs, rs'') \<Rightarrow> (Ok out # outs, rs''))
      | (res, rs') \<Rightarrow> ([res], rs'))"

section \<open>Lemmas on the single calls\<close>

lemma round_index_Ok:
  assumes "current_round rs \<noteq> 0" "unat (highest_committed_round rs) + 3 < 2 ^ 64"
  shows "\<exists>i. round_index rs = Ok i"
proof -
  let ?h = "highest_committed_round rs" and ?c = "current_round rs"
  have h3: "unat (?h + 3) = unat ?h + 3" using assms(2) by (simp add: unat_word_ariths)
  have "1 \<le> ?c" using assms(1) by (simp add: word_le_nat_alt unat_gt_0 Suc_leI)
  moreover have "?h \<le> ?c" "3 \<le> ?c - ?h" if "?h + 3 \<le> ?c"
  proof -
    show "?h \<le> ?c" using that h3 by (simp add: word_le_nat_alt)
    then show "3 \<le> ?c - ?h" using that h3 by (simp add: word_le_nat_alt unat_sub)
  qed
  ultimately show ?thesis
    using assms(2) by (auto simp: round_index_def add_panic_def sub_panic_def checked_add_def checked_sub_def not_less)
qed

lemma setup_timeout_frame:
  assumes "setup_timeout k now rs = (res, rs')"
  shows "current_round rs' = current_round rs \<and> highest_committed_round rs' = highest_committed_round rs \<and>
    rs_pending_votes rs' = rs_pending_votes rs \<and> vote_sent rs' = vote_sent rs \<and> time_interval rs' = time_interval rs"
  using assms
  by (auto simp: setup_timeout_def setup_deadline_def sbind_def sread_def slift_def
      split: prod.splits outcome.splits)

lemma setup_timeout_Ok:
  assumes "current_round rs \<noteq> 0" "unat (highest_committed_round rs) + 3 < 2 ^ 64"
    and "\<And>i. now + time_interval rs i * unat k \<le> duration_max"
  shows "\<exists>t rs'. setup_timeout k now rs = (Ok t :: ('e, duration) outcome, rs')"
proof -
  obtain i where "(round_index rs :: ('e, u64) outcome) = Ok i" using round_index_Ok [OF assms(1,2)] by blast
  then show ?thesis
    using assms(3) [of i]
    by (simp add: setup_timeout_def setup_deadline_def sbind_def sread_def slift_def duration_add_def duration_mul_def)
qed

lemma process_certificates_Ok:
  assumes "process_certificates si now rs = (Ok out, rs')"
  obtains r where "checked_add (highest_round si) 1 = Some r" "current_round rs' = max r (current_round rs)"
    "highest_committed_round rs' = max (highest_ordered_round si) (highest_committed_round rs)"
    "time_interval rs' = time_interval rs"
    "map_option nre_round out = (if r > current_round rs then Some r else None)"
    "rs_pending_votes rs' = (if r > current_round rs then pending_votes_new else rs_pending_votes rs)"
    "vote_sent rs' = (if r > current_round rs then None else vote_sent rs)"
proof -
  define rs1 where "rs1 = (if highest_ordered_round si > highest_committed_round rs
      then rs\<lparr>highest_committed_round := highest_ordered_round si\<rparr> else rs)"
  have rs1: "highest_committed_round rs1 = max (highest_ordered_round si) (highest_committed_round rs)"
    "current_round rs1 = current_round rs" "rs_pending_votes rs1 = rs_pending_votes rs"
    "vote_sent rs1 = vote_sent rs" "time_interval rs1 = time_interval rs"
    by (auto simp: rs1_def max_def)
  obtain r where r: "checked_add (highest_round si) 1 = Some r"
    using assms by (auto simp: process_certificates_def Let_def outcome_simps)
  show thesis
  proof (cases "r > current_round rs")
    case True
    then obtain t ev where "setup_timeout 1 now
          (rs1\<lparr>current_round := r, rs_pending_votes := pending_votes_new, vote_sent := None\<rparr>) =
          (Ok t :: ('a, duration) outcome, rs')" "out = Some ev" "nre_round ev = current_round rs'"
      using assms r rs1(2) by (auto simp: process_certificates_def rs1_def [symmetric] outcome_simps)
    then show thesis using True r rs1 by (intro that [OF r]) (auto dest: setup_timeout_frame)
  next
    case False
    then have "out = None" "rs' = rs1"
      using assms r rs1(2) by (auto simp: process_certificates_def rs1_def [symmetric] outcome_simps)
    then show thesis using False r rs1 by (intro that [OF r]) auto
  qed
qed

lemma process_certificates_succeeds:
  assumes "unat (highest_round si) + 1 < 2 ^ 64" "unat (highest_ordered_round si) + 3 < 2 ^ 64"
    "unat (highest_committed_round rs) + 3 < 2 ^ 64" "\<And>i. now + time_interval rs i \<le> duration_max"
  shows "\<exists>out rs'. process_certificates si now rs = (Ok out :: ('e, _) outcome, rs')"
proof -
  define rs1 where "rs1 = (if highest_ordered_round si > highest_committed_round rs
      then rs\<lparr>highest_committed_round := highest_ordered_round si\<rparr> else rs)"
  obtain r where r: "checked_add (highest_round si) 1 = Some r" "r \<noteq> 0"
    using assms(1) by (auto simp: checked_add_def unat_eq_zero [symmetric] unat_word_ariths)
  have "highest_certified_round si \<le> highest_round si" by (simp add: highest_round_def)
  then have "unat (highest_certified_round si) \<le> unat (highest_round si)" by (simp add: word_le_nat_alt)
  then obtain q where q: "checked_add (highest_certified_round si) 1 = Some q"
    using assms(1) by (auto simp: checked_add_def)
  let ?rs = "rs1\<lparr>current_round := r, rs_pending_votes := pending_votes_new, vote_sent := None\<rparr>"
  have "\<exists>t rs'. setup_timeout 1 now ?rs = (Ok t :: ('e, duration) outcome, rs')"
    using r(2) assms(2-4) by (intro setup_timeout_Ok) (auto simp: rs1_def)
  then show ?thesis
    using r q by (auto simp: process_certificates_def rs1_def [symmetric] sbind_def slift_def add_panic_def)
qed

section \<open>The invariant\<close>

text \<open>The votes handed to the pacemaker, of all the rounds of an epoch.\<close>

definition epoch_votes_ok :: "'z crypto_scheme \<Rightarrow> validator_verifier \<Rightarrow> u64 \<Rightarrow> vote set \<Rightarrow> bool" where
  "epoch_votes_ok cr v e V =
     (wf_verifier v \<and> members v \<noteq> {} \<and> set_power v (members v) \<noteq> 0 \<and>
      inj_on (hash_ledger_info cr) (vote_ledger_info ` V) \<and>
      (\<forall>vt\<in>V. vote_verify cr vt v = Ok () \<and> vote_epoch vt = e))"

definition votes_of_round :: "vote set \<Rightarrow> round \<Rightarrow> vote set" where
  "votes_of_round V r = {vt \<in> V. vote_round vt = r}"

definition round_ok :: "'z crypto_scheme \<Rightarrow> validator_verifier \<Rightarrow> u64 \<Rightarrow> vote set \<Rightarrow> round_state \<Rightarrow> bool" where
  "round_ok cr v e V rs =
     (pending_ok cr v e (current_round rs) (votes_of_round V (current_round rs)) (rs_pending_votes rs) \<and>
      (\<forall>vt. vote_sent rs = Some vt \<longrightarrow> vote_round vt = current_round rs))"

primrec inserted_votes :: "round_call \<Rightarrow> vote set" where
  "inserted_votes (Certificates si) = {}"
| "inserted_votes (LocalTimeout r) = {}"
| "inserted_votes LeaderTimeout = {}"
| "inserted_votes (InsertVote vt) = {vt}"
| "inserted_votes (RecordVote vt) = {}"

definition output_ok :: "'z crypto_scheme \<Rightarrow> validator_verifier \<Rightarrow> round_output \<Rightarrow> bool" where
  "output_ok cr v out =
     (case out of
        Received (NewQuorumCertificate qc) \<Rightarrow> qc_verify cr qc v = Ok ()
      | Received (New2ChainTimeoutCertificate tc) \<Rightarrow> tc_verify cr tc v = Ok ()
      | _ \<Rightarrow> True)"

lemma votes_of_round_ok:
  "epoch_votes_ok cr v e V \<Longrightarrow> votes_ok cr v e r (votes_of_round V r)"
  by (auto simp: epoch_votes_ok_def votes_ok_def votes_of_round_def elim!: inj_on_subset)

lemma map_stateful_eq_Ok [outcome_simps]:
  "map_stateful f m s = (Ok b, s') \<longleftrightarrow> (\<exists>a. m s = (Ok a, s') \<and> b = f a)"
  by (auto simp: map_stateful_def outcome_simps)

lemma round_insert_vote_ok:
  assumes V: "epoch_votes_ok cr v e V" "vt \<in> V" and rs: "round_ok cr v e V rs"
    and run: "round_insert_vote cr vt v rs = ((res :: ('e, vote_reception_result) outcome), rs')"
  shows "round_ok cr v e V rs' \<and> result_ok cr v res"
proof (cases "vote_round vt = current_round rs")
  case True
  obtain pv where pv: "insert_vote cr vt v (rs_pending_votes rs) = (res, pv)" and rs': "rs' = rs\<lparr>rs_pending_votes := pv\<rparr>"
    using run True by (auto simp: round_insert_vote_def split: prod.splits)
  have "vt \<in> votes_of_round V (current_round rs)" using V(2) True by (simp add: votes_of_round_def)
  then show ?thesis
    using insert_vote_ok [OF votes_of_round_ok [OF V(1)] _ _ pv] rs rs' by (simp add: round_ok_def)
next
  case False
  then show ?thesis using run rs by (auto simp: round_insert_vote_def result_ok_def)
qed

text \<open>One call: what becomes of the two rounds, and that the invariant is kept.\<close>

primrec call_round :: "round_call \<Rightarrow> nat" where
  "call_round (Certificates si) = Suc (unat (highest_round si))"
| "call_round (LocalTimeout r) = 0"
| "call_round LeaderTimeout = 0"
| "call_round (InsertVote vt) = 0"
| "call_round (RecordVote vt) = 0"

primrec call_ordered_round :: "round_call \<Rightarrow> nat" where
  "call_ordered_round (Certificates si) = unat (highest_ordered_round si)"
| "call_ordered_round (LocalTimeout r) = 0"
| "call_ordered_round LeaderTimeout = 0"
| "call_ordered_round (InsertVote vt) = 0"
| "call_ordered_round (RecordVote vt) = 0"

primrec new_rounds :: "round_output \<Rightarrow> round list" where
  "new_rounds (NewRound ev) = (case ev of None \<Rightarrow> [] | Some ev \<Rightarrow> [nre_round ev])"
| "new_rounds (TimedOut b) = []"
| "new_rounds (Received res) = []"
| "new_rounds Nothing_Returned = []"

lemma unat_max: "unat (max a b) = max (unat a) (unat (b :: 'a::len word))"
  by (simp add: max_def word_le_nat_alt)

lemma round_step_frame:
  assumes "round_step cr v now c rs = (Ok out :: ('e, round_output) outcome, rs')"
  shows "unat (current_round rs') = max (call_round c) (unat (current_round rs)) \<and>
    unat (highest_committed_round rs') = max (call_ordered_round c) (unat (highest_committed_round rs)) \<and>
    time_interval rs' = time_interval rs \<and>
    new_rounds out = (if current_round rs < current_round rs' then [current_round rs'] else [])"
proof (cases c)
  case (Certificates si)
  then obtain ev where run: "process_certificates si now rs = (Ok ev :: ('e, _) outcome, rs')" and out: "out = NewRound ev"
    using assms by (auto simp: outcome_simps)
  show ?thesis
    by (rule process_certificates_Ok [OF run], use Certificates out in
        \<open>auto simp: unat_max word_less_nat_alt word_le_nat_alt dest!: checked_add_unat split: option.splits if_splits\<close>)
next
  case (InsertVote vt)
  then show ?thesis
    using assms by (auto simp: outcome_simps round_insert_vote_def split: if_splits prod.splits)
qed (use assms in \<open>auto simp: outcome_simps process_local_timeout_def setup_leader_timeout_def record_vote_def
    dest!: setup_timeout_frame split: if_splits\<close>)

lemma round_step_ok:
  assumes V: "epoch_votes_ok cr v e V" "inserted_votes c \<subseteq> V" and rs: "round_ok cr v e V rs"
    and run: "round_step cr v now c rs = (Ok out :: ('e, round_output) outcome, rs')"
  shows "round_ok cr v e V rs' \<and> output_ok cr v out"
proof (cases c)
  case (Certificates si)
  then obtain ev where proc: "process_certificates si now rs = (Ok ev :: ('e, _) outcome, rs')" and out: "out = NewRound ev"
    using run by (auto simp: outcome_simps)
  show ?thesis
    by (rule process_certificates_Ok [OF proc], use rs pending_ok_new out in
        \<open>auto simp: round_ok_def output_ok_def max_def\<close>)
next
  case (InsertVote vt)
  then obtain res where ins: "round_insert_vote cr vt v rs = (Ok res :: ('e, _) outcome, rs')" and out: "out = Received res"
    using run by (auto simp: outcome_simps)
  from round_insert_vote_ok [OF V(1) _ rs ins] V(2) InsertVote have "round_ok cr v e V rs'" "result_ok cr v (Ok res :: ('e, _) outcome)"
    by auto
  then show ?thesis by (auto simp: out output_ok_def result_ok_def split: vote_reception_result.splits)
qed (use rs run in \<open>auto simp: outcome_simps process_local_timeout_def setup_leader_timeout_def record_vote_def
    round_ok_def output_ok_def dest!: setup_timeout_frame split: if_splits\<close>)

lemma round_step_succeeds:
  assumes V: "epoch_votes_ok cr v e V" "inserted_votes c \<subseteq> V" and rs: "round_ok cr v e V rs"
    and bounds: "call_round c < 2 ^ 64" "call_ordered_round c + 3 < 2 ^ 64"
      "unat (highest_committed_round rs) + 3 < 2 ^ 64" "\<And>i. now + 2 * time_interval rs i \<le> duration_max"
    and started: "current_round rs \<noteq> 0 \<or> 0 < call_round c"
  shows "\<exists>out rs'. round_step cr v now c rs = (Ok out :: ('e, round_output) outcome, rs')"
proof -
  have b1: "now + time_interval rs i \<le> duration_max" for i using bounds(4) [of i] by simp
  have timer: "\<exists>t rs'. setup_timeout k now rs = (Ok t :: ('e, duration) outcome, rs')"
    if "current_round rs \<noteq> 0" "k \<in> {1, 2}" for k
    using that bounds(3,4) b1 by (intro setup_timeout_Ok) (auto simp: mult.commute)
  show ?thesis
  proof (cases c)
    case (Certificates si)
    then have "\<exists>out rs'. process_certificates si now rs = (Ok out :: ('e, _) outcome, rs')"
      using bounds b1 by (intro process_certificates_succeeds) auto
    then show ?thesis using Certificates by (auto simp: map_stateful_def sbind_def)
  next
    case (LocalTimeout r)
    then show ?thesis
      using timer [of 1] started by (auto simp: map_stateful_def process_local_timeout_def sbind_def)
  next
    case LeaderTimeout
    then show ?thesis
      using timer [of 2] started by (auto simp: map_stateful_def setup_leader_timeout_def sbind_def)
  next
    case (InsertVote vt)
    obtain res rs' where ins: "round_insert_vote cr vt v rs = ((res :: ('e, _) outcome), rs')" by fastforce
    from round_insert_vote_ok [OF V(1) _ rs ins] V(2) InsertVote have "result_ok cr v res" by auto
    then obtain x where "res = Ok x" by (cases res) (auto simp: result_ok_def)
    then show ?thesis using InsertVote ins by (auto simp: map_stateful_def sbind_def)
  next
    case (RecordVote vt)
    then show ?thesis by simp
  qed
qed

section \<open>Lemmas on runs\<close>

definition run_rounds :: "('e, round_output) outcome list \<Rightarrow> round list" where
  "run_rounds outs = concat (map (\<lambda>out. case out of Ok x \<Rightarrow> new_rounds x | _ \<Rightarrow> []) outs)"

definition run_votes :: "(duration \<times> round_call) list \<Rightarrow> vote set" where
  "run_votes cs = (\<Union>c\<in>snd ` set cs. inserted_votes c)"

lemma round_run_Cons_cases:
  assumes "round_run cr v ((now, c) # cs) rs = ((outs :: ('e, round_output) outcome list), rs')"
  obtains (go) out rs1 outs' where "round_step cr v now c rs = (Ok out :: ('e, round_output) outcome, rs1)"
      "round_run cr v cs rs1 = (outs', rs')" "outs = Ok out # outs'"
  | (halt) res where "\<not> is_ok res" "round_step cr v now c rs = (res, rs')" "outs = [res]"
  using assms by (auto split: prod.splits outcome.splits)

lemma round_run_rounds:
  assumes "round_run cr v cs rs = ((outs :: ('e, round_output) outcome list), rs')" "list_all is_ok outs"
  shows "unat (current_round rs') = fold max (map (call_round \<circ> snd) cs) (unat (current_round rs)) \<and>
    unat (highest_committed_round rs') =
      fold max (map (call_ordered_round \<circ> snd) cs) (unat (highest_committed_round rs))"
  using assms
proof (induction cs arbitrary: rs outs)
  case (Cons x cs)
  obtain now c where x: "x = (now, c)" by fastforce
  from Cons.prems(1) [unfolded x] show ?case
  proof (cases rule: round_run_Cons_cases)
    case (go out rs1 outs')
    then show ?thesis using Cons.IH [OF go(2)] Cons.prems(2) round_step_frame [OF go(1)] x by simp
  next
    case (halt res)
    then show ?thesis using Cons.prems(2) by simp
  qed
qed simp

lemma round_run_increase:
  assumes "round_run cr v cs rs = ((outs :: ('e, round_output) outcome list), rs')"
  shows "sorted_wrt (<) (current_round rs # run_rounds outs)"
  using assms
proof (induction cs arbitrary: rs outs)
  case (Cons x cs)
  obtain now c where x: "x = (now, c)" by fastforce
  from Cons.prems(1) show ?case unfolding x
  proof (cases rule: round_run_Cons_cases)
    case (go out rs1 outs')
    then have "run_rounds outs = (if current_round rs < current_round rs1 then [current_round rs1] else []) @ run_rounds outs'"
      using round_step_frame [OF go(1)] by (simp add: run_rounds_def)
    moreover have "current_round rs \<le> current_round rs1"
      using round_step_frame [OF go(1)] by (simp add: word_le_nat_alt)
    ultimately show ?thesis using Cons.IH [OF go(2)] by auto
  next
    case (halt res)
    then show ?thesis by (cases res) (simp_all add: run_rounds_def)
  qed
qed (simp add: run_rounds_def)

lemma round_run_ok:
  assumes V: "epoch_votes_ok cr v e V" "run_votes cs \<subseteq> V" and rs: "round_ok cr v e V rs"
    and run: "round_run cr v cs rs = ((outs :: ('e, round_output) outcome list), rs')" "Ok out \<in> set outs"
  shows "output_ok cr v out"
  using V(2) rs run
proof (induction cs arbitrary: rs outs)
  case (Cons x cs)
  obtain now c where x: "x = (now, c)" by fastforce
  have sub: "inserted_votes c \<subseteq> V" "run_votes cs \<subseteq> V" using Cons.prems(1) by (auto simp: run_votes_def x)
  from Cons.prems(3) show ?case unfolding x
  proof (cases rule: round_run_Cons_cases)
    case (go out' rs1 outs')
    then show ?thesis using Cons.IH [OF sub(2) _ go(2)] Cons.prems(4) round_step_ok [OF V(1) sub(1) Cons.prems(2) go(1)] by auto
  next
    case (halt res)
    then show ?thesis using Cons.prems(4) by auto
  qed
qed simp

lemma round_run_total:
  assumes V: "epoch_votes_ok cr v e V" "run_votes cs \<subseteq> V" and rs: "round_ok cr v e V rs"
    and bounds: "\<forall>(now, c)\<in>set cs. call_round c < 2 ^ 64 \<and> call_ordered_round c + 3 < 2 ^ 64 \<and>
        (\<forall>i. now + 2 * time_interval rs i \<le> duration_max)"
      "unat (highest_committed_round rs) + 3 < 2 ^ 64"
    and started: "current_round rs \<noteq> 0 \<or> cs = [] \<or> 0 < call_round (snd (hd cs))"
    and run: "round_run cr v cs rs = ((outs :: ('e, round_output) outcome list), rs')"
  shows "length outs = length cs \<and> list_all is_ok outs"
  using V(2) rs bounds started run
proof (induction cs arbitrary: rs outs)
  case (Cons x cs)
  obtain now c where x: "x = (now, c)" by fastforce
  have sub: "inserted_votes c \<subseteq> V" "run_votes cs \<subseteq> V" using Cons.prems(1) by (auto simp: run_votes_def x)
  have "\<exists>out rs1. round_step cr v now c rs = (Ok out :: ('e, round_output) outcome, rs1)"
    using Cons.prems(3-5) x by (intro round_step_succeeds [OF V(1) sub(1) Cons.prems(2)]) auto
  then obtain out rs1 where st: "round_step cr v now c rs = (Ok out :: ('e, round_output) outcome, rs1)" by blast
  obtain outs' where rest: "round_run cr v cs rs1 = ((outs' :: ('e, round_output) outcome list), rs')" and outs: "outs = Ok out # outs'"
    using Cons.prems(6) st x by (auto split: prod.splits)
  have "current_round rs1 \<noteq> 0"
    using round_step_frame [OF st] Cons.prems(5) x by (auto simp: unat_eq_zero [symmetric])
  then show ?case
    using Cons.IH [OF sub(2) _ _ _ _ rest] round_step_ok [OF V(1) sub(1) Cons.prems(2) st]
      round_step_frame [OF st] Cons.prems(3,4) x outs by auto
qed simp

lemma round_ok_new: "round_ok cr v e V (round_state_new interval now)"
  by (simp add: round_ok_def round_state_new_def pending_ok_new)

section \<open>Properties\<close>

text \<open>
  C7: The pacemaker keeps running.  Let its first call be \<open>process_certificates\<close>, as in
  \<open>RoundManager::init\<close>, let the votes inserted be verified votes of the epoch, and let no round or time
  be within a few units of overflowing.  Then no call panics, whatever the calls and their order: as many
  results are returned as calls are made.  (A local timeout handled before the first certificate would
  panic in \<open>setup_deadline\<close>.)
\<close>
theorem pacemaker_keeps_running:
  assumes "epoch_votes_ok cr v e (run_votes cs)"
    and "\<forall>(now, c)\<in>set cs. call_round c < 2 ^ 64 \<and> call_ordered_round c + 3 < 2 ^ 64 \<and>
        (\<forall>i. now + 2 * interval i \<le> duration_max)"
    and "cs = (now\<^sub>1, Certificates si) # cs'"
    and "round_run cr v cs (round_state_new interval now\<^sub>0) = ((outs :: ('e, round_output) outcome list), rs)"
  shows "length outs = length cs \<and> list_all is_ok outs"
  using assms(2,3)
  by (intro round_run_total [OF assms(1) order_refl round_ok_new _ _ _ assms(4)]) (auto simp: round_state_new_def)

definition sample_calls :: "(duration \<times> round_call) list" where
  "sample_calls =
     [(0, Certificates (sync_info_new (sample_qc 0) (sample_qc 0) None)), (1, InsertVote (sample_vote 1 1)),
      (2, RecordVote (sample_vote 1 1)), (3, InsertVote (sample_vote 2 1)), (4, LocalTimeout 1),
      (5, InsertVote (sample_vote 3 1))]"

lemma sample_calls_votes: "epoch_votes_ok sample_crypto four_verifier 1 (run_votes sample_calls)"
proof -
  have "run_votes sample_calls = set sample_votes"
    by (auto simp: run_votes_def sample_calls_def sample_votes_def)
  then show ?thesis using sample_votes_ok by (simp add: epoch_votes_ok_def votes_ok_def)
qed

lemma sample_sync_info:
  "highest_round (sync_info_new (sample_qc 0) (sample_qc 0) None) = 0"
  "highest_ordered_round (sync_info_new (sample_qc 0) (sample_qc 0) None) = 0"
  by (simp_all add: highest_round_def highest_certified_round_def highest_timeout_round_def
      highest_ordered_round_def highest_ordered_cert_def sync_info_new_def sync_info_new_decoupled_def
      sample_qc_def sample_li_def sample_info_def certified_block_def qc_commit_info_def lis_new_def
      option_filter_def split: option.splits)

lemma sample_calls_bounds:
  "\<forall>(now, c)\<in>set sample_calls. call_round c < 2 ^ 64 \<and> call_ordered_round c + 3 < 2 ^ 64 \<and>
      (\<forall>i. now + 2 * (\<lambda>_. 1000) (i :: u64) \<le> duration_max)"
  by (simp add: sample_calls_def sample_sync_info duration_max_def)

theorem pacemaker_keeps_running_witness:
  "length (fst (round_run sample_crypto four_verifier sample_calls (round_state_new (\<lambda>_. 1000) 0)
     :: (unit, round_output) outcome list \<times> round_state)) = length sample_calls"
proof -
  obtain outs rs where run: "round_run sample_crypto four_verifier sample_calls (round_state_new (\<lambda>_. 1000) 0) =
      ((outs :: (unit, round_output) outcome list), rs)" by fastforce
  have "length outs = length sample_calls \<and> list_all is_ok outs"
    by (rule pacemaker_keeps_running [OF sample_calls_votes sample_calls_bounds _ run]) (simp add: sample_calls_def)
  then show ?thesis by (simp add: run)
qed

text \<open>
  C8: The current round is always one more than the highest certified or timed-out round that the pacemaker
  was told of, the committed round is the highest ordered round it was told of, and no other call changes
  them: the comment \<open>Current round is max{highest_qc, highest_tc} + 1\<close> of the source.
\<close>
theorem current_round_follows_certificates:
  assumes "round_run cr v cs (round_state_new interval now\<^sub>0) = ((outs :: ('e, round_output) outcome list), rs)"
    and "list_all is_ok outs"
  shows "unat (current_round rs) = fold max (map (call_round \<circ> snd) cs) 0 \<and>
    unat (highest_committed_round rs) = fold max (map (call_ordered_round \<circ> snd) cs) 0"
  using round_run_rounds [OF assms] by (simp add: round_state_new_def)

lemma sample_run_ok:
  "list_all is_ok (fst (round_run sample_crypto four_verifier sample_calls (round_state_new (\<lambda>_. 1000) 0)
     :: (unit, round_output) outcome list \<times> round_state))"
proof -
  obtain outs rs where run: "round_run sample_crypto four_verifier sample_calls (round_state_new (\<lambda>_. 1000) 0) =
      ((outs :: (unit, round_output) outcome list), rs)" by fastforce
  have "length outs = length sample_calls \<and> list_all is_ok outs"
    using sample_calls_bounds
    by (intro round_run_total [OF sample_calls_votes order_refl round_ok_new _ _ _ run])
      (simp_all add: round_state_new_def, simp add: sample_calls_def)
  then show ?thesis by (simp add: run)
qed

theorem current_round_follows_certificates_witness:
  "unat (current_round (snd (round_run sample_crypto four_verifier sample_calls (round_state_new (\<lambda>_. 1000) 0)
     :: (unit, round_output) outcome list \<times> round_state))) = 1"
proof -
  obtain outs rs where run: "round_run sample_crypto four_verifier sample_calls (round_state_new (\<lambda>_. 1000) 0) =
      ((outs :: (unit, round_output) outcome list), rs)" by fastforce
  have "unat (current_round rs) = fold max (map (call_round \<circ> snd) sample_calls) 0"
    using current_round_follows_certificates [OF run] sample_run_ok by (simp add: run)
  then have "unat (current_round rs) = 1" by (simp add: sample_calls_def sample_sync_info)
  then show ?thesis by (simp add: run)
qed

text \<open>
  C9: The \<open>NewRoundEvent\<close>s of a run are strictly increasing, as the source promises its consumers, also in
  a run that panics.
\<close>
theorem new_round_events_increase:
  "sorted_wrt (<) (run_rounds (fst (round_run cr v cs (round_state_new interval now\<^sub>0)
      :: ('e, round_output) outcome list \<times> round_state)))"
proof -
  obtain outs rs where run: "round_run cr v cs (round_state_new interval now\<^sub>0) =
      ((outs :: ('e, round_output) outcome list), rs)" by fastforce
  from round_run_increase [OF run] show ?thesis by (simp add: run)
qed

text \<open>
  C10: Every quorum and timeout certificate that the pacemaker reports in a run passes its verification:
  the votes of one round are never aggregated with those of another.
\<close>
theorem pacemaker_certificates_verify:
  assumes "epoch_votes_ok cr v e (run_votes cs)"
  shows "list_all (\<lambda>out. case out of
      Ok (Received (NewQuorumCertificate qc)) \<Rightarrow> qc_verify cr qc v = Ok ()
    | Ok (Received (New2ChainTimeoutCertificate tc)) \<Rightarrow> tc_verify cr tc v = Ok ()
    | _ \<Rightarrow> True)
    (fst (round_run cr v cs (round_state_new interval now\<^sub>0) :: ('e, round_output) outcome list \<times> round_state))"
proof -
  obtain outs rs where run: "round_run cr v cs (round_state_new interval now\<^sub>0) =
      ((outs :: ('e, round_output) outcome list), rs)" by fastforce
  show ?thesis
    using round_run_ok [OF assms order_refl round_ok_new run]
    by (auto simp: run list_all_iff output_ok_def split: outcome.splits)
qed

theorem pacemaker_certificates_verify_witness:
  "list_all (\<lambda>out. case out of
      Ok (Received (NewQuorumCertificate qc)) \<Rightarrow> qc_verify sample_crypto qc four_verifier = Ok ()
    | Ok (Received (New2ChainTimeoutCertificate tc)) \<Rightarrow> tc_verify sample_crypto tc four_verifier = Ok ()
    | _ \<Rightarrow> True)
    (fst (round_run sample_crypto four_verifier sample_calls (round_state_new (\<lambda>_. 1000) 0)
       :: (unit, round_output) outcome list \<times> round_state))"
  by (rule pacemaker_certificates_verify [OF sample_calls_votes])

end
