(* ===== verification/Executed_Block.thy ===== *)
theory Executed_Block
  imports Consensus_Messages
begin

text \<open>
  Blocks with their execution result (\<open>src/consensus/consensus-types/src/executed_block.rs\<close>,
  \<open>src/execution/executor-types/src/lib.rs\<close>).  An event and the status of a kept transaction are opaque
  to consensus and are their serialised bytes.
\<close>

section \<open>Definitions\<close>

type_synonym contract_event = "u8 list"
type_synonym execution_status = "u8 list"
type_synonym status_code = u64

datatype transaction_status =
    Discard status_code
  | Keep execution_status
  | Retry

definition is_discarded :: "transaction_status \<Rightarrow> bool" where
  "is_discarded s = (case s of Discard _ \<Rightarrow> True | Keep _ \<Rightarrow> False | Retry \<Rightarrow> True)"

record state_compute_result =
  scr_root_hash :: hash_value
  scr_frozen_subtree_roots :: "hash_value list"
  scr_parent_frozen_subtree_roots :: "hash_value list"
  scr_num_leaves :: u64
  scr_parent_num_leaves :: u64
  scr_epoch_state :: "epoch_state option"
  scr_compute_status :: "transaction_status list"
  scr_transaction_info_hashes :: "hash_value list"
  scr_reconfig_events :: "contract_event list"

definition new_dummy_with_root_hash :: "hash_value \<Rightarrow> state_compute_result" where
  "new_dummy_with_root_hash h =
     \<lparr>scr_root_hash = h, scr_frozen_subtree_roots = [], scr_parent_frozen_subtree_roots = [],
      scr_num_leaves = 0, scr_parent_num_leaves = 0, scr_epoch_state = None, scr_compute_status = [],
      scr_transaction_info_hashes = [], scr_reconfig_events = []\<rparr>"

definition scr_new_dummy :: state_compute_result where
  "scr_new_dummy = new_dummy_with_root_hash accumulator_placeholder_hash"

definition scr_version :: "state_compute_result \<Rightarrow> ('e, version) outcome" where
  "scr_version r = expect (checked_sub (max (scr_num_leaves r) 1) 1)"

definition scr_extension_proof :: "state_compute_result \<Rightarrow> accumulator_extension_proof" where
  "scr_extension_proof r =
     \<lparr>aep_frozen_subtree_roots = scr_parent_frozen_subtree_roots r,
      aep_num_leaves = scr_parent_num_leaves r, aep_leaves = scr_transaction_info_hashes r\<rparr>"

definition scr_has_reconfiguration :: "state_compute_result \<Rightarrow> bool" where
  "scr_has_reconfiguration r = (scr_epoch_state r \<noteq> None)"

record executed_block =
  eb_block :: block
  eb_compute_result :: state_compute_result

definition executed_block_new :: "block \<Rightarrow> state_compute_result \<Rightarrow> executed_block" where
  "executed_block_new b r = \<lparr>eb_block = b, eb_compute_result = r\<rparr>"

definition eb_id :: "executed_block \<Rightarrow> hash_value" where
  "eb_id b = blk_id (eb_block b)"

definition eb_parent_id :: "executed_block \<Rightarrow> hash_value" where
  "eb_parent_id b = bi_id (certified_block (blk_quorum_cert (eb_block b)))"

definition eb_round :: "executed_block \<Rightarrow> round" where
  "eb_round b = blk_round (eb_block b)"

definition eb_block_info :: "executed_block \<Rightarrow> ('e, block_info) outcome" where
  "eb_block_info b =
     and_then (scr_version (eb_compute_result b)) (\<lambda>v.
     Ok (gen_block_info (eb_block b) (scr_root_hash (eb_compute_result b)) v
       (scr_epoch_state (eb_compute_result b))))"

definition eb_vote_proposal :: "executed_block \<Rightarrow> bool \<Rightarrow> vote_proposal" where
  "eb_vote_proposal b decoupled_execution =
     \<lparr>vp_accumulator_extension_proof = scr_extension_proof (eb_compute_result b), vp_block = eb_block b,
      vp_next_epoch_state = scr_epoch_state (eb_compute_result b),
      vp_decoupled_execution = decoupled_execution\<rparr>"

text \<open>A block after a reconfiguration block of the same epoch carries the epoch state over and runs nothing.\<close>

definition eb_is_reconfiguration_suffix :: "executed_block \<Rightarrow> bool" where
  "eb_is_reconfiguration_suffix b =
     (scr_has_reconfiguration (eb_compute_result b) \<and> scr_compute_status (eb_compute_result b) = [])"

text \<open>\<open>itertools::zip_eq\<close> panics when one list ends before the other.\<close>

fun zip_eq :: "'a list \<Rightarrow> 'b list \<Rightarrow> ('e, ('a \<times> 'b) list) outcome" where
  "zip_eq [] [] = Ok []"
| "zip_eq (x # xs) (y # ys) = and_then (zip_eq xs ys) (\<lambda>r. Ok ((x, y) # r))"
| "zip_eq _ _ = Panic"

definition transactions_to_commit :: "executed_block \<Rightarrow> account_address list \<Rightarrow> ('e, transaction list) outcome" where
  "transactions_to_commit b validators =
     (if eb_is_reconfiguration_suffix b then Ok []
      else and_then (transactions_to_execute (eb_block b) validators) (\<lambda>txns.
        and_then (zip_eq txns (scr_compute_status (eb_compute_result b))) (\<lambda>pairs.
        Ok (map fst (filter (\<lambda>(txn, status). case status of Keep _ \<Rightarrow> True | _ \<Rightarrow> False) pairs)))))"

definition eb_reconfig_event :: "executed_block \<Rightarrow> contract_event list" where
  "eb_reconfig_event b =
     (if eb_is_reconfiguration_suffix b then [] else scr_reconfig_events (eb_compute_result b))"

section \<open>Lemmas\<close>

lemma zip_eq_eq: "zip_eq xs ys = (if length xs = length ys then Ok (zip xs ys) else Panic)"
  by (induction xs ys rule: zip_eq.induct) auto

lemma scr_version_Ok: "scr_version r = Ok (if scr_num_leaves r = 0 then 0 else scr_num_leaves r - 1)"
proof -
  have "1 \<le> scr_num_leaves r" if "scr_num_leaves r \<noteq> 0"
    using that by (simp add: word_le_nat_alt unat_gt_0 Suc_leI)
  then show ?thesis by (auto simp: scr_version_def checked_sub_def max_def)
qed

end
