(* ===== verification/Block_Tree.thy ===== *)
theory Block_Tree
  imports Executed_Block
begin

text \<open>
  The tree of speculative blocks (\<open>src/consensus/src/block_storage/block_tree.rs\<close>).

  The hash maps of the source are finite maps.  The order in which a hash set is iterated is not
  specified by the source: it is the parameter \<open>iter\<close>, of which the properties assume no more than
  \<open>hash_iter iter\<close>.  The two loops over the tree are \<open>partial_function\<close>s, whose value \<open>None\<close> is a loop
  that does not end.  \<open>checked_verify_eq!\<close> is an assertion, \<open>precondition!\<close> is read by the MIRAI analyser
  only.
\<close>

section \<open>Definitions\<close>

type_synonym hash_order = "hash_value set \<Rightarrow> hash_value list"

record linkable_block =
  lb_executed_block :: executed_block
  lb_children :: "hash_value set"

definition linkable_block_new :: "executed_block \<Rightarrow> linkable_block" where
  "linkable_block_new b = \<lparr>lb_executed_block = b, lb_children = {}\<rparr>"

definition add_child :: "hash_value \<Rightarrow> linkable_block \<Rightarrow> ('e, linkable_block) outcome" where
  "add_child child_id lb =
     and_then (assert_panic (child_id \<notin> lb_children lb)) (\<lambda>_.
     Ok (lb\<lparr>lb_children := insert child_id (lb_children lb)\<rparr>))"

definition lb_id :: "linkable_block \<Rightarrow> hash_value" where
  "lb_id lb = eb_id (lb_executed_block lb)"

record block_tree =
  id_to_block :: "(hash_value, linkable_block) fmap"
  ordered_root_id :: hash_value
  commit_root_id :: hash_value
  highest_certified_block_id :: hash_value
  bt_highest_quorum_cert :: quorum_cert
  bt_highest_2chain_timeout_cert :: "two_chain_timeout_certificate option"
  bt_highest_ordered_cert :: quorum_cert
  bt_highest_commit_cert :: quorum_cert
  id_to_quorum_cert :: "(hash_value, quorum_cert) fmap"
  pruned_block_ids :: "hash_value list"
  max_pruned_blocks_in_mem :: nat

definition block_tree_new ::
    "executed_block \<Rightarrow> quorum_cert \<Rightarrow> quorum_cert \<Rightarrow> quorum_cert \<Rightarrow> nat \<Rightarrow>
     two_chain_timeout_certificate option \<Rightarrow> (anyhow_error, block_tree) outcome" where
  "block_tree_new root root_quorum_cert root_ordered_cert root_commit_cert max_pruned htc =
     and_then (assert_panic (eb_id root = bi_id (qc_commit_info root_ordered_cert))) (\<lambda>_.
     Ok \<lparr>id_to_block = fmupd (eb_id root) (linkable_block_new root) fmempty,
         ordered_root_id = eb_id root, commit_root_id = eb_id root, highest_certified_block_id = eb_id root,
         bt_highest_quorum_cert = root_quorum_cert, bt_highest_2chain_timeout_cert = htc,
         bt_highest_ordered_cert = root_ordered_cert, bt_highest_commit_cert = root_commit_cert,
         id_to_quorum_cert = fmupd (bi_id (certified_block root_quorum_cert)) root_quorum_cert fmempty,
         pruned_block_ids = [], max_pruned_blocks_in_mem = max_pruned\<rparr>)"

definition get_linkable_block :: "block_tree \<Rightarrow> hash_value \<Rightarrow> linkable_block option" where
  "get_linkable_block t i = fmlookup (id_to_block t) i"

definition get_all_quorum_certs_with_commit_info :: "hash_order \<Rightarrow> block_tree \<Rightarrow> quorum_cert list" where
  "get_all_quorum_certs_with_commit_info iter t =
     filter (\<lambda>qc. qc_commit_info qc \<noteq> block_info_empty)
       (map (\<lambda>i. the (fmlookup (id_to_quorum_cert t) i)) (iter (fset (fmdom (id_to_quorum_cert t)))))"

definition linkable_root :: "block_tree \<Rightarrow> ('e, linkable_block) outcome" where
  "linkable_root t = expect (get_linkable_block t (commit_root_id t))"

definition remove_block :: "hash_value \<Rightarrow> block_tree \<Rightarrow> block_tree" where
  "remove_block i t =
     t\<lparr>id_to_block := fmdrop i (id_to_block t), id_to_quorum_cert := fmdrop i (id_to_quorum_cert t)\<rparr>"

definition block_exists :: "block_tree \<Rightarrow> hash_value \<Rightarrow> bool" where
  "block_exists t i = (fmlookup (id_to_block t) i \<noteq> None)"

definition get_block :: "block_tree \<Rightarrow> hash_value \<Rightarrow> executed_block option" where
  "get_block t i = map_option lb_executed_block (get_linkable_block t i)"

definition ordered_root :: "block_tree \<Rightarrow> ('e, executed_block) outcome" where
  "ordered_root t = expect (get_block t (ordered_root_id t))"

definition commit_root :: "block_tree \<Rightarrow> ('e, executed_block) outcome" where
  "commit_root t = expect (get_block t (commit_root_id t))"

definition highest_certified_block :: "block_tree \<Rightarrow> ('e, executed_block) outcome" where
  "highest_certified_block t = expect (get_block t (highest_certified_block_id t))"

definition replace_2chain_timeout_cert :: "two_chain_timeout_certificate \<Rightarrow> block_tree \<Rightarrow> block_tree" where
  "replace_2chain_timeout_cert tc t = t\<lparr>bt_highest_2chain_timeout_cert := Some tc\<rparr>"

definition get_quorum_cert_for_block :: "block_tree \<Rightarrow> hash_value \<Rightarrow> quorum_cert option" where
  "get_quorum_cert_for_block t i = fmlookup (id_to_quorum_cert t) i"

definition insert_block :: "executed_block \<Rightarrow> (block_tree, anyhow_error, executed_block) stateful" where
  "insert_block b t =
     (case get_block t (eb_id b) of
        Some existing \<Rightarrow>
          (and_then (assert_panic (eb_compute_result existing = eb_compute_result b)) (\<lambda>_. Ok existing), t)
      | None \<Rightarrow>
          (case get_linkable_block t (eb_parent_id b) of
             None \<Rightarrow> (Err (Msg ''Parent block not found''), t)
           | Some parent \<Rightarrow>
               (case add_child (eb_id b) parent of
                  Ok parent' \<Rightarrow>
                    (let t1 = t\<lparr>id_to_block := fmupd (eb_parent_id b) parent' (id_to_block t)\<rparr>;
                         t2 = t1\<lparr>id_to_block := fmupd (eb_id b) (linkable_block_new b) (id_to_block t1)\<rparr>
                     in (and_then (assert_panic (get_linkable_block t1 (eb_id b) = None)) (\<lambda>_. Ok b), t2))
                | Err e \<Rightarrow> (Err e, t)
                | Panic \<Rightarrow> (Panic, t))))"

definition insert_quorum_cert :: "quorum_cert \<Rightarrow> (block_tree, anyhow_error, unit) stateful" where
  "insert_quorum_cert qc t =
     (let block_id = bi_id (certified_block qc)
      in case get_block t block_id of
           None \<Rightarrow> (Err (Msg ''Block not found''), t)
         | Some b \<Rightarrow>
             sbind (sread highest_certified_block) (\<lambda>highest t.
               let t1 = (if eb_round b > eb_round highest
                         then t\<lparr>highest_certified_block_id := eb_id b, bt_highest_quorum_cert := qc\<rparr> else t);
                   t2 = (case fmlookup (id_to_quorum_cert t1) block_id of
                           None \<Rightarrow> t1\<lparr>id_to_quorum_cert := fmupd block_id qc (id_to_quorum_cert t1)\<rparr>
                         | Some _ \<Rightarrow> t1)
               in (Ok (), if bi_round (qc_commit_info (bt_highest_ordered_cert t2)) < bi_round (qc_commit_info qc)
                          then t2\<lparr>bt_highest_ordered_cert := qc\<rparr> else t2)) t)"

text \<open>The stack of \<open>find_blocks_to_prune\<close> is a list with its top first.\<close>

primrec push_children ::
    "block_tree \<Rightarrow> hash_value \<Rightarrow> hash_value list \<Rightarrow> linkable_block list \<Rightarrow> (anyhow_error, linkable_block list) outcome" where
  "push_children t next_root_id [] stack = Ok stack"
| "push_children t next_root_id (c # cs) stack =
     (if next_root_id = c then push_children t next_root_id cs stack
      else and_then (expect (get_linkable_block t c)) (\<lambda>lb.
           push_children t next_root_id cs (lb # stack)))"

partial_function (option) prune_loop ::
    "hash_order \<Rightarrow> block_tree \<Rightarrow> hash_value \<Rightarrow> linkable_block list \<Rightarrow> hash_value list \<Rightarrow>
     (anyhow_error, hash_value list) outcome option" where
  "prune_loop iter t next_root_id stack pruned =
     (case stack of
        [] \<Rightarrow> Some (Ok pruned)
      | block_to_remove # rest \<Rightarrow>
          (case push_children t next_root_id (iter (lb_children block_to_remove)) rest of
             Ok stack' \<Rightarrow> prune_loop iter t next_root_id stack' (pruned @ [lb_id block_to_remove])
           | Err e \<Rightarrow> Some (Err e)
           | Panic \<Rightarrow> Some Panic))"

definition find_blocks_to_prune ::
    "hash_order \<Rightarrow> block_tree \<Rightarrow> hash_value \<Rightarrow> (anyhow_error, hash_value list) outcome option" where
  "find_blocks_to_prune iter t next_root_id =
     (if next_root_id = commit_root_id t then Some (Ok [])
      else (case get_linkable_block t (commit_root_id t) of
              None \<Rightarrow> Some Panic
            | Some root \<Rightarrow> prune_loop iter t next_root_id [root] []))"

definition update_ordered_root :: "hash_value \<Rightarrow> (block_tree, anyhow_error, unit) stateful" where
  "update_ordered_root root_id t =
     (if block_exists t root_id then (Ok (), t\<lparr>ordered_root_id := root_id\<rparr>) else (Panic, t))"

definition update_commit_root :: "hash_value \<Rightarrow> (block_tree, anyhow_error, unit) stateful" where
  "update_commit_root root_id t =
     (if block_exists t root_id then (Ok (), t\<lparr>commit_root_id := root_id\<rparr>) else (Panic, t))"

definition update_highest_commit_cert :: "quorum_cert \<Rightarrow> (block_tree, anyhow_error, unit) stateful" where
  "update_highest_commit_cert new_commit_cert t =
     (if bi_round (qc_commit_info new_commit_cert) > bi_round (qc_commit_info (bt_highest_commit_cert t))
      then update_commit_root (bi_id (qc_commit_info new_commit_cert))
             (t\<lparr>bt_highest_commit_cert := new_commit_cert\<rparr>)
      else (Ok (), t))"

primrec pop_pruned :: "nat \<Rightarrow> block_tree \<Rightarrow> block_tree" where
  "pop_pruned 0 t = t"
| "pop_pruned (Suc n) t =
     pop_pruned n
       (case pruned_block_ids t of
          [] \<Rightarrow> t
        | i # rest \<Rightarrow> remove_block i (t\<lparr>pruned_block_ids := rest\<rparr>))"

definition process_pruned_blocks :: "hash_value list \<Rightarrow> block_tree \<Rightarrow> block_tree" where
  "process_pruned_blocks newly_pruned_blocks t =
     (let t1 = t\<lparr>pruned_block_ids := pruned_block_ids t @ newly_pruned_blocks\<rparr>
      in if length (pruned_block_ids t1) > max_pruned_blocks_in_mem t1
         then pop_pruned (length (pruned_block_ids t1) - max_pruned_blocks_in_mem t1) t1
         else t1)"

partial_function (option) path_loop ::
    "block_tree \<Rightarrow> round \<Rightarrow> hash_value \<Rightarrow> executed_block list \<Rightarrow> (hash_value \<times> executed_block list) option option" where
  "path_loop t root_round cur_block_id res =
     (case get_block t cur_block_id of
        None \<Rightarrow> Some None
      | Some b \<Rightarrow>
          if eb_round b \<le> root_round then Some (Some (cur_block_id, res))
          else path_loop t root_round (eb_parent_id b) (res @ [b]))"

definition path_from_root_to_block ::
    "block_tree \<Rightarrow> hash_value \<Rightarrow> hash_value \<Rightarrow> round \<Rightarrow> executed_block list option option" where
  "path_from_root_to_block t block_id root_id root_round =
     map_option (\<lambda>r. case r of
         None \<Rightarrow> None
       | Some (cur_block_id, res) \<Rightarrow> if cur_block_id \<noteq> root_id then None else Some (rev res))
       (path_loop t root_round block_id [])"

definition path_from_ordered_root :: "block_tree \<Rightarrow> hash_value \<Rightarrow> (anyhow_error, executed_block list option option) outcome" where
  "path_from_ordered_root t block_id =
     and_then (ordered_root t) (\<lambda>root.
     Ok (path_from_root_to_block t block_id (ordered_root_id t) (eb_round root)))"

definition path_from_commit_root :: "block_tree \<Rightarrow> hash_value \<Rightarrow> (anyhow_error, executed_block list option option) outcome" where
  "path_from_commit_root t block_id =
     and_then (commit_root t) (\<lambda>root.
     Ok (path_from_root_to_block t block_id (commit_root_id t) (eb_round root)))"

text \<open>
  The result of the callback is the list of ids whose deletion it requested from the persistent storage;
  a failure of that deletion is logged and otherwise ignored.
\<close>

definition commit_callback ::
    "hash_order \<Rightarrow> executed_block list \<Rightarrow> quorum_cert \<Rightarrow> ledger_info_with_signatures \<Rightarrow> block_tree \<Rightarrow>
     ((anyhow_error, hash_value list) outcome \<times> block_tree) option" where
  "commit_callback iter blocks_to_commit finality_proof commit_decision t =
     (case create_merged_with_executed_state finality_proof commit_decision of
        Ok commit_proof \<Rightarrow>
          (if blocks_to_commit = [] then Some (Panic, t)
           else (case (commit_root t :: (anyhow_error, executed_block) outcome) of
                   Ok _ \<Rightarrow>
                     (case find_blocks_to_prune iter t (eb_id (last blocks_to_commit)) of
                        None \<Rightarrow> None
                      | Some (Ok id_to_remove) \<Rightarrow>
                          Some (sbind (update_highest_commit_cert commit_proof) (\<lambda>_ t. (Ok id_to_remove, t))
                                  (process_pruned_blocks id_to_remove t))
                      | Some (Err e) \<Rightarrow> Some (Err e, t)
                      | Some Panic \<Rightarrow> Some (Panic, t))
                 | _ \<Rightarrow> Some (Panic, t)))
      | _ \<Rightarrow> Some (Panic, t))"

end
