(* ===== verification/Forests.thy ===== *)
theory Forests
  imports Main
begin

text \<open>
  Forests as edge relations: every node has at most one parent and a rank greater than its parent's.  The
  block tree relies on this interface; its links are an interpretation of it.
\<close>

locale forest =
  fixes E :: "('a \<times> 'a) set" and rank :: "'a \<Rightarrow> nat"
  assumes unique_parent: "(a, c) \<in> E \<Longrightarrow> (b, c) \<in> E \<Longrightarrow> a = b"
    and rank_increases: "(a, b) \<in> E \<Longrightarrow> rank a < rank b"
begin

lemma reach_rank: "(a, b) \<in> E\<^sup>* \<Longrightarrow> a = b \<or> rank a < rank b"
  by (induction rule: rtrancl_induct) (auto dest: rank_increases)

lemma reach_antisym: "(a, b) \<in> E\<^sup>* \<Longrightarrow> (b, a) \<in> E\<^sup>* \<Longrightarrow> a = b"
  by (auto dest!: reach_rank)

lemma ancestors_comparable: "(a, x) \<in> E\<^sup>* \<Longrightarrow> (b, x) \<in> E\<^sup>* \<Longrightarrow> (a, b) \<in> E\<^sup>* \<or> (b, a) \<in> E\<^sup>*"
proof (induction arbitrary: b rule: rtrancl_induct)
  case (step y z)
  from step.prems show ?case
  proof (cases rule: rtranclE)
    case base
    then show ?thesis using step.hyps by (auto intro: rtrancl_into_rtrancl)
  next
    case (step y')
    then have "y' = y" using \<open>(y, z) \<in> E\<close> by (blast dest: unique_parent)
    then show ?thesis using step.IH step(1) by blast
  qed
qed auto

lemma reach_parent: "(a, c) \<in> E\<^sup>* \<Longrightarrow> (p, c) \<in> E \<Longrightarrow> a \<noteq> c \<Longrightarrow> (a, p) \<in> E\<^sup>*"
  by (erule rtranclE) (auto dest: unique_parent)

lemma siblings_disjoint:
  assumes "(p, a) \<in> E" "(p, b) \<in> E" "a \<noteq> b"
  shows "E\<^sup>* `` {a} \<inter> E\<^sup>* `` {b} = {}"
proof -
  have False if "(x, y) \<in> E\<^sup>*" "(p, x) \<in> E" "(p, y) \<in> E" "x \<noteq> y" for x y
    using reach_rank [OF reach_parent [OF that(1,3,4)]] rank_increases [OF that(2)] by auto
  then show ?thesis using ancestors_comparable assms by blast
qed

lemma reach_unfold: "E\<^sup>* `` {a} = insert a (\<Union>c\<in>E `` {a}. E\<^sup>* `` {c})"
  by (auto elim: converse_rtranclE intro: converse_rtrancl_into_rtrancl)

lemma node_not_below_child: "(a, c) \<in> E \<Longrightarrow> (c, a) \<notin> E\<^sup>*"
  by (auto dest!: reach_rank dest: rank_increases)

text \<open>The subtree below \<open>n\<close> is cut off by dropping the edge into \<open>n\<close>.\<close>

lemma cut_subtree:
  assumes "(r, n) \<in> E\<^sup>*" "r \<noteq> n"
  shows "{(p, c) \<in> E. c \<noteq> n}\<^sup>* `` {r} = E\<^sup>* `` {r} - E\<^sup>* `` {n}" (is "?C\<^sup>* `` _ = _")
proof (intro set_eqI iffI)
  fix x assume "x \<in> ?C\<^sup>* `` {r}"
  then have "(r, x) \<in> ?C\<^sup>*" by simp
  then have "(r, x) \<in> E\<^sup>* \<and> (n, x) \<notin> E\<^sup>*"
  proof (induction rule: rtrancl_induct)
    case base
    then show ?case using reach_antisym assms by auto
  next
    case (step y z)
    then show ?case using reach_parent [of n z y] by (auto intro: rtrancl_into_rtrancl)
  qed
  then show "x \<in> E\<^sup>* `` {r} - E\<^sup>* `` {n}" by simp
next
  fix x assume "x \<in> E\<^sup>* `` {r} - E\<^sup>* `` {n}"
  then have "(r, x) \<in> E\<^sup>*" "(n, x) \<notin> E\<^sup>*" by auto
  then have "(r, x) \<in> ?C\<^sup>*"
  proof (induction rule: rtrancl_induct)
    case (step y z)
    then have "z \<noteq> n" "(n, y) \<notin> E\<^sup>*" by (auto intro: rtrancl_into_rtrancl)
    then show ?case using step by (auto intro: rtrancl_into_rtrancl)
  qed simp
  then show "x \<in> ?C\<^sup>* `` {r}" by simp
qed

end

end
