(* ===== verification/Block_Tree_Pruning.thy ===== *)
theory Block_Tree_Pruning
  imports Block_Tree Forests
begin

text \<open>
  The invariant of the block tree, that the search for the blocks to prune ends and finds exactly the
  blocks that are not below the new root, and that removing pruned blocks keeps the invariant.
\<close>

section \<open>Vocabulary\<close>

definition hash_iter :: "hash_order \<Rightarrow> bool" where
  "hash_iter iter = (\<forall>S. finite S \<longrightarrow> set (iter S) = S \<and> distinct (iter S))"

text \<open>
  The blocks that are ever inserted: a block's round is greater than that of the block it extends, which
  \<open>Block::verify_well_formed\<close> checks against the round in its quorum certificate.
\<close>

definition chain_ordered :: "executed_block set \<Rightarrow> bool" where
  "chain_ordered U = (\<forall>b\<in>U. \<forall>b'\<in>U. eb_id b = eb_parent_id b' \<longrightarrow> eb_round b < eb_round b')"

abbreviation tlookup :: "block_tree \<Rightarrow> hash_value \<Rightarrow> linkable_block option" where
  "tlookup t i \<equiv> fmlookup (id_to_block t) i"

abbreviation lb_round :: "linkable_block \<Rightarrow> round" where
  "lb_round lb \<equiv> eb_round (lb_executed_block lb)"

abbreviation lb_parent :: "linkable_block \<Rightarrow> hash_value" where
  "lb_parent lb \<equiv> eb_parent_id (lb_executed_block lb)"

text \<open>A link of the tree: a child link that the parent link of the child confirms.\<close>

definition tree_links :: "block_tree \<Rightarrow> (hash_value \<times> hash_value) set" where
  "tree_links t =
     {(p, c). \<exists>lp lc. tlookup t p = Some lp \<and> tlookup t c = Some lc \<and> c \<in> lb_children lp \<and>
        lb_parent lc = p \<and> lb_round lp < lb_round lc}"

definition cut_links :: "block_tree \<Rightarrow> hash_value \<Rightarrow> (hash_value \<times> hash_value) set" where
  "cut_links t n = {(p, c) \<in> tree_links t. c \<noteq> n}"

definition block_rank :: "block_tree \<Rightarrow> hash_value \<Rightarrow> nat" where
  "block_rank t i = (case tlookup t i of None \<Rightarrow> 0 | Some lb \<Rightarrow> unat (lb_round lb))"

interpretation tl: forest "tree_links t" "block_rank t" for t
  by unfold_locales (auto simp: tree_links_def block_rank_def word_less_nat_alt)

interpretation cut: forest "cut_links t n" "block_rank t" for t n
  by unfold_locales (auto simp: cut_links_def dest: tl.unique_parent tl.rank_increases)

abbreviation below :: "block_tree \<Rightarrow> hash_value \<Rightarrow> hash_value set" where
  "below t i \<equiv> (tree_links t)\<^sup>* `` {i}"

abbreviation cut_below :: "block_tree \<Rightarrow> hash_value \<Rightarrow> hash_value \<Rightarrow> hash_value set" where
  "cut_below t n i \<equiv> (cut_links t n)\<^sup>* `` {i}"

text \<open>The blocks that are not pruned.\<close>

definition live :: "block_tree \<Rightarrow> hash_value set" where
  "live t = below t (commit_root_id t)"

section \<open>The invariant\<close>

definition nodes_ok :: "executed_block set \<Rightarrow> block_tree \<Rightarrow> bool" where
  "nodes_ok U t =
     (\<forall>i lb. tlookup t i = Some lb \<longrightarrow>
        lb_id lb = i \<and> lb_executed_block lb \<in> U \<and> finite (lb_children lb) \<and>
        (\<forall>c\<in>lb_children lb. \<exists>lc. tlookup t c = Some lc \<and> lb_parent lc = i))"

text \<open>Blocks are removed parents first: the parent of a pruned block, if stored, was pruned before it.\<close>

definition parents_first :: "block_tree \<Rightarrow> hash_value list \<Rightarrow> bool" where
  "parents_first t is =
     (\<forall>xs c ys p lp. is = xs @ c # ys \<longrightarrow> tlookup t p = Some lp \<longrightarrow> c \<in> lb_children lp \<longrightarrow> p \<in> set xs)"

definition tree_ok :: "executed_block set \<Rightarrow> block_tree \<Rightarrow> bool" where
  "tree_ok U t =
     (nodes_ok U t \<and> tlookup t (commit_root_id t) \<noteq> None \<and>
      distinct (pruned_block_ids t) \<and> set (pruned_block_ids t) \<subseteq> fmdom' (id_to_block t) \<and>
      set (pruned_block_ids t) \<inter> live t = {} \<and>
      parents_first t (pruned_block_ids t) \<and>
      (\<forall>p lp. tlookup t p = Some lp \<longrightarrow> commit_root_id t \<in> lb_children lp \<longrightarrow> p \<in> set (pruned_block_ids t)))"

lemma nodes_okD:
  assumes "nodes_ok U t" "tlookup t i = Some lb"
  shows "lb_id lb = i" "lb_executed_block lb \<in> U" "finite (lb_children lb)"
    "\<And>c. c \<in> lb_children lb \<Longrightarrow> \<exists>lc. tlookup t c = Some lc \<and> lb_parent lc = i"
  using assms by (auto simp: nodes_ok_def)

lemma tree_links_iff:
  assumes "nodes_ok U t" "chain_ordered U"
  shows "(p, c) \<in> tree_links t \<longleftrightarrow> (\<exists>lp. tlookup t p = Some lp \<and> c \<in> lb_children lp)"
proof
  assume "\<exists>lp. tlookup t p = Some lp \<and> c \<in> lb_children lp"
  then obtain lp where lp: "tlookup t p = Some lp" "c \<in> lb_children lp" by blast
  then obtain lc where lc: "tlookup t c = Some lc" "lb_parent lc = p"
    using nodes_okD(4) [OF assms(1)] by blast
  then have "lb_round lp < lb_round lc"
    using assms(2) nodes_okD(1,2) [OF assms(1) lp(1)] nodes_okD(2) [OF assms(1) lc(1)]
    by (auto simp: chain_ordered_def lb_id_def)
  then show "(p, c) \<in> tree_links t" using lp lc by (auto simp: tree_links_def)
qed (auto simp: tree_links_def)

lemma tree_links_image:
  assumes "nodes_ok U t" "chain_ordered U" "tlookup t p = Some lp"
  shows "tree_links t `` {p} = lb_children lp"
  using tree_links_iff [OF assms(1,2)] assms(3) by auto

lemma tree_links_dom: "(p, c) \<in> tree_links t \<Longrightarrow> tlookup t p \<noteq> None \<and> tlookup t c \<noteq> None"
  by (auto simp: tree_links_def)

lemma below_dom:
  assumes "x \<in> below t i"
  shows "x = i \<or> tlookup t x \<noteq> None"
proof -
  from assms have "(i, x) \<in> (tree_links t)\<^sup>*" by simp
  then show ?thesis by (cases rule: rtranclE) (auto dest: tree_links_dom)
qed

lemma cut_below_subset: "cut_below t n i \<subseteq> below t i"
  by (rule Image_mono [OF rtrancl_mono]) (auto simp: cut_links_def)

lemma finite_cut_below: "finite (cut_below t n i)"
proof (rule finite_subset)
  show "cut_below t n i \<subseteq> insert i (fset (fmdom (id_to_block t)))"
    using cut_below_subset [of t n i] below_dom [of _ t i] by (force simp: fmlookup_dom_iff)
qed simp

section \<open>Finding the blocks to prune\<close>

lemma push_children_Ok:
  assumes "\<And>c. c \<in> set cs \<Longrightarrow> tlookup t c \<noteq> None"
  shows "push_children t n cs stack = Ok (rev (map (\<lambda>c. the (tlookup t c)) (filter (\<lambda>c. c \<noteq> n) cs)) @ stack)"
  using assms
proof (induction cs arbitrary: stack)
  case (Cons c cs)
  obtain lb where "tlookup t c = Some lb" using Cons.prems [of c] by auto
  then show ?case using Cons by (cases "n = c") (simp_all add: get_linkable_block_def)
qed simp

definition kept_children :: "hash_order \<Rightarrow> hash_value \<Rightarrow> linkable_block \<Rightarrow> hash_value list" where
  "kept_children iter n b = filter (\<lambda>c. c \<noteq> n) (iter (lb_children b))"

abbreviation disjoint_cuts :: "block_tree \<Rightarrow> hash_value \<Rightarrow> hash_value list \<Rightarrow> bool" where
  "disjoint_cuts t n \<equiv> sorted_wrt (\<lambda>a b. cut_below t n a \<inter> cut_below t n b = {})"

lemma kept_children_facts:
  assumes ok: "nodes_ok U t" "chain_ordered U" and it: "hash_iter iter" and b: "tlookup t i = Some b"
  shows "push_children t n (iter (lb_children b)) rest = Ok (rev (map (\<lambda>c. the (tlookup t c)) (kept_children iter n b)) @ rest)"
    and "map (\<lambda>c. lb_id (the (tlookup t c))) (kept_children iter n b) = kept_children iter n b"
    and "\<And>c. c \<in> set (kept_children iter n b) \<Longrightarrow> tlookup t c = Some (the (tlookup t c))"
    and "cut_links t n `` {i} = set (kept_children iter n b)" "distinct (kept_children iter n b)"
proof -
  have kids: "set (iter (lb_children b)) = lb_children b" "distinct (iter (lb_children b))"
    using it nodes_okD(3) [OF ok(1) b] by (auto simp: hash_iter_def)
  have kid: "\<exists>lc. tlookup t c = Some lc \<and> lb_id lc = c" if "c \<in> lb_children b" for c
    using nodes_okD(1,4) [OF ok(1)] b that by blast
  show "push_children t n (iter (lb_children b)) rest = Ok (rev (map (\<lambda>c. the (tlookup t c)) (kept_children iter n b)) @ rest)"
    unfolding kept_children_def using kid kids(1) by (intro push_children_Ok) force
  show "map (\<lambda>c. lb_id (the (tlookup t c))) (kept_children iter n b) = kept_children iter n b"
    using kid kids(1) by (intro map_idI) (force simp: kept_children_def)
  show "tlookup t c = Some (the (tlookup t c))" if "c \<in> set (kept_children iter n b)" for c
    using kid [of c] kids(1) that by (auto simp: kept_children_def)
  show "cut_links t n `` {i} = set (kept_children iter n b)"
    using tree_links_image [OF ok b] kids by (auto simp: cut_links_def kept_children_def)
  show "distinct (kept_children iter n b)" using kids by (simp add: kept_children_def)
qed

lemma disjoint_cuts_siblings:
  assumes "set cs \<subseteq> cut_links t n `` {i}" "distinct cs"
  shows "disjoint_cuts t n cs"
  using assms cut.siblings_disjoint [of i _ t n]
  by (induction cs) auto

text \<open>Popping a block and pushing its children keeps the subtrees on the stack disjoint, and removes one block.\<close>

lemma disjoint_cuts_step:
  assumes "disjoint_cuts t n (i # ids)" "set cs = cut_links t n `` {i}" "distinct cs"
  shows "disjoint_cuts t n (rev cs @ ids)"
    and "(\<Union>j\<in>set (rev cs @ ids). cut_below t n j) = (\<Union>j\<in>set (i # ids). cut_below t n j) - {i}"
proof -
  have unfold: "cut_below t n i = insert i (\<Union>c\<in>set cs. cut_below t n c)"
    using cut.reach_unfold [of t n i] assms(2) by simp
  have "disjoint_cuts t n (rev cs)" using assms(2,3) by (intro disjoint_cuts_siblings [of _ t n i]) auto
  then show "disjoint_cuts t n (rev cs @ ids)"
    using assms(1) unfold by (auto simp: sorted_wrt_append)
  have "i \<notin> cut_below t n c" if "c \<in> set cs" for c
    using cut.node_not_below_child [of i c t n] assms(2) that by auto
  moreover have "i \<notin> cut_below t n j" if "j \<in> set ids" for j
    using assms(1) that unfold by auto
  ultimately show "(\<Union>j\<in>set (rev cs @ ids). cut_below t n j) = (\<Union>j\<in>set (i # ids). cut_below t n j) - {i}"
    using unfold by auto
qed

lemma prune_loop_correct:
  assumes ok: "nodes_ok U t" "chain_ordered U" "hash_iter iter"
    and stack: "\<And>lb. lb \<in> set stack \<Longrightarrow> tlookup t (lb_id lb) = Some lb" "disjoint_cuts t n (map lb_id stack)"
  shows "\<exists>ws. prune_loop iter t n stack pruned = Some (Ok (pruned @ ws)) \<and>
    set ws = (\<Union>j\<in>set (map lb_id stack). cut_below t n j) \<and> distinct ws \<and>
    (\<forall>xs c ys. ws = xs @ c # ys \<longrightarrow> c \<in> lb_id ` set stack \<or> (\<exists>p\<in>set xs. (p, c) \<in> tree_links t))"
  using stack
proof (induction "card (\<Union>j\<in>set (map lb_id stack). cut_below t n j)" arbitrary: stack pruned rule: less_induct)
  case less
  show ?case
  proof (cases stack)
    case Nil
    then show ?thesis by (simp add: prune_loop.simps)
  next
    case (Cons b rest)
    define i where "i = lb_id b"
    define cs where "cs = kept_children iter n b"
    define stack' where "stack' = rev (map (\<lambda>c. the (tlookup t c)) cs) @ rest"
    have b: "tlookup t i = Some b" using less.prems(1) Cons by (simp add: i_def)
    note cs = kept_children_facts [where n = n, OF ok b, folded cs_def]
    have ids: "map lb_id stack' = rev cs @ map lb_id rest"
      using cs(2) by (simp add: stack'_def comp_def flip: rev_map)
    have look: "tlookup t (lb_id lb) = Some lb" if mem: "lb \<in> set stack'" for lb
    proof (cases "lb \<in> set rest")
      case False
      then obtain c where "c \<in> set cs" "lb = the (tlookup t c)" using mem by (auto simp: stack'_def)
      then have "tlookup t c = Some lb" using cs(3) by simp
      then show ?thesis using nodes_okD(1) [OF ok(1)] by simp
    qed (simp add: less.prems(1) Cons)
    have cuts: "disjoint_cuts t n (i # map lb_id rest)" using less.prems(2) Cons by (simp add: i_def)
    note step = disjoint_cuts_step [OF cuts cs(4) [symmetric] cs(5), folded ids]
    have "card (\<Union>j\<in>set (map lb_id stack'). cut_below t n j) < card (\<Union>j\<in>set (map lb_id stack). cut_below t n j)"
      unfolding step(2) using Cons by (intro psubset_card_mono) (auto simp: finite_cut_below i_def)
    from less.hyps [OF this look step(1), of "pruned @ [i]"] obtain ws where ws:
        "prune_loop iter t n stack' (pruned @ [i]) = Some (Ok ((pruned @ [i]) @ ws))"
        "set ws = (\<Union>j\<in>set (map lb_id stack'). cut_below t n j)" "distinct ws"
        "\<And>xs c ys. ws = xs @ c # ys \<Longrightarrow> c \<in> lb_id ` set stack' \<or> (\<exists>p\<in>set xs. (p, c) \<in> tree_links t)"
      by blast
    have "prune_loop iter t n stack pruned = Some (Ok (pruned @ (i # ws)))"
      using ws(1) Cons cs(1) [of rest] by (simp add: prune_loop.simps [of iter t n "b # rest"] i_def stack'_def)
    moreover have "set (i # ws) = (\<Union>j\<in>set (map lb_id stack). cut_below t n j)" "distinct (i # ws)"
      using ws(2,3) step(2) Cons by (auto simp: i_def)
    moreover have "c \<in> lb_id ` set stack \<or> (\<exists>p\<in>set xs. (p, c) \<in> tree_links t)" if "i # ws = xs @ c # ys" for xs c ys
    proof (cases xs)
      case (Cons x xs')
      have "lb_id ` set stack' = set cs \<union> lb_id ` set rest"
        using arg_cong [OF ids, of set] by simp
      moreover have "c \<in> lb_id ` set stack' \<or> (\<exists>p\<in>set xs'. (p, c) \<in> tree_links t)" "x = i"
        using ws(4) [of xs' c ys] that Cons by auto
      moreover have "(i, d) \<in> tree_links t" if "d \<in> set cs" for d
        using that unfolding cs(4) [symmetric] by (simp add: cut_links_def)
      ultimately show ?thesis using Cons \<open>stack = b # rest\<close> by auto
    qed (use that in \<open>simp add: i_def Cons\<close>)
    ultimately show ?thesis by blast
  qed
qed

lemma find_blocks_to_prune_correct:
  assumes ok: "tree_ok U t" "chain_ordered U" "hash_iter iter" and n: "n \<in> live t"
  shows "\<exists>ws. find_blocks_to_prune iter t n = Some (Ok ws) \<and> set ws = live t - below t n \<and> distinct ws \<and>
    (\<forall>xs c ys. ws = xs @ c # ys \<longrightarrow> c = commit_root_id t \<or> (\<exists>p\<in>set xs. (p, c) \<in> tree_links t))"
proof (cases "n = commit_root_id t")
  case True
  then show ?thesis by (simp add: find_blocks_to_prune_def live_def)
next
  case False
  have nodes: "nodes_ok U t" using ok(1) by (simp add: tree_ok_def)
  obtain root where root: "tlookup t (commit_root_id t) = Some root" using ok(1) by (auto simp: tree_ok_def)
  have "lb_id root = commit_root_id t" using nodes_okD(1) [OF nodes root] .
  then have "\<exists>ws. prune_loop iter t n [root] [] = Some (Ok ws) \<and>
      set ws = cut_below t n (commit_root_id t) \<and> distinct ws \<and>
      (\<forall>xs c ys. ws = xs @ c # ys \<longrightarrow> c = commit_root_id t \<or> (\<exists>p\<in>set xs. (p, c) \<in> tree_links t))"
    using prune_loop_correct [OF nodes ok(2,3), of "[root]" n "[]"] root by simp
  moreover have "cut_below t n (commit_root_id t) = live t - below t n"
    using tl.cut_subtree [of "commit_root_id t" n t] n False by (simp add: live_def cut_links_def)
  ultimately show ?thesis
    using False root by (simp add: find_blocks_to_prune_def get_linkable_block_def)
qed

section \<open>Removing pruned blocks\<close>

lemma pop_pruned_eq:
  "n \<le> length (pruned_block_ids t) \<Longrightarrow>
   pop_pruned n t = t\<lparr>pruned_block_ids := drop n (pruned_block_ids t),
     id_to_block := fmdrop_set (set (take n (pruned_block_ids t))) (id_to_block t),
     id_to_quorum_cert := fmdrop_set (set (take n (pruned_block_ids t))) (id_to_quorum_cert t)\<rparr>"
proof (induction n arbitrary: t)
  case (Suc n)
  then obtain i rest where p: "pruned_block_ids t = i # rest" by (cases "pruned_block_ids t") auto
  have drop: "fmdrop_set X (fmdrop i m) = fmdrop_set (insert i X) m" for X and m :: "(hash_value, 'x) fmap"
    by (rule fmap_ext) simp
  show ?case using Suc p by (simp add: remove_block_def drop)
qed (simp add: fmap_ext)

definition removed_ids :: "hash_value list \<Rightarrow> block_tree \<Rightarrow> hash_value list" where
  "removed_ids ws t =
     take (length (pruned_block_ids t @ ws) - max_pruned_blocks_in_mem t) (pruned_block_ids t @ ws)"

definition retained_ids :: "hash_value list \<Rightarrow> block_tree \<Rightarrow> hash_value list" where
  "retained_ids ws t =
     drop (length (pruned_block_ids t @ ws) - max_pruned_blocks_in_mem t) (pruned_block_ids t @ ws)"

lemma removed_retained: "removed_ids ws t @ retained_ids ws t = pruned_block_ids t @ ws"
  by (simp add: removed_ids_def retained_ids_def del: append_take_drop_id take_append drop_append)
    (rule append_take_drop_id)

lemma process_pruned_blocks_eq:
  "process_pruned_blocks ws t = t\<lparr>pruned_block_ids := retained_ids ws t,
     id_to_block := fmdrop_set (set (removed_ids ws t)) (id_to_block t),
     id_to_quorum_cert := fmdrop_set (set (removed_ids ws t)) (id_to_quorum_cert t)\<rparr>"
proof (cases "length (pruned_block_ids t @ ws) > max_pruned_blocks_in_mem t")
  case True
  then show ?thesis
    by (simp add: process_pruned_blocks_def Let_def pop_pruned_eq removed_ids_def retained_ids_def
        del: take_append drop_append)
next
  case False
  have "fmdrop_set {} m = m" for m :: "(hash_value, 'x) fmap" by (rule fmap_ext) simp
  then show ?thesis using False by (simp add: process_pruned_blocks_def Let_def removed_ids_def retained_ids_def)
qed

section \<open>The invariant is kept\<close>

text \<open>The tree after the blocks not below \<open>n\<close> were pruned and \<open>n\<close> became the root.\<close>

definition commit_to :: "hash_value \<Rightarrow> hash_value list \<Rightarrow> block_tree \<Rightarrow> block_tree" where
  "commit_to n ws t = (process_pruned_blocks ws t)\<lparr>commit_root_id := n\<rparr>"

lemma commit_to_simps [simp]:
  "commit_root_id (commit_to n ws t) = n"
  "pruned_block_ids (commit_to n ws t) = retained_ids ws t"
  "tlookup (commit_to n ws t) i = (if i \<in> set (removed_ids ws t) then None else tlookup t i)"
  by (auto simp: commit_to_def process_pruned_blocks_eq)

lemma parents_first_append:
  assumes ok: "tree_ok U t" "chain_ordered U"
    and ws: "\<And>xs c ys. ws = xs @ c # ys \<Longrightarrow> c = commit_root_id t \<or> (\<exists>p\<in>set xs. (p, c) \<in> tree_links t)"
  shows "parents_first t (pruned_block_ids t @ ws)"
  unfolding parents_first_def
proof (intro allI impI)
  fix xs c ys p lp
  assume split: "pruned_block_ids t @ ws = xs @ c # ys" and p: "tlookup t p = Some lp" "c \<in> lb_children lp"
  have nodes: "nodes_ok U t" and old: "parents_first t (pruned_block_ids t)"
    and root: "commit_root_id t \<in> lb_children lp \<Longrightarrow> p \<in> set (pruned_block_ids t)"
    using ok(1) p(1) by (auto simp: tree_ok_def)
  have link: "(p, c) \<in> tree_links t" using tree_links_iff [OF nodes ok(2)] p by blast
  from split consider (left) us where "pruned_block_ids t = xs @ c # us"
    | (right) vs where "xs = pruned_block_ids t @ vs" "ws = vs @ c # ys"
    by (auto simp: append_eq_append_conv2 append_eq_Cons_conv Cons_eq_append_conv)
  then show "p \<in> set xs"
  proof cases
    case left
    then show ?thesis using old p unfolding parents_first_def by blast
  next
    case right
    then show ?thesis using ws [OF right(2)] root p(2) tl.unique_parent [OF link] by auto
  qed
qed

text \<open>What \<open>find_blocks_to_prune\<close> returns for a new root \<open>n\<close>.\<close>

definition prunes_to :: "block_tree \<Rightarrow> hash_value \<Rightarrow> hash_value list \<Rightarrow> bool" where
  "prunes_to t n ws =
     (set ws = live t - below t n \<and> distinct ws \<and>
      (\<forall>xs c ys. ws = xs @ c # ys \<longrightarrow> c = commit_root_id t \<or> (\<exists>p\<in>set xs. (p, c) \<in> tree_links t)))"

lemma prunes_to_find:
  assumes "tree_ok U t" "chain_ordered U" "hash_iter iter" "n \<in> live t"
  shows "\<exists>ws. find_blocks_to_prune iter t n = Some (Ok ws) \<and> prunes_to t n ws"
  using find_blocks_to_prune_correct [OF assms] by (auto simp: prunes_to_def)

lemma tree_links_commit_to:
  "tree_links (commit_to n ws t) =
     {(p, c) \<in> tree_links t. p \<notin> set (removed_ids ws t) \<and> c \<notin> set (removed_ids ws t)}"
  by (auto simp: tree_links_def)

lemma removed_subset: "set (removed_ids ws t) \<subseteq> set (pruned_block_ids t) \<union> set ws"
  and retained_subset: "set (retained_ids ws t) \<subseteq> set (pruned_block_ids t) \<union> set ws"
  using arg_cong [OF removed_retained [of ws t], of set] by auto

lemma below_live: "n \<in> live t \<Longrightarrow> below t n \<subseteq> live t"
  by (auto simp: live_def)

lemma pruned_not_below:
  assumes "tree_ok U t" "n \<in> live t" "prunes_to t n ws"
  shows "(set (pruned_block_ids t) \<union> set ws) \<inter> below t n = {}"
  using assms below_live [OF assms(2)] by (auto simp: tree_ok_def prunes_to_def)

lemma below_commit_to:
  assumes "tree_ok U t" "n \<in> live t" "prunes_to t n ws"
  shows "below (commit_to n ws t) n = below t n"
proof (intro set_eqI iffI)
  fix x assume "x \<in> below (commit_to n ws t) n"
  moreover have "(tree_links (commit_to n ws t))\<^sup>* \<subseteq> (tree_links t)\<^sup>*"
    by (rule rtrancl_mono) (auto simp: tree_links_commit_to)
  ultimately show "x \<in> below t n" by blast
next
  fix x assume "x \<in> below t n"
  then have "(n, x) \<in> (tree_links t)\<^sup>*" by simp
  then have "(n, x) \<in> (tree_links (commit_to n ws t))\<^sup>*"
  proof (induction rule: rtrancl_induct)
    case (step y z)
    have "(n, z) \<in> (tree_links t)\<^sup>*" using step.hyps by (rule rtrancl_into_rtrancl)
    then have "y \<notin> set (removed_ids ws t)" "z \<notin> set (removed_ids ws t)"
      using pruned_not_below [OF assms] removed_subset [of ws t] step.hyps(1) by auto
    then have "(y, z) \<in> tree_links (commit_to n ws t)" using step.hyps(2) by (simp add: tree_links_commit_to)
    with step.IH show ?case by (rule rtrancl_into_rtrancl)
  qed simp
  then show "x \<in> below (commit_to n ws t) n" by simp
qed

lemma parents_first_suffix:
  assumes "parents_first t (removed_ids ws t @ retained_ids ws t)"
  shows "parents_first (commit_to n ws t) (retained_ids ws t)"
  unfolding parents_first_def
proof (intro allI impI)
  fix xs c ys p lp
  assume split: "retained_ids ws t = xs @ c # ys" and p: "tlookup (commit_to n ws t) p = Some lp" "c \<in> lb_children lp"
  then have "p \<in> set (removed_ids ws t @ xs)" "p \<notin> set (removed_ids ws t)"
    using assms [unfolded parents_first_def, rule_format, of "removed_ids ws t @ xs" c ys p lp]
    by (auto split: if_splits)
  then show "p \<in> set xs" by simp
qed

lemma nodes_ok_commit_to:
  assumes "nodes_ok U t" "parents_first t (removed_ids ws t @ retained_ids ws t)"
  shows "nodes_ok U (commit_to n ws t)"
proof -
  have "c \<notin> set (removed_ids ws t)"
    if "tlookup t i = Some lb" "c \<in> lb_children lb" "i \<notin> set (removed_ids ws t)" for i lb c
  proof
    assume "c \<in> set (removed_ids ws t)"
    then obtain xs ys where "removed_ids ws t = xs @ c # ys" by (meson split_list)
    then show False
      using assms(2) [unfolded parents_first_def, rule_format, of xs c "ys @ retained_ids ws t" i lb] that by auto
  qed
  then show ?thesis using assms(1) unfolding nodes_ok_def by (auto split: if_splits)
qed

lemma live_dom: "tree_ok U t \<Longrightarrow> i \<in> live t \<Longrightarrow> tlookup t i \<noteq> None"
  using below_dom [of i t "commit_root_id t"] by (auto simp: tree_ok_def live_def)

lemma retained_dom:
  assumes "tree_ok U t" "prunes_to t n ws" "i \<in> set (retained_ids ws t)"
  shows "tlookup t i \<noteq> None"
proof -
  have "i \<in> set (pruned_block_ids t) \<or> i \<in> live t"
    using retained_subset [of ws t] assms(2,3) by (auto simp: prunes_to_def)
  then show ?thesis
    using live_dom [OF assms(1)] assms(1) by (auto simp: tree_ok_def fmlookup_dom'_iff)
qed

lemma parent_of_root_pruned:
  assumes ok: "tree_ok U t" "chain_ordered U" and n: "n \<in> live t" "prunes_to t n ws"
    and p: "tlookup t p = Some lp" "n \<in> lb_children lp"
  shows "p \<in> set (pruned_block_ids t @ ws)"
proof (cases "n = commit_root_id t")
  case True
  then show ?thesis using ok(1) p by (auto simp: tree_ok_def)
next
  case False
  have "nodes_ok U t" using ok(1) by (simp add: tree_ok_def)
  then have link: "(p, n) \<in> tree_links t" using tree_links_iff [OF _ ok(2)] p by blast
  have "p \<in> live t" using tl.reach_parent [OF _ link, of "commit_root_id t"] n(1) False by (auto simp: live_def)
  moreover have "p \<notin> below t n" using tl.node_not_below_child [OF link] by simp
  ultimately show ?thesis using n(2) by (auto simp: prunes_to_def)
qed

lemma tree_ok_commit_to:
  assumes ok: "tree_ok U t" "chain_ordered U" and n: "n \<in> live t" "prunes_to t n ws"
  shows "tree_ok U (commit_to n ws t)" "live (commit_to n ws t) = below t n"
proof -
  let ?R = "removed_ids ws t" and ?K = "retained_ids ws t"
  have nodes: "nodes_ok U t" using ok(1) by (simp add: tree_ok_def)
  have first: "parents_first t (?R @ ?K)"
    unfolding removed_retained using n(2) by (intro parents_first_append [OF ok]) (auto simp: prunes_to_def)
  show live: "live (commit_to n ws t) = below t n"
    using below_commit_to [OF ok(1) n] by (simp add: live_def)
  have "distinct (?R @ ?K)"
    unfolding removed_retained using ok(1) n(2) by (auto simp: tree_ok_def prunes_to_def)
  then have dist: "distinct ?K" "set ?R \<inter> set ?K = {}" by auto
  have n_in: "tlookup t n \<noteq> None" using live_dom [OF ok(1) n(1)] .
  have "n \<notin> set ?R" using pruned_not_below [OF ok(1) n] removed_subset [of ws t] by auto
  moreover have "set ?K \<subseteq> fmdom' (id_to_block (commit_to n ws t))"
    using retained_dom [OF ok(1) n(2)] dist(2) by (auto simp: fmlookup_dom'_iff)
  moreover have "p \<in> set ?K" if "tlookup (commit_to n ws t) p = Some lp" "n \<in> lb_children lp" for p lp
    using parent_of_root_pruned [OF ok n, of p lp, folded removed_retained [of ws t]] that
    by (auto split: if_splits)
  moreover have "set ?K \<inter> below t n = {}"
    using pruned_not_below [OF ok(1) n] retained_subset [of ws t] by auto
  ultimately show "tree_ok U (commit_to n ws t)"
    using nodes_ok_commit_to [OF nodes first] parents_first_suffix [OF first] dist(1) n_in live
    by (simp add: tree_ok_def)
qed

end
