(* ===== verification/Block_Tree_Proofs.thy ===== *)
theory Block_Tree_Proofs
  imports Block_Tree_Pruning
begin

text \<open>
  Correctness of the block tree: every operation keeps its invariant, the walk to the root ends and finds
  the path, and the tree implements a plain set of blocks below a root.
\<close>

section \<open>Inserting a block\<close>

definition with_block :: "executed_block \<Rightarrow> linkable_block \<Rightarrow> block_tree \<Rightarrow> block_tree" where
  "with_block b parent t =
     t\<lparr>id_to_block := fmupd (eb_id b) (linkable_block_new b)
         (fmupd (eb_parent_id b) (parent\<lparr>lb_children := insert (eb_id b) (lb_children parent)\<rparr>) (id_to_block t))\<rparr>"

lemma insert_block_cases:
  assumes "nodes_ok U t" "insert_block b t = (res, t')"
  obtains (existing) b' where "get_block t (eb_id b) = Some b'" "t' = t"
      "res = (if eb_compute_result b' = eb_compute_result b then Ok b' else Panic)"
  | (orphan) "get_block t (eb_id b) = None" "tlookup t (eb_parent_id b) = None" "t' = t"
      "res = Err (Msg ''Parent block not found'')"
  | (inserted) parent where "tlookup t (eb_id b) = None" "tlookup t (eb_parent_id b) = Some parent"
      "t' = with_block b parent t" "res = Ok b"
proof (cases "tlookup t (eb_id b)")
  case None
  show thesis
  proof (cases "tlookup t (eb_parent_id b)")
    case None
    then show thesis
      using assms(2) \<open>tlookup t (eb_id b) = None\<close>
      by (intro orphan) (simp_all add: insert_block_def get_block_def get_linkable_block_def)
  next
    case (Some parent)
    have "eb_id b \<notin> lb_children parent" "eb_id b \<noteq> eb_parent_id b"
      using nodes_okD(4) [OF assms(1) Some, of "eb_id b"] None Some by auto
    then have "insert_block b t = (Ok b, with_block b parent t)"
      using None Some by (simp add: insert_block_def get_block_def get_linkable_block_def add_child_def with_block_def Let_def)
    then show thesis using assms(2) None Some by (intro inserted) simp_all
  qed
next
  case (Some lb)
  then show thesis
    using assms(2) by (intro existing) (simp_all add: insert_block_def get_block_def get_linkable_block_def assert_panic_def split: if_splits)
qed

lemma tlookup_with_block:
  "tlookup (with_block b parent t) i =
     (if i = eb_id b then Some (linkable_block_new b)
      else if i = eb_parent_id b then Some (parent\<lparr>lb_children := insert (eb_id b) (lb_children parent)\<rparr>)
      else tlookup t i)"
  by (simp add: with_block_def)

lemma child_with_block:
  assumes "tlookup t (eb_parent_id b) = Some parent"
    and "tlookup (with_block b parent t) p = Some lp" "c \<in> lb_children lp" "c \<noteq> eb_id b"
  shows "\<exists>lp'. tlookup t p = Some lp' \<and> c \<in> lb_children lp'"
  using assms by (auto simp: tlookup_with_block linkable_block_new_def split: if_splits)

lemma nodes_ok_with_block:
  assumes "nodes_ok U t" "b \<in> U" "tlookup t (eb_id b) = None" "tlookup t (eb_parent_id b) = Some parent"
  shows "nodes_ok U (with_block b parent t)"
  unfolding nodes_ok_def
proof (intro allI impI)
  fix i lb assume lb: "tlookup (with_block b parent t) i = Some lb"
  have kids: "\<exists>lc. tlookup (with_block b parent t) c = Some lc \<and> lb_parent lc = i"
    if kid: "tlookup t i = Some lb'" "c \<in> lb_children lb'" for i lb' c
  proof -
    obtain lc where "tlookup t c = Some lc" "lb_parent lc = i" using nodes_okD(4) [OF assms(1) kid] by blast
    then show ?thesis using assms(3,4) by (auto simp: tlookup_with_block)
  qed
  show "lb_id lb = i \<and> lb_executed_block lb \<in> U \<and> finite (lb_children lb) \<and>
      (\<forall>c\<in>lb_children lb. \<exists>lc. tlookup (with_block b parent t) c = Some lc \<and> lb_parent lc = i)"
  proof (cases "i = eb_id b")
    case True
    then show ?thesis using lb assms(2) by (auto simp: tlookup_with_block linkable_block_new_def lb_id_def)
  next
    case False
    note D = nodes_okD [OF assms(1), of i]
    show ?thesis
    proof (cases "i = eb_parent_id b")
      case True
      then have "lb = parent\<lparr>lb_children := insert (eb_id b) (lb_children parent)\<rparr>" "tlookup t i = Some parent"
        using lb False assms(4) by (auto simp: tlookup_with_block)
      then show ?thesis
        using D(1-3) [of parent] kids [of i parent] True
        by (auto simp: tlookup_with_block linkable_block_new_def lb_id_def)
    next
      case neq: False
      then have "tlookup t i = Some lb" using lb False by (simp add: tlookup_with_block)
      then show ?thesis using D(1-3) kids by blast
    qed
  qed
qed

lemma tree_links_with_block:
  assumes "nodes_ok U t" "chain_ordered U" "b \<in> U" "tlookup t (eb_id b) = None" "tlookup t (eb_parent_id b) = Some parent"
  shows "tree_links (with_block b parent t) = insert (eb_parent_id b, eb_id b) (tree_links t)"
proof -
  note new = tree_links_iff [OF nodes_ok_with_block [OF assms(1,3-5)] assms(2)]
  note old = tree_links_iff [OF assms(1,2)]
  have "(p, c) \<in> tree_links (with_block b parent t) \<longleftrightarrow> (p, c) \<in> insert (eb_parent_id b, eb_id b) (tree_links t)" for p c
    unfolding insert_iff new old using assms(4,5)
    by (auto simp: tlookup_with_block linkable_block_new_def)
  then show ?thesis by auto
qed

lemma reach_insert_leaf:
  assumes "\<And>c. (x, c) \<notin> E" "r \<noteq> x"
  shows "(insert (p, x) E)\<^sup>* `` {r} = (if p \<in> E\<^sup>* `` {r} then insert x (E\<^sup>* `` {r}) else E\<^sup>* `` {r})"
    (is "?L = ?R")
proof
  have "y \<in> ?R" if "(r, y) \<in> (insert (p, x) E)\<^sup>*" for y
    using that
  proof (induction rule: rtrancl_induct)
    case (step y z)
    then show ?case using assms(1) by (auto split: if_splits intro: rtrancl_into_rtrancl)
  qed simp
  then show "?L \<subseteq> ?R" by blast
  have mono: "E\<^sup>* \<subseteq> (insert (p, x) E)\<^sup>*" by (rule rtrancl_mono) auto
  then show "?R \<subseteq> ?L" by (auto intro: rtrancl_into_rtrancl [of r p])
qed

lemma tree_ok_with_block:
  assumes "tree_ok U t" "chain_ordered U" "b \<in> U" "tlookup t (eb_id b) = None" "tlookup t (eb_parent_id b) = Some parent"
  shows "tree_ok U (with_block b parent t)"
    "live (with_block b parent t) = (if eb_parent_id b \<in> live t then insert (eb_id b) (live t) else live t)"
proof -
  let ?t = "with_block b parent t"
  have nodes: "nodes_ok U t" and same: "commit_root_id ?t = commit_root_id t" "pruned_block_ids ?t = pruned_block_ids t"
    using assms(1) by (simp_all add: tree_ok_def with_block_def)
  note links = tree_links_with_block [OF nodes assms(2-5)]
  have leaf: "(eb_id b, c) \<notin> tree_links t" for c using assms(4) by (auto simp: tree_links_def)
  have root: "commit_root_id t \<noteq> eb_id b" using assms(1,4) by (auto simp: tree_ok_def)
  show live: "live ?t = (if eb_parent_id b \<in> live t then insert (eb_id b) (live t) else live t)"
    unfolding live_def same links using leaf root by (rule reach_insert_leaf)
  have "eb_id b \<notin> set (pruned_block_ids t)" using assms(1,4) by (auto simp: tree_ok_def fmlookup_dom'_iff)
  then have "parents_first ?t (pruned_block_ids t)"
    using assms(1) child_with_block [OF assms(5)] unfolding parents_first_def tree_ok_def
    by (metis in_set_conv_decomp)
  moreover have "p \<in> set (pruned_block_ids t)" if "tlookup ?t p = Some lp" "commit_root_id t \<in> lb_children lp" for p lp
    using child_with_block [OF assms(5) that root] assms(1) by (auto simp: tree_ok_def)
  moreover have "tlookup t i \<noteq> None \<Longrightarrow> tlookup ?t i \<noteq> None" for i by (simp add: tlookup_with_block)
  ultimately show "tree_ok U ?t"
    using assms(1) nodes_ok_with_block [OF nodes assms(3-5)] live \<open>eb_id b \<notin> set (pruned_block_ids t)\<close>
    by (auto simp: tree_ok_def same fmlookup_dom'_iff)
qed

section \<open>Committing\<close>

text \<open>
  What the caller of the callback provides: the last block is a live one, the commit decision is for it,
  matches the finality proof, and is newer than the last one.
\<close>

definition commit_ready ::
    "executed_block list \<Rightarrow> quorum_cert \<Rightarrow> ledger_info_with_signatures \<Rightarrow> block_tree \<Rightarrow> bool" where
  "commit_ready blocks proof decision t =
     (blocks \<noteq> [] \<and> eb_id (last blocks) \<in> live t \<and>
      match_ordered_only (qc_commit_info proof) (lis_commit_info decision) \<and>
      bi_id (lis_commit_info decision) = eb_id (last blocks) \<and>
      bi_round (lis_commit_info decision) > bi_round (qc_commit_info (bt_highest_commit_cert t)))"

lemma tree_fields_irrelevant:
  "tree_links (t\<lparr>bt_highest_commit_cert := qc\<rparr>) = tree_links t"
  "live (t\<lparr>bt_highest_commit_cert := qc\<rparr>) = live t"
  "tree_ok U (t\<lparr>bt_highest_commit_cert := qc\<rparr>) = tree_ok U t"
  by (simp_all add: tree_links_def live_def tree_ok_def nodes_ok_def parents_first_def)

lemma commit_callback_ok:
  assumes ok: "tree_ok U t" "chain_ordered U" "hash_iter iter" and ready: "commit_ready blocks proof decision t"
  shows "\<exists>ws. prunes_to t (eb_id (last blocks)) ws \<and> commit_callback iter blocks proof decision t =
      Some (Ok ws, (commit_to (eb_id (last blocks)) ws t)
        \<lparr>bt_highest_commit_cert := \<lparr>qc_vote_data = qc_vote_data proof, qc_signed_ledger_info = decision\<rparr>\<rparr>)"
proof -
  let ?n = "eb_id (last blocks)"
  have n: "?n \<in> live t" using ready by (simp add: commit_ready_def)
  obtain ws where ws: "find_blocks_to_prune iter t ?n = Some (Ok ws)" "prunes_to t ?n ws"
    using prunes_to_find [OF ok n] by blast
  have kept: "tlookup (commit_to ?n ws t) ?n \<noteq> None"
    using tree_ok_commit_to(1) [OF ok(1,2) n ws(2)] by (simp add: tree_ok_def)
  obtain root where "tlookup t (commit_root_id t) = Some root" using ok(1) by (auto simp: tree_ok_def)
  then have "commit_callback iter blocks proof decision t =
      Some (Ok ws, (commit_to ?n ws t)
        \<lparr>bt_highest_commit_cert := \<lparr>qc_vote_data = qc_vote_data proof, qc_signed_ledger_info = decision\<rparr>\<rparr>)"
    using ready ws(1) kept
    by (auto simp: commit_callback_def create_merged_with_executed_state_def commit_ready_def commit_root_def
        get_block_def get_linkable_block_def sbind_def update_highest_commit_cert_def update_commit_root_def
        block_exists_def qc_commit_info_def lis_commit_info_def commit_to_def process_pruned_blocks_eq)
  then show ?thesis using ws(2) by blast
qed

section \<open>Reachable trees\<close>

inductive tree_reachable :: "hash_order \<Rightarrow> executed_block set \<Rightarrow> block_tree \<Rightarrow> bool" for iter U where
  tree_new: "block_tree_new root qc oc cc m htc = Ok t \<Longrightarrow> root \<in> U \<Longrightarrow> tree_reachable iter U t"
| tree_insert: "tree_reachable iter U t \<Longrightarrow> b \<in> U \<Longrightarrow> insert_block b t = (res, t') \<Longrightarrow> tree_reachable iter U t'"
| tree_qc: "tree_reachable iter U t \<Longrightarrow> insert_quorum_cert qc t = (res', t') \<Longrightarrow> tree_reachable iter U t'"
| tree_tc: "tree_reachable iter U t \<Longrightarrow> tree_reachable iter U (replace_2chain_timeout_cert tc t)"
| tree_ordered: "tree_reachable iter U t \<Longrightarrow> update_ordered_root i t = (res', t') \<Longrightarrow> tree_reachable iter U t'"
| tree_commit: "tree_reachable iter U t \<Longrightarrow> commit_ready blocks proof decision t \<Longrightarrow>
    commit_callback iter blocks proof decision t = Some (res'', t') \<Longrightarrow> tree_reachable iter U t'"

lemma insert_quorum_cert_frame:
  assumes "insert_quorum_cert qc t = (res, t')"
  shows "id_to_block t' = id_to_block t \<and> commit_root_id t' = commit_root_id t \<and>
    pruned_block_ids t' = pruned_block_ids t"
  using assms
  by (auto simp: insert_quorum_cert_def Let_def sbind_def sread_def split: option.splits outcome.splits if_splits)

lemma tree_ok_frame:
  assumes "id_to_block t' = id_to_block t" "commit_root_id t' = commit_root_id t" "pruned_block_ids t' = pruned_block_ids t"
  shows "tree_ok U t' = tree_ok U t"
  using assms by (simp add: tree_ok_def nodes_ok_def parents_first_def live_def tree_links_def)

lemma tree_ok_new:
  assumes "block_tree_new root qc oc cc m htc = Ok t" "root \<in> U"
  shows "tree_ok U t"
proof -
  have t: "id_to_block t = fmupd (eb_id root) (linkable_block_new root) fmempty" "commit_root_id t = eb_id root"
      "pruned_block_ids t = []"
    using assms(1) by (auto simp: block_tree_new_def outcome_simps)
  then show ?thesis
    using assms(2) by (auto simp: tree_ok_def nodes_ok_def parents_first_def linkable_block_new_def lb_id_def)
qed

lemma tree_ok_insert_block:
  assumes "tree_ok U t" "chain_ordered U" "b \<in> U" "insert_block b t = (res, t')"
  shows "tree_ok U t'"
proof -
  have "nodes_ok U t" using assms(1) by (simp add: tree_ok_def)
  from this assms(4) show ?thesis
  proof (cases rule: insert_block_cases)
    case (inserted parent)
    show ?thesis unfolding inserted(3) by (rule tree_ok_with_block(1) [OF assms(1-3) inserted(1,2)])
  qed (simp_all add: assms(1))
qed

lemma tree_ok_commit_callback:
  assumes ok: "tree_ok U t" "chain_ordered U" "hash_iter iter" and ready: "commit_ready blocks proof decision t"
    and run: "commit_callback iter blocks proof decision t = Some (res, t')"
  shows "tree_ok U t'"
proof -
  let ?n = "eb_id (last blocks)"
  obtain ws where ws: "prunes_to t ?n ws" "t' = (commit_to ?n ws t)
      \<lparr>bt_highest_commit_cert := \<lparr>qc_vote_data = qc_vote_data proof, qc_signed_ledger_info = decision\<rparr>\<rparr>"
    using commit_callback_ok [OF ok ready] run by auto
  have "?n \<in> live t" using ready by (simp add: commit_ready_def)
  then show ?thesis unfolding ws(2) tree_fields_irrelevant by (rule tree_ok_commit_to(1) [OF ok(1,2) _ ws(1)])
qed

lemma tree_reachable_ok:
  assumes "tree_reachable iter U t" "chain_ordered U" "hash_iter iter"
  shows "tree_ok U t"
  using assms(1)
proof (induction rule: tree_reachable.induct)
  case (tree_new root qc oc cc m htc t)
  then show ?case by (rule tree_ok_new)
next
  case (tree_insert t b res t')
  show ?case by (rule tree_ok_insert_block [OF tree_insert.IH assms(2) tree_insert.hyps(2,3)])
next
  case (tree_qc t qc res' t')
  then show ?case using tree_ok_frame [of t' t U] insert_quorum_cert_frame [OF tree_qc.hyps(2)] by simp
next
  case (tree_tc t tc)
  then show ?case using tree_ok_frame [of "replace_2chain_timeout_cert tc t" t U] by (simp add: replace_2chain_timeout_cert_def)
next
  case (tree_ordered t i res' t')
  then show ?case using tree_ok_frame [of t' t U] by (force simp: update_ordered_root_def split: if_splits)
next
  case (tree_commit t blocks pf decision res'' t')
  show ?case by (rule tree_ok_commit_callback [OF tree_commit.IH assms(2,3) tree_commit.hyps(2,3)])
qed

section \<open>The abstract tree\<close>

text \<open>The contract of the tree: a root and a set of blocks, of which a commit keeps those below the new root.\<close>

record spec_tree =
  sp_root :: hash_value
  sp_blocks :: "executed_block set"

inductive spec_below :: "executed_block set \<Rightarrow> hash_value \<Rightarrow> executed_block \<Rightarrow> bool" for B n where
  below_root: "b \<in> B \<Longrightarrow> eb_id b = n \<Longrightarrow> spec_below B n b"
| below_child: "spec_below B n p \<Longrightarrow> b \<in> B \<Longrightarrow> eb_parent_id b = eb_id p \<Longrightarrow> spec_below B n b"

definition spec_insert :: "executed_block \<Rightarrow> spec_tree \<Rightarrow> spec_tree" where
  "spec_insert b s =
     (if eb_parent_id b \<in> eb_id ` sp_blocks s then s\<lparr>sp_blocks := insert b (sp_blocks s)\<rparr> else s)"

definition spec_commit :: "hash_value \<Rightarrow> spec_tree \<Rightarrow> spec_tree" where
  "spec_commit n s = \<lparr>sp_root = n, sp_blocks = {b. spec_below (sp_blocks s) n b}\<rparr>"

definition abs_tree :: "block_tree \<Rightarrow> spec_tree" where
  "abs_tree t =
     \<lparr>sp_root = commit_root_id t, sp_blocks = {b. eb_id b \<in> live t \<and> get_block t (eb_id b) = Some b}\<rparr>"

lemma get_block_id:
  assumes "nodes_ok U t" "tlookup t i = Some lb"
  shows "get_block t i = Some (lb_executed_block lb)" "eb_id (lb_executed_block lb) = i"
  using nodes_okD(1) [OF assms] assms(2) by (simp_all add: get_block_def get_linkable_block_def lb_id_def)

lemma abs_ids:
  assumes "tree_ok U t"
  shows "eb_id ` sp_blocks (abs_tree t) = live t"
proof -
  have "i \<in> eb_id ` sp_blocks (abs_tree t)" if i: "i \<in> live t" for i
  proof -
    obtain lb where lb: "tlookup t i = Some lb" using live_dom [OF assms i] by auto
    then show ?thesis
      using get_block_id [of U t i lb] assms i by (force simp: abs_tree_def tree_ok_def)
  qed
  then show ?thesis by (auto simp: abs_tree_def)
qed

lemma live_parent_link:
  assumes ok: "tree_ok U t" "chain_ordered U" and c: "c \<in> live t" "tlookup t c = Some lc"
    and p: "lb_parent lc \<in> live t"
  shows "(lb_parent lc, c) \<in> tree_links t"
proof (cases "c = commit_root_id t")
  case False
  then obtain q where "(q, c) \<in> tree_links t" using c(1) by (auto simp: live_def elim: rtranclE)
  moreover from this have "lb_parent lc = q" using c(2) by (auto simp: tree_links_def)
  ultimately show ?thesis by simp
next
  case True
  obtain lp where lp: "tlookup t (lb_parent lc) = Some lp" using live_dom [OF ok(1) p] by auto
  have nodes: "nodes_ok U t" using ok(1) by (simp add: tree_ok_def)
  have "lb_round lp < lb_round lc"
    using ok(2) nodes_okD(1,2) [OF nodes lp] nodes_okD(2) [OF nodes c(2)] by (auto simp: chain_ordered_def lb_id_def)
  moreover have "c = lb_parent lc \<or> block_rank t c < block_rank t (lb_parent lc)"
    using tl.reach_rank [of c "lb_parent lc" t] p True by (simp add: live_def)
  ultimately show ?thesis using lp c(2) by (auto simp: block_rank_def word_less_nat_alt)
qed

lemma spec_below_iff:
  assumes ok: "tree_ok U t" "chain_ordered U" and n: "n \<in> live t"
  shows "spec_below (sp_blocks (abs_tree t)) n b \<longleftrightarrow> eb_id b \<in> below t n \<and> get_block t (eb_id b) = Some b"
proof
  assume "spec_below (sp_blocks (abs_tree t)) n b"
  then show "eb_id b \<in> below t n \<and> get_block t (eb_id b) = Some b"
  proof (induction rule: spec_below.induct)
    case (below_root b)
    then show ?case by (auto simp: abs_tree_def)
  next
    case (below_child p b)
    then have b: "eb_id b \<in> live t" "get_block t (eb_id b) = Some b" by (auto simp: abs_tree_def)
    then obtain lb where lb: "tlookup t (eb_id b) = Some lb" "lb_executed_block lb = b"
      by (auto simp: get_block_def get_linkable_block_def)
    have "eb_id p \<in> live t" using below_child.IH below_live [OF n] by auto
    then have "(eb_id p, eb_id b) \<in> tree_links t"
      using live_parent_link [OF ok b(1) lb(1)] lb(2) below_child.hyps(3) by simp
    then show ?case using below_child.IH b(2) by (auto intro: rtrancl_into_rtrancl)
  qed
next
  assume b: "eb_id b \<in> below t n \<and> get_block t (eb_id b) = Some b"
  have nodes: "nodes_ok U t" using ok(1) by (simp add: tree_ok_def)
  have "spec_below (sp_blocks (abs_tree t)) n b" if "(n, i) \<in> (tree_links t)\<^sup>*" "get_block t i = Some b" "eb_id b = i" for i b
    using that
  proof (induction arbitrary: b rule: rtrancl_induct)
    case base
    then show ?case using n by (auto simp: abs_tree_def intro: below_root)
  next
    case (step y z)
    obtain ly where ly: "tlookup t y = Some ly" "eb_parent_id b = y"
      using step.hyps(2) step.prems by (auto simp: tree_links_def get_block_def get_linkable_block_def)
    note p = get_block_id [OF nodes ly(1)]
    have "z \<in> live t" using step.hyps n by (auto simp: live_def)
    then have "b \<in> sp_blocks (abs_tree t)" using step.prems by (simp add: abs_tree_def)
    then show ?case using step.IH [OF p] below_child p(2) ly(2) by simp
  qed
  then show "spec_below (sp_blocks (abs_tree t)) n b" using b by auto
qed

lemma abs_commit:
  assumes ok: "tree_ok U t" "chain_ordered U" "hash_iter iter" and ready: "commit_ready blocks proof decision t"
  shows "\<exists>ws t'. commit_callback iter blocks proof decision t = Some (Ok ws, t') \<and>
    abs_tree t' = spec_commit (eb_id (last blocks)) (abs_tree t)"
proof -
  let ?n = "eb_id (last blocks)"
  obtain ws where ws: "prunes_to t ?n ws" "commit_callback iter blocks proof decision t = Some (Ok ws, (commit_to ?n ws t)
      \<lparr>bt_highest_commit_cert := \<lparr>qc_vote_data = qc_vote_data proof, qc_signed_ledger_info = decision\<rparr>\<rparr>)"
    using commit_callback_ok [OF ok ready] by blast
  have n: "?n \<in> live t" using ready by (simp add: commit_ready_def)
  have "i \<notin> set (removed_ids ws t)" if "i \<in> below t ?n" for i
    using pruned_not_below [OF ok(1) n ws(1)] removed_subset [of ws t] that by auto
  then have "abs_tree (commit_to ?n ws t) =
      \<lparr>sp_root = ?n, sp_blocks = {b. eb_id b \<in> below t ?n \<and> get_block t (eb_id b) = Some b}\<rparr>"
    unfolding abs_tree_def tree_ok_commit_to(2) [OF ok(1,2) n ws(1)]
    by (auto simp: get_block_def get_linkable_block_def)
  also have "\<dots> = spec_commit ?n (abs_tree t)" by (simp add: spec_commit_def spec_below_iff [OF ok(1,2) n])
  finally have "abs_tree (commit_to ?n ws t) = spec_commit ?n (abs_tree t)" .
  then show ?thesis using ws(2) by (auto simp: abs_tree_def tree_fields_irrelevant get_block_def get_linkable_block_def)
qed

lemma abs_insert:
  assumes ok: "tree_ok U t" "chain_ordered U" "b \<in> U" and run: "insert_block b t = (Ok b, t')" "get_block t (eb_id b) = None"
  shows "abs_tree t' = spec_insert b (abs_tree t)"
proof -
  have nodes: "nodes_ok U t" using ok(1) by (simp add: tree_ok_def)
  from nodes run(1) show ?thesis
  proof (cases rule: insert_block_cases)
    case (inserted parent)
    have same: "commit_root_id (with_block b parent t) = commit_root_id t" by (simp add: with_block_def)
    have fresh: "eb_id b \<notin> live t" using live_dom [OF ok(1)] inserted(1) by blast
    have look: "get_block (with_block b parent t) i = (if i = eb_id b then Some b else get_block t i)" for i
      using inserted(2) by (auto simp: get_block_def get_linkable_block_def tlookup_with_block linkable_block_new_def)
    have "sp_blocks (abs_tree (with_block b parent t)) =
        (if eb_parent_id b \<in> live t then insert b (sp_blocks (abs_tree t)) else sp_blocks (abs_tree t))"
      unfolding abs_tree_def tree_ok_with_block(2) [OF ok inserted(1,2)] spec_tree.simps look using fresh by auto
    then show ?thesis
      unfolding inserted(3) by (simp add: spec_insert_def abs_ids [OF ok(1)]) (simp add: abs_tree_def same)
  qed (use run(2) in simp_all)
qed

section \<open>The path to the root\<close>

fun path_links :: "block_tree \<Rightarrow> hash_value \<Rightarrow> executed_block list \<Rightarrow> hash_value \<Rightarrow> bool" where
  "path_links t r [] i = (i = r)"
| "path_links t r (b # bs) i = (get_block t (eb_id b) = Some b \<and> eb_parent_id b = r \<and> path_links t (eb_id b) bs i)"

lemma path_links_snoc:
  "path_links t r (bs @ [b]) i \<longleftrightarrow>
     path_links t r bs (eb_parent_id b) \<and> get_block t (eb_id b) = Some b \<and> i = eb_id b"
  by (induction bs arbitrary: r) auto

lemma get_block_round:
  assumes "nodes_ok U t" "chain_ordered U" "get_block t i = Some b" "get_block t (eb_parent_id b) = Some p"
  shows "eb_id b = i" "eb_id p = eb_parent_id b" "eb_round p < eb_round b"
proof -
  obtain lb lp where l: "tlookup t i = Some lb" "b = lb_executed_block lb" "tlookup t (eb_parent_id b) = Some lp"
      "p = lb_executed_block lp"
    using assms(3,4) by (auto simp: get_block_def get_linkable_block_def)
  show "eb_id b = i" "eb_id p = eb_parent_id b"
    using nodes_okD(1) [OF assms(1) l(1)] nodes_okD(1) [OF assms(1) l(3)] l by (auto simp: lb_id_def)
  then show "eb_round p < eb_round b"
    using assms(2) nodes_okD(2) [OF assms(1) l(1)] nodes_okD(2) [OF assms(1) l(3)] l by (auto simp: chain_ordered_def)
qed

lemma get_block_own_id:
  assumes "nodes_ok U t" "get_block t i = Some b"
  shows "eb_id b = i"
  using assms by (auto simp: get_block_def get_linkable_block_def lb_id_def dest: nodes_okD(1))

lemma path_loop_ends:
  assumes "nodes_ok U t" "chain_ordered U"
  shows "\<exists>r. path_loop t rr i res = Some r"
proof (induction "block_rank t i" arbitrary: i res rule: less_induct)
  case less
  show ?case
  proof (cases "get_block t i")
    case (Some b)
    have "\<exists>r. path_loop t rr (eb_parent_id b) res' = Some r" for res'
    proof (cases "get_block t (eb_parent_id b)")
      case None
      then show ?thesis by (simp add: path_loop.simps)
    next
      case (Some p)
      then have "block_rank t (eb_parent_id b) < block_rank t i"
        using get_block_round(3) [OF assms \<open>get_block t i = Some b\<close> Some] \<open>get_block t i = Some b\<close>
        by (auto simp: block_rank_def get_block_def get_linkable_block_def word_less_nat_alt)
      then show ?thesis by (rule less)
    qed
    then show ?thesis using Some by (simp add: path_loop.simps [of t rr i])
  qed (simp add: path_loop.simps)
qed

lemma path_loop_path:
  assumes nodes: "nodes_ok U t" "chain_ordered U" and "path_loop t rr i res = Some (Some (j, res'))"
  shows "\<exists>p. res' = res @ rev p \<and> path_links t j p i"
  using assms(3)
proof (induction "block_rank t i" arbitrary: i res rule: less_induct)
  case less
  then obtain b where b: "get_block t i = Some b" by (cases "get_block t i") (simp_all add: path_loop.simps)
  show ?case
  proof (cases "eb_round b \<le> rr")
    case True
    then show ?thesis using less.prems b by (auto simp: path_loop.simps [of t rr i] intro!: exI [of _ "[]"])
  next
    case False
    then have step: "path_loop t rr (eb_parent_id b) (res @ [b]) = Some (Some (j, res'))"
      using less.prems b by (simp add: path_loop.simps [of t rr i])
    then obtain p where p: "get_block t (eb_parent_id b) = Some p"
      by (cases "get_block t (eb_parent_id b)") (simp_all add: path_loop.simps)
    have "block_rank t (eb_parent_id b) < block_rank t i"
      using get_block_round(3) [OF nodes b p] b p
      by (auto simp: block_rank_def get_block_def get_linkable_block_def word_less_nat_alt)
    from less.hyps [OF this step] obtain q where "res' = (res @ [b]) @ rev q" "path_links t j q (eb_parent_id b)" by blast
    then show ?thesis
      using b get_block_own_id [OF nodes(1) b] by (intro exI [of _ "q @ [b]"]) (simp add: path_links_snoc)
  qed
qed

lemma path_links_loop:
  assumes nodes: "nodes_ok U t" "chain_ordered U" and root: "get_block t r = Some root"
    and p: "path_links t r p i"
  shows "path_loop t (eb_round root) i res = Some (Some (r, res @ rev p)) \<and>
    (\<exists>b. get_block t i = Some b \<and> eb_round root \<le> eb_round b \<and> (p \<noteq> [] \<longrightarrow> eb_round root < eb_round b))"
  using p
proof (induction p arbitrary: i res rule: rev_induct)
  case Nil
  then show ?case using root by (simp add: path_loop.simps [of t _ r])
next
  case (snoc b p)
  then have b: "path_links t r p (eb_parent_id b)" "get_block t i = Some b" by (auto simp: path_links_snoc)
  from snoc.IH [OF b(1), of "res @ [b]"] obtain q where q: "get_block t (eb_parent_id b) = Some q" "eb_round root \<le> eb_round q"
      "path_loop t (eb_round root) (eb_parent_id b) (res @ [b]) = Some (Some (r, (res @ [b]) @ rev p))"
    by blast
  have "eb_round root < eb_round b" using get_block_round(3) [OF nodes b(2) q(1)] q(2) by order
  then show ?case using q(3) b(2) by (auto simp: path_loop.simps [of t _ i])
qed

lemma path_correct:
  assumes nodes: "nodes_ok U t" "chain_ordered U" and root: "get_block t r = Some root"
  shows "\<exists>res. path_from_root_to_block t i r (eb_round root) = Some res \<and> (\<forall>p. res = Some p \<longleftrightarrow> path_links t r p i)"
proof -
  obtain q where q: "path_loop t (eb_round root) i [] = Some q" using path_loop_ends [OF nodes] by blast
  have "q = Some (r, rev p)" if "path_links t r p i" for p
    using path_links_loop [OF nodes root that, of "[]"] q by simp
  moreover have "path_links t r (rev res) i" if "q = Some (r, res)" for res
    using path_loop_path [OF nodes q [unfolded that]] by auto
  ultimately have path: "path_links t r p i \<longleftrightarrow> q = Some (r, rev p)" for p by (metis rev_rev_ident)
  define res where "res = (case q of None \<Rightarrow> None | Some (c, xs) \<Rightarrow> if c \<noteq> r then None else Some (rev xs))"
  have "res = Some p \<longleftrightarrow> q = Some (r, rev p)" for p
    by (auto simp: res_def split: option.splits prod.splits)
  then show ?thesis
    using q path by (intro exI [of _ res]) (simp add: path_from_root_to_block_def res_def)
qed

section \<open>A concrete tree\<close>

definition tree_qc_for :: "hash_value \<Rightarrow> round \<Rightarrow> quorum_cert" where
  "tree_qc_for i r =
     (let info = \<lparr>bi_epoch = 1, bi_round = r, bi_id = i, bi_executed_state_id = accumulator_placeholder_hash,
            bi_version = 0, bi_timestamp_usecs = 0, bi_next_epoch_state = None\<rparr>
      in \<lparr>qc_vote_data = \<lparr>vd_proposed = info, vd_parent = info\<rparr>,
          qc_signed_ledger_info = lis_new \<lparr>commit_info = info, consensus_data_hash = 0\<rparr> fmempty\<rparr>)"

definition tree_sample :: "hash_value \<Rightarrow> hash_value \<Rightarrow> round \<Rightarrow> executed_block" where
  "tree_sample i parent r = executed_block_new
     \<lparr>blk_id = i, blk_block_data = \<lparr>bd_epoch = 1, bd_round = r, bd_timestamp_usecs = 0,
        bd_quorum_cert = tree_qc_for parent 0, bd_block_type = NilBlock []\<rparr>, blk_signature = None\<rparr> scr_new_dummy"

definition tree_universe :: "executed_block set" where
  "tree_universe = {tree_sample 1 0 0, tree_sample 2 1 1, tree_sample 3 2 2, tree_sample 4 1 3}"

definition tree_empty :: block_tree where
  "tree_empty =
     (case block_tree_new (tree_sample 1 0 0) (tree_qc_for 1 0) (tree_qc_for 1 0) (tree_qc_for 1 0) 1 None of Ok t \<Rightarrow> t)"

definition tree_full :: block_tree where
  "tree_full = snd (insert_block (tree_sample 4 1 3) (snd (insert_block (tree_sample 3 2 2)
     (snd (insert_block (tree_sample 2 1 1) tree_empty)))))"

lemma tree_sample_simps [simp]:
  "eb_id (tree_sample i p r) = i" "eb_parent_id (tree_sample i p r) = p" "eb_round (tree_sample i p r) = r"
  by (simp_all add: tree_sample_def eb_id_def eb_parent_id_def eb_round_def executed_block_new_def tree_qc_for_def
      certified_block_def Let_def)

lemma tree_universe_ordered: "chain_ordered tree_universe"
  by (simp add: chain_ordered_def tree_universe_def)

lemma sorted_hash_iter: "hash_iter sorted_list_of_set"
  by (simp add: hash_iter_def)

lemma tree_empty_eq:
  "block_tree_new (tree_sample 1 0 0) (tree_qc_for 1 0) (tree_qc_for 1 0) (tree_qc_for 1 0) 1 None = Ok tree_empty"
  "id_to_block tree_empty = fmupd 1 (linkable_block_new (tree_sample 1 0 0)) fmempty" "commit_root_id tree_empty = 1"
  "bt_highest_commit_cert tree_empty = tree_qc_for 1 0"
  by (simp_all add: tree_empty_def block_tree_new_def tree_qc_for_def qc_commit_info_def lis_new_def Let_def)

lemma tree_full_reachable: "tree_reachable sorted_list_of_set tree_universe tree_full"
proof -
  have "tree_reachable sorted_list_of_set tree_universe tree_empty"
    by (rule tree_new [OF tree_empty_eq(1)]) (simp add: tree_universe_def)
  then show ?thesis
    unfolding tree_full_def
    by (intro tree_insert [OF _ _ prod.collapse [symmetric]]) (simp_all add: tree_universe_def)
qed

lemma tree_full_blocks:
  "tlookup tree_full i =
     (if i = 1 then Some \<lparr>lb_executed_block = tree_sample 1 0 0, lb_children = {2, 4}\<rparr>
      else if i = 2 then Some \<lparr>lb_executed_block = tree_sample 2 1 1, lb_children = {3}\<rparr>
      else if i = 3 then Some (linkable_block_new (tree_sample 3 2 2))
      else if i = 4 then Some (linkable_block_new (tree_sample 4 1 3)) else None)"
  "commit_root_id tree_full = 1" "bt_highest_commit_cert tree_full = tree_qc_for 1 0"
  by (auto simp: tree_full_def insert_block_def get_block_def get_linkable_block_def tree_empty_eq add_child_def
      linkable_block_new_def Let_def)

lemma tree_full_live: "1 \<in> live tree_full" "2 \<in> live tree_full"
proof -
  have "(1, 2) \<in> tree_links tree_full"
    by (simp add: tree_links_def tree_full_blocks)
  then show "1 \<in> live tree_full" "2 \<in> live tree_full"
    by (auto simp: live_def tree_full_blocks)
qed

lemma tree_full_commit: "commit_ready [tree_sample 2 1 1] (tree_qc_for 2 1) (qc_signed_ledger_info (tree_qc_for 2 1)) tree_full"
  by (simp add: commit_ready_def tree_full_live tree_full_blocks tree_qc_for_def qc_commit_info_def lis_commit_info_def
      lis_new_def match_ordered_only_refl Let_def)

section \<open>Properties\<close>



text \<open>
  C13: The search for the blocks to prune ends in every reachable tree, whatever the iteration order of the
  child sets.  It returns, each once, exactly the live blocks that are not below the new root: the block
  to be committed and its descendants are kept, and all other branches are dropped.
\<close>
theorem pruning_search_ends:
  assumes "tree_reachable iter U t" "chain_ordered U" "hash_iter iter" "next_root_id \<in> live t"
  shows "\<exists>ids. find_blocks_to_prune iter t next_root_id = Some (Ok ids) \<and> distinct ids \<and>
    set ids = live t - (tree_links t)\<^sup>* `` {next_root_id}"
  using find_blocks_to_prune_correct [OF tree_reachable_ok [OF assms(1-3)] assms(2-4)] by auto

theorem pruning_search_ends_witness:
  "\<exists>ids. find_blocks_to_prune sorted_list_of_set tree_full 2 = Some (Ok ids) \<and> distinct ids \<and>
    set ids = live tree_full - (tree_links tree_full)\<^sup>* `` {2}"
  by (rule pruning_search_ends [OF tree_full_reachable tree_universe_ordered sorted_hash_iter tree_full_live(2)])

text \<open>
  C11: The commit of a live block implements the abstract commit: the callback returns without a panic, its
  block becomes the root, and the live blocks of the tree become those below it.
\<close>
theorem commit_refines_spec:
  assumes "tree_reachable iter U t" "chain_ordered U" "hash_iter iter" "commit_ready blocks pf decision t"
  shows "\<exists>ids t'. commit_callback iter blocks pf decision t = Some (Ok ids, t') \<and>
    abs_tree t' = spec_commit (eb_id (last blocks)) (abs_tree t)"
  by (rule abs_commit [OF tree_reachable_ok [OF assms(1-3)] assms(2-4)])

theorem commit_refines_spec_witness:
  "\<exists>ids t'. commit_callback sorted_list_of_set [tree_sample 2 1 1] (tree_qc_for 2 1)
      (qc_signed_ledger_info (tree_qc_for 2 1)) tree_full = Some (Ok ids, t') \<and>
    abs_tree t' = spec_commit (eb_id (last [tree_sample 2 1 1])) (abs_tree tree_full)"
  by (rule commit_refines_spec [OF tree_full_reachable tree_universe_ordered sorted_hash_iter tree_full_commit])

text \<open>
  C12: The insertion of a new block whose parent is stored never panics.  It implements the abstract
  insertion: the block becomes live exactly when its parent is live.
\<close>
theorem insert_refines_spec:
  assumes "tree_reachable iter U t" "chain_ordered U" "hash_iter iter" "b \<in> U"
    and "\<not> block_exists t (eb_id b)" "block_exists t (eb_parent_id b)"
  shows "fst (insert_block b t) = Ok b \<and> abs_tree (snd (insert_block b t)) = spec_insert b (abs_tree t)"
proof -
  have ok: "tree_ok U t" using tree_reachable_ok [OF assms(1-3)] .
  have new: "get_block t (eb_id b) = None" using assms(5) by (simp add: get_block_def get_linkable_block_def block_exists_def)
  obtain res t' where run: "insert_block b t = (res, t')" by fastforce
  have "nodes_ok U t" using ok by (simp add: tree_ok_def)
  from this run have "res = Ok b"
    by (cases rule: insert_block_cases) (use new assms(6) in \<open>simp_all add: block_exists_def\<close>)
  then show ?thesis using abs_insert [OF ok assms(2,4) _ new] run by simp
qed

theorem insert_refines_spec_witness:
  "fst (insert_block (tree_sample 2 1 1) tree_empty) = Ok (tree_sample 2 1 1) \<and>
   abs_tree (snd (insert_block (tree_sample 2 1 1) tree_empty)) = spec_insert (tree_sample 2 1 1) (abs_tree tree_empty)"
proof (rule insert_refines_spec [OF _ tree_universe_ordered sorted_hash_iter])
  show "tree_reachable sorted_list_of_set tree_universe tree_empty"
    by (rule tree_new [OF tree_empty_eq(1)]) (simp add: tree_universe_def)
qed (simp_all add: tree_universe_def block_exists_def tree_empty_eq)

text \<open>
  C14: The walk from a block towards a stored root ends in every reachable tree.  It returns a path exactly
  when there is a chain of parent links from the block to the root, and then the blocks of that chain, in
  the order from the root, without the root.
\<close>
theorem path_to_root_found:
  assumes "tree_reachable iter U t" "chain_ordered U" "hash_iter iter" "get_block t root_id = Some root"
  shows "\<exists>res. path_from_root_to_block t block_id root_id (eb_round root) = Some res \<and>
    (\<forall>path. res = Some path \<longleftrightarrow> path_links t root_id path block_id)"
  using path_correct [OF _ assms(2,4)] tree_reachable_ok [OF assms(1-3)] by (simp add: tree_ok_def)

theorem path_to_root_found_witness:
  "path_from_root_to_block tree_full 3 1 0 = Some (Some [tree_sample 2 1 1, tree_sample 3 2 2])"
proof -
  have root: "get_block tree_full 1 = Some (tree_sample 1 0 0)"
    by (simp add: get_block_def get_linkable_block_def tree_full_blocks)
  have "path_links tree_full 1 [tree_sample 2 1 1, tree_sample 3 2 2] 3"
    by (simp add: get_block_def get_linkable_block_def tree_full_blocks linkable_block_new_def)
  then show ?thesis
    using path_to_root_found [OF tree_full_reachable tree_universe_ordered sorted_hash_iter root, of 3] by auto
qed

end
