(* ===== verification/Spec2Isabelle.thy ===== *)
theory Spec2Isabelle
  imports Storage_Accumulator_Proofs Two_Chain_Safety Round_State Block_Tree_Proofs
begin

text \<open>
  A verification library for the core of the Aptos node (the Rust workspace under \<open>src/\<close>).

  \<^bold>\<open>The program.\<close>  A validator takes part in a two-chain Byzantine consensus protocol (DiemBFT v4).  The
  round manager receives proposals, votes and certificates; the pacemaker (\<open>RoundState\<close>) decides which round
  is current, \<open>PendingVotes\<close> turns votes into quorum and timeout certificates, the block tree keeps the blocks
  that are not yet committed, and the safety rules, with their own persistent storage, decide what the
  validator signs.  Certificates are checked against the \<open>ValidatorVerifier\<close> of the epoch.  A committed block
  carries a ledger info with the root of the transaction accumulator; light clients follow ledger infos
  across epochs (\<open>TrustedState\<close>) and check inclusion, range and consistency proofs that the storage produces.

  \<^bold>\<open>Conventions.\<close>  A function that returns \<open>Result\<close> and may panic has the type \<open>('e, 'a) outcome\<close> (\<open>Ok\<close>, \<open>Err\<close>,
  \<open>Panic\<close>); the workspace is built with \<open>overflow-checks = true\<close>, so arithmetic overflow is \<open>Panic\<close>.  A method on
  \<open>&mut self\<close> is a function \<open>'s \<Rightarrow> ('e, 'a) outcome \<times> 's\<close> that keeps the changes made before an early return.
  Machine integers are words, hashes and addresses 256-bit words.  \<open>BTreeMap\<close> is a finite map with its sorted
  iteration, \<open>HashMap\<close> a map; where the code iterates over a hash set, the order is a parameter.  Hash and
  signature functions are parameters (the record \<open>crypto_scheme\<close> and the hasher \<open>mh\<close>); what a theorem needs of
  them (no collision among the hashed values, unforgeability) is one of its hypotheses, and its witness
  instantiates them with concrete functions.  Definitions have the names of the source; a definition that
  translates a loop or a branch of a function is mapped to those lines.

  \<^bold>\<open>Theories.\<close>

  \<^item> \<open>Aptos_Prelude\<close>: outcomes, checked arithmetic, ordered maps, stateful methods and the lemmas on them, with
    the collections \<open>outcome_simps\<close> and \<open>quorum_simps\<close>.
  \<^item> \<open>Validator_Verifier\<close> (\<open>src/types/src/validator_verifier.rs\<close>, \<open>validator_set.rs\<close>): construction, voting power
    and signature checks.  The constructor's bounds; two accepted quorums share more than a third of the voting
    power; batched verification equals the one-by-one reference.
  \<^item> \<open>Ledger_Info\<close> (\<open>ledger_info.rs\<close>, \<open>block_info.rs\<close>, \<open>epoch_state.rs\<close>, \<open>waypoint.rs\<close>): the data that consensus signs.
  \<^item> \<open>In_Memory_Accumulator\<close>, \<open>Accumulator_Proofs\<close> (\<open>src/types/src/proof/accumulator/mod.rs\<close>, \<open>definition.rs\<close>): the
    accumulator of frozen subtree roots against the tree over all leaves (\<open>merkle_root\<close>); soundness and
    completeness of inclusion proofs; extension of a summary by a consistency proof.
  \<^item> \<open>Tree_Position\<close> (\<open>src/types/src/proof/position/mod.rs\<close>): positions as in-order indices, their bit tricks shown
    equal to arithmetic on level and index (\<open>node\<close>), the round trip with post-order indices, and the two iterators
    over frozen subtrees.
  \<^item> \<open>Storage_Accumulator\<close>, \<open>Storage_Accumulator_Proofs\<close> (\<open>src/storage/accumulator/src/lib.rs\<close> and
    \<open>AccumulatorRangeProof\<close>): the accumulator over a storage reader.  \<open>append\<close> refines extending the list of leaves
    and numbers the nodes it freezes consecutively in post-order; every inclusion, range and consistency proof
    read from the storage is accepted by the verifiers of the theories above.
  \<^item> \<open>Epoch_Change\<close> (\<open>epoch_change.rs\<close>, \<open>trusted_state.rs\<close>, \<open>state_proof.rs\<close>): epoch change proofs and the ratchet of a
    light client, which only moves along a chain of ledger infos each signed by a quorum of the epoch before.
  \<^item> \<open>Consensus_Types\<close>, \<open>Consensus_Messages\<close> (\<open>src/consensus/consensus-types/src\<close>): vote data, certificates, blocks,
    timeouts, votes, sync info and proposals with their checks.
  \<^item> \<open>Safety_Storage\<close>, \<open>Safety_Rules\<close>, \<open>Safety_Service\<close> (\<open>src/secure/storage/src\<close>, \<open>src/consensus/safety-rules/src\<close>): the
    key-value storage, the persistent safety data with its cache, every guarded method, and the serialised service
    and its clients.  A validator signs at most one vote per round, its timeouts report what it voted for, refused
    requests change nothing, and the safety data only grows.
  \<^item> \<open>Two_Chain_Safety\<close>: the system of all validators, each running the safety rules, with an adversary that
    controls less than a third of the voting power: no two conflicting blocks are committed.
  \<^item> \<open>Pending_Votes\<close> (\<open>src/consensus/src/pending_votes.rs\<close>), \<open>Round_State\<close> (\<open>liveness/round_state.rs\<close>): the certificates
    formed verify, a quorum of votes is certified, equivocations count once; the current round follows the
    certificates, new-round events increase, and no call of a run fails.
  \<^item> \<open>Forests\<close>, \<open>Executed_Block\<close>, \<open>Block_Tree\<close>, \<open>Block_Tree_Pruning\<close>, \<open>Block_Tree_Proofs\<close>
    (\<open>src/consensus/src/block_storage/block_tree.rs\<close>, \<open>executed_block.rs\<close>): the block tree with insertion, certificates,
    commit and pruning refines a tree of blocks below the commit root; its searches end.  The locale \<open>forest\<close> holds
    the graph reasoning and is interpreted on the live part and on the pruned part of the tree.

  \<^bold>\<open>Loops.\<close>  A loop with a fixed or decreasing count is a structural recursion or a \<open>function\<close> with a measure.  Loops
  whose end depends on an invariant (pruning, the path to the root, iterators that are collected, the range
  verifier) are \<open>partial_function (option)\<close>, with \<open>None\<close> for a loop that does not end; the theorems state that they
  return \<open>Some\<close>.  No fuel is used.

  \<^bold>\<open>Bounds.\<close>  Accumulators have at most \<open>2 ^ 63\<close> leaves, the limit \<open>MAX_ACCUMULATOR_LEAVES\<close> of the source.  \<open>append\<close> is
  stated for fewer than \<open>2 ^ 62\<close> new leaves, above which its capacity hint overflows; a vector of 32-byte hashes
  cannot have that many elements.  Consensus rounds are words; the pacemaker theorems name the bounds under which
  round and duration arithmetic does not overflow.

  \<^bold>\<open>Not modelled.\<close>  Serialisation formats, logging and metrics; asynchronous event loops and channels (round manager,
  epoch manager, block store, state synchronisation, network, mempool broadcast); the databases below the
  accumulator's reader; the jellyfish Merkle tree and the scratchpad; execution, which is the Move virtual machine and
  is not in the repository; REST API, command line tools, configuration, faucets and test drivers.  The floating-point
  computation of the round duration is the parameter \<open>time_interval\<close>.  Deferred timers are modelled by the calls that
  they make.
\<close>

end
